(* ===== verification/Prelude_DV.thy ===== *)
theory Prelude_DV
  imports "HOL-Library.Word"
begin

text \<open>
  Shared vocabulary of the development: the machine types of the C++ sources, byte
  buffers, little-endian memory copies, and the generic facts on words and lists that the
  component theories rest on.
\<close>

unbundle bit_operations_syntax

type_synonym u8 = "8 word"
type_synonym u16 = "16 word"
type_synonym u32 = "32 word"
type_synonym u64 = "64 word"
type_synonym bytes = "u8 list"

named_theorems mask_bits \<open>the bits of the literal masks the sources use\<close>

subsection \<open>Words, bit by bit\<close>

lemma bit_int_7f [mask_bits]: "bit (0x7f :: int) n \<longleftrightarrow> n < 7"
proof -
  have "(0x7f :: int) = mask 7" by (simp add: mask_eq_exp_minus_1)
  then show ?thesis by (simp only: bit_mask_iff) auto
qed

lemma bit_int_80 [mask_bits]: "bit (0x80 :: int) n \<longleftrightarrow> n = 7"
proof -
  have "(0x80 :: int) = 2 ^ 7" by simp
  then show ?thesis by (simp only: bit_exp_iff) auto
qed

lemma word_and_80_eq_0 [simp]: "(b :: u8) AND 0x80 = 0 \<longleftrightarrow> \<not> bit b 7"
proof -
  have "(0x80 :: u8) = 2 ^ 7" by simp
  then show ?thesis by (simp only: and_exp_eq_0_iff_not_bit)
qed

lemma bit_imp_less_exp: "unat (v :: 'a::len word) < 2 ^ k \<Longrightarrow> bit v n \<Longrightarrow> n < k"
proof -
  assume less: "unat v < 2 ^ k" and b: "bit v n"
  from less have "take_bit k (unat v) = unat v"
    by (simp add: take_bit_nat_eq_self)
  moreover from b have "bit (unat v) n"
    by (simp add: bit_unsigned_iff bit_imp_possible_bit)
  ultimately show ?thesis by (metis bit_take_bit_iff)
qed

lemma less_exp_of_bits:
  assumes "\<And>n. bit (v :: 'a::len word) n \<Longrightarrow> n < k"
  shows "unat v < 2 ^ k"
proof -
  have "take_bit k (unat v) = unat v"
    by (rule bit_eqI) (auto simp: bit_take_bit_iff bit_unsigned_iff dest: assms)
  then show ?thesis by (metis take_bit_nat_less_exp)
qed

lemma unat_less_exp: "unat (v :: 'a::len word) < 2 ^ LENGTH('a)"
  by (rule unsigned_less)

lemma unat_of_nat_less: "n < 2 ^ LENGTH('a) \<Longrightarrow> unat (of_nat n :: 'a::len word) = n"
  by (simp add: unat_of_nat take_bit_nat_eq_self)

lemma uint_NOT: "uint (NOT (w :: 'a::len word)) = 2 ^ LENGTH('a) - 1 - uint w"
proof -
  have "take_bit LENGTH('a) (uint w) = uint w" by (simp add: take_bit_int_eq_self)
  then show ?thesis
    by (simp only: unsigned_not_eq take_bit_not_eq_mask_diff mask_eq_exp_minus_1)
qed

lemma unat_drop_bit_div: "unat (drop_bit n (w :: 'a::len word)) = unat w div 2 ^ n"
  unfolding unat_drop_bit_eq by (simp add: drop_bit_eq_div)

lemma unat_ucast_le: "unat (ucast (w :: 'a::len word) :: 'b::len word) \<le> unat w"
  by (simp add: unsigned_ucast_eq)

lemma unat_ucast_up: "LENGTH('a) \<le> LENGTH('b) \<Longrightarrow>
  unat (ucast (w :: 'a::len word) :: 'b::len word) = unat w"
  by (simp add: unsigned_ucast_eq take_bit_nat_eq_self order_less_le_trans[OF unsigned_less])

lemma unat_ucast_trunc: "unat (ucast (x :: 'a::len word) :: 'b::len word) = take_bit LENGTH('b) (unat x)"
  by (simp add: unsigned_ucast_eq unsigned_take_bit_eq)

subsection \<open>Little-endian memory\<close>

text \<open>What \<^verbatim>\<open>memcpy\<close> stores of an integer, and what it reads back, on the little-endian
  targets the sources insist on.\<close>

primrec le_bytes :: "nat \<Rightarrow> 'a::len word \<Rightarrow> bytes" where
  "le_bytes 0 w = []"
| "le_bytes (Suc n) w = ucast w # le_bytes n (drop_bit 8 w)"

primrec le_word :: "bytes \<Rightarrow> 'a::len word" where
  "le_word [] = 0"
| "le_word (b # bs) = ucast b OR push_bit 8 (le_word bs)"

lemma length_le_bytes [simp]: "length (le_bytes n w) = n"
  by (induction n arbitrary: w) auto

lemma le_bytes_Nil_iff [simp]: "le_bytes n w = [] \<longleftrightarrow> n = 0"
  by (cases n) simp_all

lemma bit_le_word: "bit (le_word bs :: 'a::len word) n \<longleftrightarrow>
  n < LENGTH('a) \<and> n div 8 < length bs \<and> bit (bs ! (n div 8)) (n mod 8)"
proof (induction bs arbitrary: n)
  case Nil
  then show ?case by simp
next
  case (Cons b bs)
  have lhs: "bit (le_word (b # bs) :: 'a word) n \<longleftrightarrow>
    n < LENGTH('a) \<and> (bit b n \<or> 8 \<le> n \<and> bit (le_word bs :: 'a word) (n - 8))"
    by (auto simp: bit_or_iff bit_unsigned_iff bit_push_bit_iff)
  show ?case
  proof (cases "n < 8")
    case True
    then show ?thesis unfolding lhs by auto
  next
    case False
    then have "n div 8 = Suc ((n - 8) div 8)" "n mod 8 = (n - 8) mod 8"
      by (simp_all add: le_div_geq le_mod_geq)
    moreover have "\<not> bit b n" using False bit_imp_le_length[of b n] by auto
    ultimately show ?thesis using False unfolding lhs Cons.IH by auto
  qed
qed

lemma le_bytes_nth: "i < n \<Longrightarrow> le_bytes n w ! i = ucast (drop_bit (8 * i) w)"
proof (induction n arbitrary: w i)
  case 0
  then show ?case by simp
next
  case (Suc n)
  then show ?case by (cases i) (simp_all add: add.commute)
qed

lemma le_word_le_bytes:
  "(le_word (le_bytes n (w :: 'a::len word)) :: 'b::len word) = ucast (take_bit (8 * n) w)"
proof (rule bit_word_eqI)
  fix i
  assume i: "i < LENGTH('b)"
  have "i div 8 < n \<longleftrightarrow> i < 8 * n"
    by (simp add: less_mult_imp_div_less div_less_iff_less_mult mult.commute)
  moreover have "8 * (i div 8) + i mod 8 = i" by simp
  ultimately show "bit (le_word (le_bytes n w) :: 'b word) i = bit (ucast (take_bit (8 * n) w) :: 'b word) i"
    using i by (auto simp: bit_le_word bit_take_bit_iff le_bytes_nth bit_unsigned_iff bit_drop_bit_eq)
qed

subsection \<open>Memory regions\<close>

text \<open>\<^verbatim>\<open>memcpy(mem + off, bs, ...)\<close> into an allocation; \<^const>\<open>None\<close> is a write out of its bounds.\<close>

definition mem_write :: "nat \<Rightarrow> bytes \<Rightarrow> bytes \<Rightarrow> bytes option" where
  "mem_write off bs mem =
     (if off + length bs \<le> length mem then Some (take off mem @ bs @ drop (off + length bs) mem) else None)"

lemma mem_write_Some:
  assumes "off + length bs \<le> length mem"
  obtains mem' where "mem_write off bs mem = Some mem'" "length mem' = length mem"
    "take (off + length bs) mem' = take off mem @ bs"
  using assms by (simp add: mem_write_def)

subsection \<open>Searching bytes\<close>

fun memchr :: "u8 \<Rightarrow> bytes \<Rightarrow> nat option" where
  "memchr c [] = None"
| "memchr c (x # xs) = (if x = c then Some 0 else map_option Suc (memchr c xs))"

lemma memchr_None_iff [simp]: "memchr c xs = None \<longleftrightarrow> c \<notin> set xs"
  by (induction xs) auto

lemma memchr_SomeD: "memchr c xs = Some i \<Longrightarrow> i < length xs \<and> xs ! i = c \<and> c \<notin> set (take i xs)"
  by (induction xs arbitrary: i) (auto split: if_splits)

subsection \<open>Arithmetic of \<^verbatim>\<open>size_t\<close>\<close>

definition add64 :: "nat \<Rightarrow> nat \<Rightarrow> nat" where "add64 a b = (a + b) mod 2 ^ 64"
definition sub64 :: "nat \<Rightarrow> nat \<Rightarrow> nat" where "sub64 a b = (a + 2 ^ 64 - b) mod 2 ^ 64"

lemma add64_small: "a + b < 2 ^ 64 \<Longrightarrow> add64 a b = a + b"
  by (simp add: add64_def)

lemma sub64_small: "b \<le> a \<Longrightarrow> a < 2 ^ 64 \<Longrightarrow> sub64 a b = a - b"
  by (simp add: sub64_def le_mod_geq)

end
