(* ===== verification/Proto_Utils.thy ===== *)
theory Proto_Utils
  imports Prelude_DV
begin

text \<open>
  The protobuf wire-format primitives: \<^verbatim>\<open>include/dejaview/protozero/proto_utils.h\<close> and the
  C header \<^verbatim>\<open>include/dejaview/public/pb_utils.h\<close> it delegates to. A pointer into a buffer
  is the offset from the pointer the function was given; a writer returns the bytes it
  stores. Signed integers are words read in two's complement.
\<close>

subsection \<open>Wire types, schema types and tags\<close>

datatype ProtoWireType = kVarInt | kFixed64 | kLengthDelimited | kFixed32

primrec wire_type_code :: "ProtoWireType \<Rightarrow> u32" where
  "wire_type_code kVarInt = 0"
| "wire_type_code kFixed64 = 1"
| "wire_type_code kLengthDelimited = 2"
| "wire_type_code kFixed32 = 5"

definition MakeTagVarInt :: "u32 \<Rightarrow> u32" where
  "MakeTagVarInt field_id = push_bit 3 field_id OR wire_type_code kVarInt"

text \<open>The template argument of \<^verbatim>\<open>MakeTagFixed<T>\<close> matters only through \<^verbatim>\<open>sizeof(T)\<close>.\<close>

definition MakeTagFixed :: "nat \<Rightarrow> u32 \<Rightarrow> u32" where
  "MakeTagFixed sizeof_T field_id =
     push_bit 3 field_id OR wire_type_code (if sizeof_T = 8 then kFixed64 else kFixed32)"

definition MakeTagLengthDelimited :: "u32 \<Rightarrow> u32" where
  "MakeTagLengthDelimited field_id = push_bit 3 field_id OR wire_type_code kLengthDelimited"

definition kMessageLengthFieldSize :: nat where "kMessageLengthFieldSize = 4"
definition kMaxMessageLength :: nat where "kMaxMessageLength = 2 ^ (kMessageLengthFieldSize * 7) - 1"
definition kMaxTagEncodedSize :: nat where "kMaxTagEncodedSize = 5"
definition kMaxSimpleFieldEncodedSize :: nat where
  "kMaxSimpleFieldEncodedSize = kMaxTagEncodedSize + 10"

datatype ProtoSchemaType =
    kUnknown | kDouble | kFloat | kInt64 | kUint64 | kInt32 | kFixed64_t | kFixed32_t | kBool
  | kString | kGroup | kMessage | kBytes | kUint32 | kEnum | kSfixed32 | kSfixed64 | kSint32
  | kSint64

fun ProtoSchemaToString :: "ProtoSchemaType \<Rightarrow> string" where
  "ProtoSchemaToString kUnknown = ''unknown''"
| "ProtoSchemaToString kDouble = ''double''"
| "ProtoSchemaToString kFloat = ''float''"
| "ProtoSchemaToString kInt64 = ''int64''"
| "ProtoSchemaToString kUint64 = ''uint64''"
| "ProtoSchemaToString kInt32 = ''int32''"
| "ProtoSchemaToString kFixed64_t = ''fixed64''"
| "ProtoSchemaToString kFixed32_t = ''fixed32''"
| "ProtoSchemaToString kBool = ''bool''"
| "ProtoSchemaToString kString = ''string''"
| "ProtoSchemaToString kGroup = ''group''"
| "ProtoSchemaToString kMessage = ''message''"
| "ProtoSchemaToString kBytes = ''bytes''"
| "ProtoSchemaToString kUint32 = ''uint32''"
| "ProtoSchemaToString kEnum = ''enum''"
| "ProtoSchemaToString kSfixed32 = ''sfixed32''"
| "ProtoSchemaToString kSfixed64 = ''sfixed64''"
| "ProtoSchemaToString kSint32 = ''sint32''"
| "ProtoSchemaToString kSint64 = ''sint64''"

subsection \<open>ZigZag\<close>

definition ZigZagEncode :: "'a::len word \<Rightarrow> 'a word" where
  "ZigZagEncode value = push_bit 1 value XOR signed_drop_bit (LENGTH('a) - 1) value"

definition ZigZagDecode :: "'a::len word \<Rightarrow> 'a word" where
  "ZigZagDecode value = (let mask = - (value AND 1) in drop_bit 1 value XOR mask)"

lemma ZigZagDecode_ZigZagEncode: "ZigZagDecode (ZigZagEncode v) = (v :: 'a::len word)"
proof (rule bit_word_eqI)
  fix n assume n: "n < LENGTH('a)"
  let ?neg = "bit v (LENGTH('a) - 1)"
  have sd: "signed_drop_bit (LENGTH('a) - 1) v = (if ?neg then - 1 else 0)"
    by (rule bit_word_eqI) (auto simp: bit_signed_drop_bit_iff Suc_le_eq)
  have enc: "bit (ZigZagEncode v) k \<longleftrightarrow> k < LENGTH('a) \<and> ((1 \<le> k \<and> bit v (k - 1)) \<noteq> ?neg)" for k
    unfolding ZigZagEncode_def sd by (simp only: bit_xor_iff bit_push_bit_iff possible_bit_word) auto
  have lsb: "ZigZagEncode v AND 1 = (if ?neg then 1 else 0)"
    by (rule bit_word_eqI) (auto simp: bit_and_iff bit_1_iff enc)
  have "bit (ZigZagDecode (ZigZagEncode v)) n \<longleftrightarrow> (bit (ZigZagEncode v) (Suc n) \<noteq> ?neg)"
    using n unfolding ZigZagDecode_def Let_def lsb by (auto simp: bit_xor_iff bit_drop_bit_eq)
  also have "\<dots> \<longleftrightarrow> bit v n"
  proof (cases "Suc n < LENGTH('a)")
    case False
    with n have "n = LENGTH('a) - 1" by simp
    with False show ?thesis by (simp add: enc)
  qed (auto simp: enc)
  finally show "bit (ZigZagDecode (ZigZagEncode v)) n = bit v n" .
qed

subsection \<open>Variable-length integers\<close>

text \<open>\<^verbatim>\<open>WriteVarInt\<close> is a template over the (unsigned) type of the value: the comparison
  with \<open>0x80\<close> is made after integer promotion, hence on the value as a number.\<close>

function WriteVarInt :: "'a::len word \<Rightarrow> bytes" where
  "WriteVarInt unsigned_value =
     (if 0x80 \<le> unat unsigned_value
      then (ucast unsigned_value OR 0x80) # WriteVarInt (drop_bit 7 unsigned_value)
      else [ucast unsigned_value])"
  by pat_completeness auto
termination
  by (relation "measure unat") (simp, simp only: in_measure unat_drop_bit_div, simp)

declare WriteVarInt.simps [simp del]

text \<open>Signed arguments are sign-extended to 64 bits before they are written.\<close>

definition ExtendValueForVarIntSerialization :: "'a::len word \<Rightarrow> u64" where
  "ExtendValueForVarIntSerialization value = scast value"

primrec WriteRedundantVarInt :: "u32 \<Rightarrow> nat \<Rightarrow> bytes" where
  "WriteRedundantVarInt value 0 = []"
| "WriteRedundantVarInt value (Suc sz) =
     (let msb = (if 0 < sz then 0x80 else 0)
      in (ucast value OR msb) # WriteRedundantVarInt (drop_bit 7 value) sz)"

fun ParseVarInt_loop :: "bytes \<Rightarrow> nat \<Rightarrow> nat \<Rightarrow> u64 \<Rightarrow> u64 \<times> nat" where
  "ParseVarInt_loop [] shift pos value = (0, 0)"
| "ParseVarInt_loop (cur_byte # rest) shift pos value =
     (if shift < 64 then
        let value' = value OR push_bit shift (ucast (cur_byte AND 0x7f))
        in if cur_byte AND 0x80 = 0 then (value', Suc pos)
           else ParseVarInt_loop rest (shift + 7) (Suc pos) value'
      else (0, 0))"

text \<open>The parsed value and the offset of the next unconsumed byte; offset 0 (the \<^verbatim>\<open>start\<close>
  pointer) tells that no varint could be parsed.\<close>

definition ParseVarInt :: "bytes \<Rightarrow> u64 \<times> nat" where
  "ParseVarInt buf = ParseVarInt_loop buf 0 0 0"

lemma WriteVarInt_nonempty [simp]: "WriteVarInt v \<noteq> []"
  by (subst WriteVarInt.simps) simp

lemma WriteVarInt_small: "unat v < 0x80 \<Longrightarrow> WriteVarInt v = [ucast v]"
  by (simp add: WriteVarInt.simps)

lemma WriteVarInt_large:
  "0x80 \<le> unat v \<Longrightarrow> WriteVarInt v = (ucast v OR 0x80) # WriteVarInt (drop_bit 7 v)"
  by (simp add: WriteVarInt.simps)

lemma WriteVarInt_ucast:
  fixes v :: "'a::len word"
  assumes "8 \<le> LENGTH('a)" "LENGTH('a) \<le> LENGTH('b::len)"
  shows "WriteVarInt (ucast v :: 'b word) = WriteVarInt v"
proof (induction v rule: WriteVarInt.induct)
  case (1 v)
  have u: "unat (ucast v :: 'b word) = unat v" by (rule unat_ucast_up) (rule assms)
  have d: "drop_bit 7 (ucast v :: 'b word) = ucast (drop_bit 7 v)"
    using assms by (intro bit_word_eqI) (auto simp: bit_simps dest: bit_imp_le_length)
  have c: "(ucast (ucast v :: 'b word) :: u8) = ucast v"
    using assms by (intro bit_word_eqI) (auto simp: bit_simps)
  show ?case
  proof (cases "0x80 \<le> unat v")
    case True
    with 1 u show ?thesis by (simp add: WriteVarInt_large d c)
  next
    case False
    with u show ?thesis by (simp add: WriteVarInt_small c)
  qed
qed

lemma length_WriteVarInt_le:
  "0 < k \<Longrightarrow> unat v < 2 ^ (7 * k) \<Longrightarrow> length (WriteVarInt v) \<le> k"
proof (induction v arbitrary: k rule: WriteVarInt.induct)
  case (1 v)
  show ?case
  proof (cases "0x80 \<le> unat v")
    case True
    with 1(3) have "k \<noteq> 1" by auto
    with 1(2) obtain j where k: "k = Suc j" "0 < j" by (cases k) auto
    with 1(3) have "unat (drop_bit 7 v) < 2 ^ (7 * j)"
      unfolding unat_drop_bit_div by (simp add: power_add less_mult_imp_div_less mult.commute)
    from 1(1)[OF True k(2) this] show ?thesis using True k by (simp add: WriteVarInt_large)
  qed (use 1(2) in \<open>simp add: WriteVarInt_small\<close>)
qed

lemma length_WriteVarInt_u64: "length (WriteVarInt (v :: u64)) \<le> 10"
  by (rule length_WriteVarInt_le) (use unat_less_exp[of v] in \<open>simp_all\<close>)

lemma length_WriteVarInt_u32: "length (WriteVarInt (v :: u32)) \<le> 5"
  by (rule length_WriteVarInt_le) (use unat_less_exp[of v] in \<open>simp_all\<close>)

lemma ParseVarInt_loop_WriteVarInt:
  "s < 64 \<Longrightarrow> unat v < 2 ^ (64 - s) \<Longrightarrow>
   ParseVarInt_loop (WriteVarInt v @ rest) s pos acc =
     (acc OR push_bit s v, pos + length (WriteVarInt v))"
proof (induction v arbitrary: s pos acc rule: WriteVarInt.induct)
  case (1 v)
  show ?case
  proof (cases "0x80 \<le> unat v")
    case True
    with 1(3) have "(2::nat) ^ 7 < 2 ^ (64 - s)" by simp
    then have s: "s + 7 < 64" using power_less_imp_less_exp[of "2::nat" 7 "64 - s"] by simp
    then have "64 - s = 7 + (64 - (s + 7))" by simp
    then have "(2::nat) ^ (64 - s) = 2 ^ 7 * 2 ^ (64 - (s + 7))" by (metis power_add)
    then have v: "unat (drop_bit 7 v) < 2 ^ (64 - (s + 7))"
      unfolding unat_drop_bit_div using 1(3) by (simp add: less_mult_imp_div_less mult.commute)
    have eq: "(acc OR push_bit s (ucast ((ucast v OR 0x80 :: u8) AND 0x7f))) OR
        push_bit (s + 7) (drop_bit 7 v) = acc OR push_bit s v"
    proof (rule bit_word_eqI, goal_cases)
      case (1 n)
      have "7 + (n - (s + 7)) = n - s" if "s + 7 \<le> n" using that by simp
      then show ?case by (cases "s + 7 \<le> n") (auto simp: bit_simps mask_bits)
    qed
    have "bit (ucast v OR 0x80 :: u8) 7" by (simp add: bit_or_iff)
    with True s eq 1(1)[OF True s v] 1(2) show ?thesis
      by (simp add: WriteVarInt_large Let_def)
  next
    case False
    then have lt: "n < 7" if "bit v n" for n
      using bit_imp_less_exp[of v 7 n] that by simp
    then have "\<not> bit (ucast v :: u8) 7" by (auto simp: bit_simps)
    moreover have "acc OR push_bit s (ucast ((ucast v :: u8) AND 0x7f)) = acc OR push_bit s v"
      by (rule bit_word_eqI) (auto simp: bit_simps mask_bits dest: lt)
    ultimately show ?thesis using False 1(2) by (simp add: WriteVarInt_small Let_def)
  qed
qed

lemma ParseVarInt_WriteVarInt:
  "ParseVarInt (WriteVarInt (v :: u64) @ rest) = (v, length (WriteVarInt v))"
  unfolding ParseVarInt_def using unat_less_exp[of v]
  by (subst ParseVarInt_loop_WriteVarInt) simp_all

lemma ParseVarInt_WriteVarInt_u32:
  "ParseVarInt (WriteVarInt (v :: u32) @ rest) = (ucast v, length (WriteVarInt v))"
  using ParseVarInt_WriteVarInt[of "ucast v" rest] by (simp add: WriteVarInt_ucast)

lemma length_WriteRedundantVarInt [simp]: "length (WriteRedundantVarInt v n) = n"
  by (induction n arbitrary: v) (auto simp: Let_def)

lemma ParseVarInt_loop_WriteRedundantVarInt:
  "0 < n \<Longrightarrow> s + 7 * n \<le> 70 \<Longrightarrow> unat v < 2 ^ (7 * n) \<Longrightarrow>
   ParseVarInt_loop (WriteRedundantVarInt v n @ rest) s pos acc =
     (acc OR push_bit s (ucast v), pos + n)"
proof (induction n arbitrary: v s pos acc)
  case 0
  then show ?case by simp
next
  case (Suc n)
  show ?case
  proof (cases "n = 0")
    case True
    then have lt: "k < 7" if "bit v k" for k
      using bit_imp_less_exp[of v 7 k] that Suc.prems by simp
    then have "\<not> bit (ucast v :: u8) 7" by (auto simp: bit_simps)
    moreover have "acc OR push_bit s (ucast ((ucast v :: u8) AND 0x7f)) = acc OR push_bit s (ucast v)"
      by (rule bit_word_eqI) (auto simp: bit_simps mask_bits dest: lt)
    ultimately show ?thesis using True Suc.prems by (simp add: Let_def)
  next
    case False
    have v: "unat (drop_bit 7 v) < 2 ^ (7 * n)"
      unfolding unat_drop_bit_div using Suc.prems
      by (simp add: power_add less_mult_imp_div_less mult.commute)
    have "bit (ucast v OR 0x80 :: u8) 7" by (simp add: bit_or_iff)
    moreover have "(acc OR push_bit s (ucast ((ucast v OR 0x80 :: u8) AND 0x7f))) OR
        push_bit (s + 7) (ucast (drop_bit 7 v)) = acc OR push_bit s (ucast v)"
    proof (rule bit_word_eqI, goal_cases)
      case (1 n)
      have "7 + (n - (s + 7)) = n - s" if "s + 7 \<le> n" using that by simp
      then show ?case
        by (cases "s + 7 \<le> n") (auto simp: bit_simps mask_bits dest: bit_imp_le_length)
    qed
    moreover note Suc.IH[OF _ _ v, of "s + 7" "Suc pos"]
    ultimately show ?thesis using False Suc.prems by (simp add: Let_def)
  qed
qed

lemma ParseVarInt_WriteRedundantVarInt:
  "0 < n \<Longrightarrow> n \<le> 10 \<Longrightarrow> unat v < 2 ^ (7 * n) \<Longrightarrow>
   ParseVarInt (WriteRedundantVarInt v n @ rest) = (ucast v, n)"
  unfolding ParseVarInt_def by (subst ParseVarInt_loop_WriteRedundantVarInt) simp_all

subsubsection \<open>What a successful parse tells\<close>

lemma ParseVarInt_loop_bounds:
  "ParseVarInt_loop bs s pos acc = (v, n) \<Longrightarrow> n \<noteq> 0 \<Longrightarrow>
   pos < n \<and> n \<le> pos + length bs \<and> s + 7 * (n - pos) \<le> 70 \<and>
   ((\<forall>i. bit acc i \<longrightarrow> i < s) \<longrightarrow> (\<forall>i. bit v i \<longrightarrow> i < s + 7 * (n - pos)))"
proof (induction bs s pos acc rule: ParseVarInt_loop.induct)
  case (1 shift pos acc)
  then show ?case by simp
next
  case (2 b rest shift pos acc)
  let ?acc = "acc OR push_bit shift (ucast (b AND 0x7f))"
  have acc: "\<forall>i. bit ?acc i \<longrightarrow> i < shift + 7" if "\<forall>i. bit acc i \<longrightarrow> i < shift"
    using that by (auto simp: bit_simps mask_bits dest: add_lessD1 trans_less_add1)
  show ?case
  proof (cases "bit b 7")
    case True
    with "2.prems" have sh: "shift < 64" and
        rec: "ParseVarInt_loop rest (shift + 7) (Suc pos) ?acc = (v, n)"
      by (auto simp: Let_def split: if_splits)
    with "2.IH"[OF sh refl] True "2.prems" acc show ?thesis by fastforce
  next
    case False
    with "2.prems" acc show ?thesis by (auto simp: Let_def split: if_splits)
  qed
qed

lemma ParseVarInt_bounds:
  assumes "ParseVarInt bs = (v, n)" "n \<noteq> 0"
  shows "n \<le> length bs" "n \<le> 10" "unat v < 2 ^ (7 * n)"
  using ParseVarInt_loop_bounds[OF assms[unfolded ParseVarInt_def]]
  by (auto intro: less_exp_of_bits)

lemma ParseVarInt_canonical:
  "ParseVarInt bs = (v, n) \<Longrightarrow> n \<noteq> 0 \<Longrightarrow> length (WriteVarInt v) \<le> n"
  by (rule length_WriteVarInt_le) (auto dest: ParseVarInt_bounds)

lemma ParseVarInt_loop_append:
  "ParseVarInt_loop bs s pos acc = (v, n) \<Longrightarrow> n \<noteq> 0 \<Longrightarrow>
   ParseVarInt_loop (bs @ rest) s pos acc = (v, n)"
  by (induction bs s pos acc rule: ParseVarInt_loop.induct) (auto simp: Let_def split: if_splits)

lemma ParseVarInt_append:
  "ParseVarInt bs = (v, n) \<Longrightarrow> n \<noteq> 0 \<Longrightarrow> ParseVarInt (bs @ rest) = (v, n)"
  unfolding ParseVarInt_def by (rule ParseVarInt_loop_append)

lemma ParseVarInt_failed: "ParseVarInt bs = (v, 0) \<Longrightarrow> v = 0"
proof -
  have "ParseVarInt_loop bs s pos acc = (v, 0) \<Longrightarrow> v = 0" for s pos acc
    by (induction bs s pos acc rule: ParseVarInt_loop.induct) (auto simp: Let_def split: if_splits)
  then show "ParseVarInt bs = (v, 0) \<Longrightarrow> v = 0" unfolding ParseVarInt_def .
qed

lemma ParseVarInt_Nil [simp]: "ParseVarInt [] = (0, 0)"
  by (simp add: ParseVarInt_def)

subsection \<open>The C entry points of pb\_utils.h\<close>

definition DejaViewPbMakeTag :: "u32 \<Rightarrow> ProtoWireType \<Rightarrow> u32" where
  "DejaViewPbMakeTag field_id wire_type = push_bit 3 field_id OR wire_type_code wire_type"

function DejaViewPbWriteVarInt :: "u64 \<Rightarrow> bytes" where
  "DejaViewPbWriteVarInt value =
     (if 0x80 \<le> unat value
      then ucast ((value AND 0x7f) OR 0x80) # DejaViewPbWriteVarInt (drop_bit 7 value)
      else [ucast (value AND 0x7f)])"
  by pat_completeness auto
termination
  by (relation "measure unat") (simp, simp only: in_measure unat_drop_bit_div, simp)

declare DejaViewPbWriteVarInt.simps [simp del]

definition DejaViewPbWriteFixed32 :: "u32 \<Rightarrow> bytes" where
  "DejaViewPbWriteFixed32 value =
     [ucast value, ucast (drop_bit 8 value), ucast (drop_bit 16 value), ucast (drop_bit 24 value)]"

definition DejaViewPbWriteFixed64 :: "u64 \<Rightarrow> bytes" where
  "DejaViewPbWriteFixed64 value =
     [ucast value, ucast (drop_bit 8 value), ucast (drop_bit 16 value), ucast (drop_bit 24 value),
      ucast (drop_bit 32 value), ucast (drop_bit 40 value), ucast (drop_bit 48 value),
      ucast (drop_bit 56 value)]"

definition DejaViewPbZigZagEncode32 :: "u32 \<Rightarrow> u32" where
  "DejaViewPbZigZagEncode32 value = push_bit 1 value XOR signed_drop_bit 31 value"

definition DejaViewPbZigZagEncode64 :: "u64 \<Rightarrow> u64" where
  "DejaViewPbZigZagEncode64 value = push_bit 1 value XOR signed_drop_bit 63 value"

definition DejaViewPbZigZagDecode32 :: "u32 \<Rightarrow> u32" where
  "DejaViewPbZigZagDecode32 value = (let mask = - (value AND 1) in drop_bit 1 value XOR mask)"

definition DejaViewPbZigZagDecode64 :: "u64 \<Rightarrow> u64" where
  "DejaViewPbZigZagDecode64 value = (let mask = - (value AND 1) in drop_bit 1 value XOR mask)"

lemma DejaViewPbWriteVarInt_eq: "DejaViewPbWriteVarInt v = WriteVarInt v"
proof (induction v rule: DejaViewPbWriteVarInt.induct)
  case (1 v)
  have "(ucast ((v AND 0x7f) OR 0x80) :: u8) = ucast v OR 0x80"
    by (rule bit_word_eqI) (auto simp: bit_simps mask_bits)
  moreover have "(ucast (v AND 0x7f) :: u8) = ucast v" if "unat v < 0x80"
    using that bit_imp_less_exp[of v 7]
    by (intro bit_word_eqI) (auto simp: bit_simps mask_bits)
  ultimately show ?case
    using 1 by (simp add: DejaViewPbWriteVarInt.simps[of v] WriteVarInt.simps[of v])
qed

lemma DejaViewPbWriteFixed_eq:
  "DejaViewPbWriteFixed32 w = le_bytes 4 w" "DejaViewPbWriteFixed64 u = le_bytes 8 u"
  by (simp_all add: DejaViewPbWriteFixed32_def DejaViewPbWriteFixed64_def eval_nat_numeral)

lemma DejaViewPbZigZag_eq:
  "DejaViewPbZigZagEncode32 = ZigZagEncode" "DejaViewPbZigZagEncode64 = ZigZagEncode"
  "DejaViewPbZigZagDecode32 = ZigZagDecode" "DejaViewPbZigZagDecode64 = ZigZagDecode"
  by (simp_all add: fun_eq_iff DejaViewPbZigZagEncode32_def DejaViewPbZigZagEncode64_def
        DejaViewPbZigZagDecode32_def DejaViewPbZigZagDecode64_def ZigZagEncode_def ZigZagDecode_def)

subsection \<open>Tags\<close>

lemma MakeTag_eq:
  "MakeTagVarInt f = DejaViewPbMakeTag f kVarInt"
  "MakeTagFixed 4 f = DejaViewPbMakeTag f kFixed32"
  "MakeTagFixed 8 f = DejaViewPbMakeTag f kFixed64"
  "MakeTagLengthDelimited f = DejaViewPbMakeTag f kLengthDelimited"
  by (simp_all add: MakeTagVarInt_def MakeTagFixed_def MakeTagLengthDelimited_def
        DejaViewPbMakeTag_def)

lemma wire_type_code_bits: "bit (wire_type_code t) n \<Longrightarrow> n < 3"
  using bit_imp_less_exp[of "wire_type_code t" 3 n] by (cases t) simp_all

lemma bit_int_7 [mask_bits]: "bit (0x7 :: int) n \<longleftrightarrow> n < 3"
proof -
  have "(0x7 :: int) = mask 3" by (simp add: mask_eq_exp_minus_1)
  then show ?thesis by (simp only: bit_mask_iff) auto
qed

lemma tag_field_id:
  assumes "unat f < 2 ^ 29"
  shows "ucast (drop_bit 3 (ucast (DejaViewPbMakeTag f t) :: u64)) = f"
proof (rule bit_word_eqI)
  fix n assume "n < LENGTH(32)"
  show "bit (ucast (drop_bit 3 (ucast (DejaViewPbMakeTag f t) :: u64)) :: u32) n = bit f n"
    using bit_imp_less_exp[OF assms, of n] wire_type_code_bits[of t "3 + n"]
    by (auto simp: DejaViewPbMakeTag_def bit_simps)
qed

lemma tag_wire_type: "(ucast (DejaViewPbMakeTag f t) :: u64) AND 0x7 = ucast (wire_type_code t)"
  by (rule bit_word_eqI)
    (auto simp: DejaViewPbMakeTag_def bit_simps mask_bits dest: wire_type_code_bits)


subsection \<open>Correctness of the wire primitives\<close>

lemma uint_push_bit_1: "uint (push_bit 1 (v :: 'a::len word)) = (2 * uint v) mod 2 ^ LENGTH('a)"
  by (simp only: push_bit_eq_mult) (simp add: uint_word_ariths mult.commute)

lemma sint_eq_uint:
  "sint (v :: 'a::len word) = uint v - (if bit v (LENGTH('a) - 1) then 2 ^ LENGTH('a) else 0)"
  unfolding sint_uint signed_take_bit_eq_take_bit_minus
  by (simp add: bit_unsigned_iff take_bit_int_eq_self)

lemma uint_ZigZagEncode:
  "uint (ZigZagEncode (v :: 'a::len word)) = (if 0 \<le> sint v then 2 * sint v else - 2 * sint v - 1)"
proof -
  let ?L = "LENGTH('a)" and ?neg = "bit v (LENGTH('a) - 1)"
  have sd: "signed_drop_bit (?L - 1) v = (if ?neg then - 1 else 0)"
    by (rule bit_word_eqI) (auto simp: bit_signed_drop_bit_iff Suc_le_eq)
  have L: "(2::int) ^ ?L = 2 * 2 ^ (?L - 1)" by (simp flip: power_Suc)
  note range = sint_ge[of v] sint_lt[of v]
  show ?thesis
  proof (cases ?neg)
    case True
    then have s: "sint v = uint v - 2 ^ ?L" by (simp add: sint_eq_uint)
    have neg: "sint v < 0" using s uint_lt2p[of v] by simp
    have "(2 * uint v) mod 2 ^ ?L = (2 * uint v - 2 ^ ?L) mod 2 ^ ?L" by simp
    also have "\<dots> = 2 * uint v - 2 ^ ?L"
      using s range L uint_lt2p[of v] by (intro mod_pos_pos_trivial) linarith+
    finally have "uint (push_bit 1 v) = 2 * uint v - 2 ^ ?L" unfolding uint_push_bit_1 .
    then have "uint (NOT (push_bit 1 v)) = 2 ^ ?L - 1 - (2 * uint v - 2 ^ ?L)"
      by (simp only: uint_NOT)
    moreover have "ZigZagEncode v = NOT (push_bit 1 v)"
      using True unfolding ZigZagEncode_def sd by (simp only: if_True bit.xor_one_right)
    ultimately show ?thesis using neg s uint_lt2p[of v] by (simp add: not_le)
  next
    case False
    then have s: "sint v = uint v" by (simp add: sint_eq_uint)
    then have "uint (push_bit 1 v) = 2 * uint v"
      unfolding uint_push_bit_1 using range L by simp
    then show ?thesis using False s unfolding ZigZagEncode_def sd by simp
  qed
qed


text \<open>C14. Varints: parsing what \<^verbatim>\<open>WriteVarInt\<close> wrote returns the value and stops right after it,
  whatever follows in the buffer; the C entry point \<^verbatim>\<open>DejaViewPbWriteVarInt\<close> writes the same
  bytes; and the encoding takes between 1 and 10 bytes (5 for 32-bit values), the sizes the
  callers reserve.\<close>

theorem varint_roundtrip:
  "ParseVarInt (WriteVarInt (v :: u64) @ rest) = (v, length (WriteVarInt v)) \<and>
   ParseVarInt (WriteVarInt (w :: u32) @ rest) = (ucast w, length (WriteVarInt w)) \<and>
   DejaViewPbWriteVarInt v = WriteVarInt v \<and>
   0 < length (WriteVarInt v) \<and> length (WriteVarInt v) \<le> 10 \<and> length (WriteVarInt w) \<le> 5"
  by (simp add: ParseVarInt_WriteVarInt ParseVarInt_WriteVarInt_u32 DejaViewPbWriteVarInt_eq
      length_WriteVarInt_u64 length_WriteVarInt_u32)

text \<open>Redundant varints: a length back-filled with \<^verbatim>\<open>WriteRedundantVarInt\<close> over \<open>n\<close> reserved
  bytes occupies exactly these bytes and parses back to the length, whenever the length fits
  in \<open>7 * n\<close> bits.\<close>

theorem redundant_varint_roundtrip:
  assumes "0 < n" "n \<le> 10" "unat v < 2 ^ (7 * n)"
  shows "length (WriteRedundantVarInt v n) = n \<and>
    ParseVarInt (WriteRedundantVarInt v n @ rest) = (ucast v, n)"
  using assms by (simp add: ParseVarInt_WriteRedundantVarInt)

theorem redundant_varint_roundtrip_witness:
  "length (WriteRedundantVarInt 300 kMessageLengthFieldSize) = 4 \<and>
   ParseVarInt (WriteRedundantVarInt 300 4 @ [1, 2]) = (300, 4)"
  using redundant_varint_roundtrip[of 4 300 "[1, 2]"] by (simp add: kMessageLengthFieldSize_def)

text \<open>C15. The varint parser on arbitrary bytes: it never reads past the end of the buffer nor more
  than ten bytes, what it accepts is a prefix property of the input, the value it returns never
  needs more bytes to be written back than were consumed, and on failure it reports 0.\<close>

theorem ParseVarInt_sound:
  assumes "ParseVarInt bs = (v, n)"
  shows "if n = 0 then v = 0
    else n \<le> length bs \<and> n \<le> 10 \<and> length (WriteVarInt v) \<le> n \<and>
      (\<forall>rest. ParseVarInt (bs @ rest) = (v, n))"
  using assms ParseVarInt_bounds[OF assms] ParseVarInt_canonical[OF assms]
  by (auto simp: ParseVarInt_append ParseVarInt_failed)

theorem ParseVarInt_sound_witness:
  "ParseVarInt [0x81, 0x80, 0x00, 7] = (1, 3) \<and> length (WriteVarInt (1 :: u64)) \<le> 3"
proof -
  have h: "ParseVarInt [0x81, 0x80, 0x00, 7] = (1, 3)"
    by (simp add: ParseVarInt_def Let_def)
  from ParseVarInt_sound[OF h] h show ?thesis by simp
qed

text \<open>ZigZag: decoding inverts encoding at every width, the encoding interleaves the
  non-negative and the negative numbers (so values of small magnitude have short varints), and
  the C entry points compute the same functions.\<close>

theorem zigzag_correct:
  fixes v :: "'a::len word"
  shows "ZigZagDecode (ZigZagEncode v) = v \<and>
    uint (ZigZagEncode v) = (if 0 \<le> sint v then 2 * sint v else - 2 * sint v - 1) \<and>
    DejaViewPbZigZagDecode32 (DejaViewPbZigZagEncode32 w) = w \<and>
    DejaViewPbZigZagDecode64 (DejaViewPbZigZagEncode64 u) = u"
  by (simp only: ZigZagDecode_ZigZagEncode uint_ZigZagEncode DejaViewPbZigZag_eq refl simp_thms)

end
