(* ===== verification/Proto_Ring_Buffer.thy ===== *)
theory Proto_Ring_Buffer
  imports Proto_Utils
begin

text \<open>
  The message reader of \<^verbatim>\<open>proto_ring_buffer.h/.cc\<close>: \<^verbatim>\<open>RingBufferMessageReader\<close>, which turns a
  byte stream cut at arbitrary places into messages, and its subclass \<^verbatim>\<open>ProtoRingBuffer\<close>.
  The virtual method \<^verbatim>\<open>TryReadMessage\<close> is the argument \<open>try_read\<close> of the operations; what the
  reader relies on of it is the locale \<open>message_framing\<close>. The pointers of a \<^verbatim>\<open>Message\<close> are
  offsets from the \<^verbatim>\<open>start\<close> argument of \<^verbatim>\<open>TryReadMessage\<close>.
\<close>

subsection \<open>Messages and the protobuf framing\<close>

record Message =
  m_start :: "nat option"
  m_len :: u32
  m_field_id :: u32
  fatal_framing_error :: bool

definition no_message :: Message where
  "no_message = \<lparr>m_start = None, m_len = 0, m_field_id = 0, fatal_framing_error = False\<rparr>"

definition FramingError :: Message where
  "FramingError = no_message\<lparr>fatal_framing_error := True\<rparr>"

definition m_valid :: "Message \<Rightarrow> bool" where
  "m_valid msg \<longleftrightarrow> m_start msg \<noteq> None"

definition m_end :: "Message \<Rightarrow> nat" where
  "m_end msg = the (m_start msg) + unat (m_len msg)"

definition kGrowBytes :: nat where "kGrowBytes = 128 * 1024"
definition kMaxMsgSize :: nat where "kMaxMsgSize = 64 * 1024 * 1024"

definition TryReadProtoMessage :: "bytes \<Rightarrow> Message" where
  "TryReadProtoMessage buf =
     (case ParseVarInt buf of (field_tag, start_of_len) \<Rightarrow>
        if start_of_len = 0 then no_message
        else if field_tag AND 0x7 \<noteq> ucast (wire_type_code kLengthDelimited) then FramingError
        else case ParseVarInt (drop start_of_len buf) of (msg_len, n) \<Rightarrow>
          if n = 0 then no_message
          else if kMaxMsgSize < unat msg_len then FramingError
          else let start_of_msg = start_of_len + n in
            if length buf < start_of_msg + unat msg_len then no_message
            else \<lparr>m_start = Some start_of_msg, m_len = ucast msg_len,
                  m_field_id = ucast (drop_bit 3 field_tag), fatal_framing_error = False\<rparr>)"

subsection \<open>The reader\<close>

text \<open>\<open>fast_mem\<close> is the caller's memory that \<^verbatim>\<open>fastpath_\<close> points into.\<close>

record RingBuffer =
  rbuf :: bytes
  fastpath :: Message
  fast_mem :: bytes
  failed :: bool
  rd :: nat
  wr :: nat

definition RingBufferMessageReader :: RingBuffer where
  "RingBufferMessageReader =
     \<lparr>rbuf = replicate kGrowBytes 0, fastpath = no_message, fast_mem = [], failed = False, rd = 0, wr = 0\<rparr>"

function grow_size :: "nat \<Rightarrow> nat \<Rightarrow> nat \<Rightarrow> nat" where
  "grow_size data_len w new_size =
     (if new_size - w < data_len then grow_size data_len w (new_size + kGrowBytes) else new_size)"
  by pat_completeness auto
termination
  by (relation "measure (\<lambda>(data_len, w, new_size). w + data_len - new_size)") (auto simp: kGrowBytes_def)

declare grow_size.simps [simp del]

text \<open>\<^verbatim>\<open>memmove(&buf[0], &buf[rd_], wr_ - rd_)\<close> with the cursors it implies.\<close>

definition recompact :: "RingBuffer \<Rightarrow> RingBuffer" where
  "recompact r =
     (let n = wr r - rd r
      in r\<lparr>rbuf := take n (drop (rd r) (rbuf r)) @ drop n (rbuf r), wr := n, rd := 0\<rparr>)"

definition append_data :: "RingBuffer \<Rightarrow> bytes \<Rightarrow> RingBuffer" where
  "append_data r data =
     r\<lparr>rbuf := take (wr r) (rbuf r) @ data @ drop (wr r + length data) (rbuf r),
       wr := wr r + length data\<rparr>"

text \<open>\<^const>\<open>None\<close> is the failed \<^verbatim>\<open>DEJAVIEW_CHECK(!fastpath_.valid())\<close>. Fresh paged memory is
  zero-filled.\<close>

definition Append :: "(bytes \<Rightarrow> Message) \<Rightarrow> RingBuffer \<Rightarrow> bytes \<Rightarrow> RingBuffer option" where
  "Append try_read r data =
     (if failed r then Some r
      else
        let r = (if rd r = wr r then r\<lparr>rd := 0, wr := 0\<rparr> else r) in
        if m_valid (fastpath r) then None
        else
          let msg = try_read data in
          if rd r = wr r \<and> m_valid msg \<and> m_end msg = length data
          then Some (r\<lparr>fastpath := msg, fast_mem := data\<rparr>)
          else
            let avail = length (rbuf r) - wr r in
            if avail < length data then
              let avail = avail + rd r; r = recompact r in
              if avail < length data then
                let new_size = grow_size (length data) (wr r) (length (rbuf r)) in
                if kMaxMsgSize * 2 < new_size then Some (r\<lparr>failed := True\<rparr>)
                else Some (append_data
                       (r\<lparr>rbuf := rbuf r @ replicate (new_size - length (rbuf r)) 0\<rparr>) data)
              else Some (append_data r data)
            else Some (append_data r data))"

text \<open>The message and the bytes its pointer refers to, with the new state; \<^const>\<open>None\<close> for a
  failed \<^verbatim>\<open>DEJAVIEW_CHECK\<close>.\<close>

definition payload_of :: "bytes \<Rightarrow> Message \<Rightarrow> bytes" where
  "payload_of mem msg = take (unat (m_len msg)) (drop (the (m_start msg)) mem)"

definition ReadMessage :: "(bytes \<Rightarrow> Message) \<Rightarrow> RingBuffer \<Rightarrow> (Message \<times> bytes \<times> RingBuffer) option" where
  "ReadMessage try_read r =
     (if failed r then Some (FramingError, [], r)
      else if m_valid (fastpath r) then
        (if rd r \<noteq> wr r then None
         else Some (fastpath r, payload_of (fast_mem r) (fastpath r), r\<lparr>fastpath := no_message\<rparr>))
      else if wr r \<le> rd r then Some (no_message, [], r)
      else
        let window = take (wr r - rd r) (drop (rd r) (rbuf r)); msg = try_read window in
        if \<not> m_valid msg then
          Some (msg, [], r\<lparr>failed := failed r \<or> fatal_framing_error msg\<rparr>)
        else if \<not> (0 < m_end msg \<and> m_end msg \<le> wr r - rd r) then None
        else Some (msg, payload_of window msg, r\<lparr>rd := rd r + m_end msg\<rparr>))"

text \<open>The documented use: after each \<^verbatim>\<open>Append\<close>, call \<^verbatim>\<open>ReadMessage\<close> until it returns an invalid
  message.\<close>

function drain :: "(bytes \<Rightarrow> Message) \<Rightarrow> RingBuffer \<Rightarrow> ((u32 \<times> bytes) list \<times> RingBuffer) option" where
  "drain try_read r =
     (case ReadMessage try_read r of
        None \<Rightarrow> None
      | Some (msg, payload, r') \<Rightarrow>
          if m_valid msg then
            (case drain try_read r' of
               None \<Rightarrow> None | Some (msgs, r'') \<Rightarrow> Some ((m_field_id msg, payload) # msgs, r''))
          else Some ([], r'))"
  by pat_completeness auto
termination
  by (relation "measure (\<lambda>(_, r). (if m_valid (fastpath r) then 1 else 0) + (wr r - rd r))")
    (auto simp: ReadMessage_def Let_def m_valid_def no_message_def FramingError_def split: if_splits)

declare drain.simps [simp del]

fun feed :: "(bytes \<Rightarrow> Message) \<Rightarrow> RingBuffer \<Rightarrow> bytes list \<Rightarrow> ((u32 \<times> bytes) list \<times> RingBuffer) option" where
  "feed try_read r [] = Some ([], r)"
| "feed try_read r (c # cs) =
     (case Append try_read r c of
        None \<Rightarrow> None
      | Some r1 \<Rightarrow> (case drain try_read r1 of
          None \<Rightarrow> None
        | Some (msgs, r2) \<Rightarrow> (case feed try_read r2 cs of
            None \<Rightarrow> None
          | Some (msgs', r3) \<Rightarrow> Some (msgs @ msgs', r3))))"

subsection \<open>The stream specification\<close>

text \<open>The messages of a byte stream, the unparsed rest and whether it is malformed.\<close>

function parse_stream :: "(bytes \<Rightarrow> Message) \<Rightarrow> bytes \<Rightarrow> (u32 \<times> bytes) list \<times> bytes \<times> bool" where
  "parse_stream try_read bs =
     (let msg = try_read bs in
      if m_valid msg \<and> 0 < m_end msg \<and> m_end msg \<le> length bs then
        (case parse_stream try_read (drop (m_end msg) bs) of (msgs, rest, err) \<Rightarrow>
           ((m_field_id msg, payload_of bs msg) # msgs, rest, err))
      else ([], bs, fatal_framing_error msg))"
  by pat_completeness auto
termination
  by (relation "measure (\<lambda>(_, bs). length bs)") auto

declare parse_stream.simps [simp del]

subsection \<open>The contract of TryReadMessage\<close>

text \<open>What the reader relies on: a message lies in the window and is not empty together with its
  preamble, an empty window has neither message nor error, and the answer for a window does not
  change when more bytes arrive behind it.\<close>

locale message_framing =
  fixes try_read :: "bytes \<Rightarrow> Message"
  assumes try_read_bounds: "m_valid (try_read bs) \<Longrightarrow> 0 < m_end (try_read bs) \<and> m_end (try_read bs) \<le> length bs"
    and try_read_Nil: "try_read [] = no_message"
    and try_read_stable: "m_valid (try_read bs) \<or> fatal_framing_error (try_read bs) \<Longrightarrow> try_read (bs @ cs) = try_read bs"
    and try_read_error: "fatal_framing_error (try_read bs) \<Longrightarrow> \<not> m_valid (try_read bs)"

text \<open>The live window of the buffer holds the unread bytes \<open>pend\<close>.\<close>

definition window :: "RingBuffer \<Rightarrow> bytes" where
  "window r = take (wr r - rd r) (drop (rd r) (rbuf r))"

definition ring_ok :: "RingBuffer \<Rightarrow> bool" where
  "ring_ok r \<longleftrightarrow> rd r \<le> wr r \<and> wr r \<le> length (rbuf r) \<and> kGrowBytes dvd length (rbuf r)
     \<and> length (rbuf r) \<le> kMaxMsgSize * 2 \<and> \<not> failed r \<and> \<not> m_valid (fastpath r)"

lemma m_valid_consts [simp]: "\<not> m_valid no_message" "\<not> m_valid FramingError"
  by (simp_all add: m_valid_def no_message_def FramingError_def)

lemma ring_ok_init: "ring_ok RingBufferMessageReader" "window RingBufferMessageReader = []"
  by (simp_all add: ring_ok_def window_def RingBufferMessageReader_def kGrowBytes_def kMaxMsgSize_def)

lemma length_window: "ring_ok r \<Longrightarrow> length (window r) = wr r - rd r"
  by (auto simp: ring_ok_def window_def)

lemma dvd_gap:
  fixes g n m :: nat
  assumes "g dvd n" "g dvd m" "n < m"
  shows "n + g \<le> m"
proof -
  obtain k l where "n = g * k" "m = g * l" using assms(1,2) by (auto elim!: dvdE)
  then have "Suc k \<le> l" using assms(3) by (metis Suc_leI mult_less_cancel1)
  then have "g * Suc k \<le> g * l" by (rule mult_le_mono2)
  then show ?thesis using \<open>n = g * k\<close> \<open>m = g * l\<close> by simp
qed

lemma grow_size_spec:
  assumes "kGrowBytes dvd n" and "w \<le> n" and "w + d \<le> kMaxMsgSize * 2" and "n \<le> kMaxMsgSize * 2"
  shows "w + d \<le> grow_size d w n \<and> n \<le> grow_size d w n
    \<and> grow_size d w n \<le> kMaxMsgSize * 2 \<and> kGrowBytes dvd grow_size d w n"
  using assms
proof (induction d w n rule: grow_size.induct)
  case (1 d w n)
  show ?case
  proof (cases "n - w < d")
    case True
    have "kGrowBytes dvd kMaxMsgSize * 2" by (simp add: kGrowBytes_def kMaxMsgSize_def)
    then have "n + kGrowBytes \<le> kMaxMsgSize * 2"
      using True 1 by (intro dvd_gap) auto
    then show ?thesis
      using 1(1)[OF True] 1 True by (simp add: grow_size.simps[of d w n] dvd_add)
  next
    case False
    then show ?thesis using 1 by (simp add: grow_size.simps[of d w n])
  qed
qed

lemma recompact_props:
  assumes "ring_ok r"
  shows "ring_ok (recompact r)" "window (recompact r) = window r" "rd (recompact r) = 0"
    "wr (recompact r) = wr r - rd r" "length (rbuf (recompact r)) = length (rbuf r)"
  using assms by (auto simp: recompact_def Let_def ring_ok_def window_def)

lemma append_data_props:
  assumes "ring_ok r" "wr r + length data \<le> length (rbuf r)"
  shows "ring_ok (append_data r data)" "window (append_data r data) = window r @ data"
  using assms by (auto simp: append_data_def ring_ok_def window_def drop_take)

lemma reset_props:
  assumes "ring_ok r"
  defines "r' \<equiv> if rd r = wr r then r\<lparr>rd := 0, wr := 0\<rparr> else r"
  shows "ring_ok r'" "window r' = window r" "rd r' = wr r' \<longleftrightarrow> window r = []"
  using assms by (auto simp: ring_ok_def window_def)

lemma expand_props:
  assumes "ring_ok r" "kGrowBytes dvd n" "length (rbuf r) \<le> n" "n \<le> kMaxMsgSize * 2"
  defines "r' \<equiv> r\<lparr>rbuf := rbuf r @ replicate (n - length (rbuf r)) 0\<rparr>"
  shows "ring_ok r'" "window r' = window r" "length (rbuf r') = n" "wr r' = wr r"
  using assms by (auto simp: ring_ok_def window_def)

text \<open>Unless the fast path takes the data as it stands, \<^const>\<open>Append\<close> puts it behind the
  unread bytes.\<close>

lemma Append_spec:
  assumes ok: "ring_ok r" and fit: "length (window r) + length data \<le> kMaxMsgSize * 2"
  obtains (fast) r' where "Append try_read r data = Some (r'\<lparr>fastpath := try_read data, fast_mem := data\<rparr>)"
      "ring_ok r'" "window r' = []" "window r = []" "m_valid (try_read data)" "m_end (try_read data) = length data"
  | (slow) r' where "Append try_read r data = Some r'" "ring_ok r'" "window r' = window r @ data"
proof -
  define r0 where "r0 = (if rd r = wr r then r\<lparr>rd := 0, wr := 0\<rparr> else r)"
  note r0 = reset_props[OF ok, folded r0_def]
  note rc = recompact_props[OF r0(1)]
  have len: "length (window r) = wr r0 - rd r0" "rd r0 \<le> wr r0" "wr r0 \<le> length (rbuf r0)"
    using length_window[OF r0(1)] r0 by (auto simp: ring_ok_def)
  define n where "n = grow_size (length data) (wr (recompact r0)) (length (rbuf (recompact r0)))"
  have n: "wr (recompact r0) + length data \<le> n" "length (rbuf (recompact r0)) \<le> n"
      "n \<le> kMaxMsgSize * 2" "kGrowBytes dvd n"
    using grow_size_spec[of "length (rbuf (recompact r0))" "wr (recompact r0)" "length data"] rc(1) rc(4) len fit
    by (auto simp: ring_ok_def n_def)
  note ex = expand_props[OF rc(1) n(4,2,3)]
  have unf: "Append try_read r data = (if rd r0 = wr r0 \<and> m_valid (try_read data) \<and> m_end (try_read data) = length data
      then Some (r0\<lparr>fastpath := try_read data, fast_mem := data\<rparr>)
      else if length (rbuf r0) - wr r0 < length data then
        if length (rbuf r0) - wr r0 + rd r0 < length data
        then Some (append_data ((recompact r0)\<lparr>rbuf := rbuf (recompact r0) @ replicate (n - length (rbuf (recompact r0))) 0\<rparr>) data)
        else Some (append_data (recompact r0) data)
      else Some (append_data r0 data))"
    using ok r0(1) n(3) by (simp add: Append_def Let_def r0_def[symmetric] n_def[symmetric] ring_ok_def)
  show thesis
  proof (cases "rd r0 = wr r0 \<and> m_valid (try_read data) \<and> m_end (try_read data) = length data")
    case True
    then show thesis using fast[of r0] unf r0 by simp
  next
    case F: False
    show thesis
    proof (cases "length (rbuf r0) - wr r0 < length data")
      case False
      then show thesis using slow[of "append_data r0 data"] unf F append_data_props[OF r0(1)] r0 len by auto
    next
      case T: True
      show thesis
      proof (cases "length (rbuf r0) - wr r0 + rd r0 < length data")
        case True
        then show thesis
          using slow unf F T append_data_props[OF ex(1), of data] ex rc r0 n by auto
      next
        case False
        then show thesis
          using slow[of "append_data (recompact r0) data"] unf F T append_data_props[OF rc(1), of data] rc r0 len by auto
      qed
    qed
  qed
qed

lemma payload_of_append:
  "m_end msg \<le> length bs \<Longrightarrow> payload_of (bs @ cs) msg = payload_of bs msg"
  by (simp add: payload_of_def m_end_def)

lemma ReadMessage_empty: "ring_ok r \<Longrightarrow> window r = [] \<Longrightarrow> ReadMessage try_read r = Some (no_message, [], r)"
  using length_window[of r] by (simp add: ReadMessage_def ring_ok_def)

text \<open>Each piece fits in the largest buffer together with the bytes still unparsed before it.\<close>

fun fits :: "(bytes \<Rightarrow> Message) \<Rightarrow> bytes \<Rightarrow> bytes list \<Rightarrow> bool" where
  "fits try_read pend [] = True"
| "fits try_read pend (c # cs) =
     (length pend + length c \<le> kMaxMsgSize * 2
      \<and> (case parse_stream try_read (pend @ c) of (_, rest, err) \<Rightarrow> err \<or> fits try_read rest cs))"

lemma parse_stream_rest_length: "length (fst (snd (parse_stream try_read bs))) \<le> length bs"
proof (induction try_read bs rule: parse_stream.induct)
  case (1 try_read bs)
  then show ?case
    by (subst parse_stream.simps) (fastforce simp: Let_def split: prod.splits)
qed

lemma fits_small: "length pend + length (concat cs) \<le> kMaxMsgSize * 2 \<Longrightarrow> fits try_read pend cs"
proof (induction cs arbitrary: pend)
  case (Cons c cs)
  then show ?case
    using parse_stream_rest_length[of try_read "pend @ c"] by (auto split: prod.splits)
qed simp

lemma feed_failed: "failed r \<Longrightarrow> feed try_read r cs = Some ([], r)"
  by (induction cs) (simp_all add: Append_def drain.simps[of _ r] ReadMessage_def)

context message_framing
begin

lemma parse_stream_msg:
  "m_valid (try_read bs) \<Longrightarrow> parse_stream try_read bs =
     (case parse_stream try_read (drop (m_end (try_read bs)) bs) of (msgs, rest, err) \<Rightarrow>
        ((m_field_id (try_read bs), payload_of bs (try_read bs)) # msgs, rest, err))"
  using try_read_bounds[of bs] by (subst parse_stream.simps) (simp add: Let_def)

lemma parse_stream_no_msg:
  "\<not> m_valid (try_read bs) \<Longrightarrow> parse_stream try_read bs = ([], bs, fatal_framing_error (try_read bs))"
  by (subst parse_stream.simps) (simp add: Let_def)

lemma parse_stream_Nil: "parse_stream try_read [] = ([], [], False)"
  using parse_stream_no_msg[of "[]"] by (simp add: try_read_Nil no_message_def m_valid_def)

lemma parse_stream_induct [case_names msg no_msg]:
  assumes "\<And>bs. m_valid (try_read bs) \<Longrightarrow> P (drop (m_end (try_read bs)) bs) \<Longrightarrow> P bs"
    and "\<And>bs. \<not> m_valid (try_read bs) \<Longrightarrow> P bs"
  shows "P bs"
proof (induction bs rule: length_induct)
  case (1 bs)
  then show ?case
    using assms try_read_bounds[of bs] by (cases "m_valid (try_read bs)") auto
qed

text \<open>Parsing a longer stream continues where the parse of the shorter one stopped.\<close>

lemma parse_stream_append:
  "parse_stream try_read bs = (msgs, rest, err) \<Longrightarrow> parse_stream try_read (bs @ cs) =
     (if err then (msgs, rest @ cs, True)
      else case parse_stream try_read (rest @ cs) of (msgs', rest', err') \<Rightarrow> (msgs @ msgs', rest', err'))"
proof (induction bs arbitrary: msgs rest err rule: parse_stream_induct)
  case (msg bs)
  obtain ms rs e where tl: "parse_stream try_read (drop (m_end (try_read bs)) bs) = (ms, rs, e)"
    by (cases "parse_stream try_read (drop (m_end (try_read bs)) bs)") auto
  have st: "try_read (bs @ cs) = try_read bs" "m_end (try_read bs) \<le> length bs"
    using msg(1) try_read_stable try_read_bounds by auto
  show ?case
    using msg(3) msg(1) tl msg(2)[OF tl] st
    by (auto simp: parse_stream_msg payload_of_append split: prod.splits if_splits)
next
  case (no_msg bs)
  then show ?case
    using try_read_stable[of bs cs] by (auto simp: parse_stream_no_msg)
qed

lemma parse_stream_rest: "parse_stream try_read bs = (msgs, rest, err) \<Longrightarrow> parse_stream try_read rest = ([], rest, err)"
proof (induction bs arbitrary: msgs rest err rule: parse_stream_induct)
  case (msg bs)
  then show ?case by (auto simp: parse_stream_msg[of bs] split: prod.splits)
next
  case (no_msg bs)
  then show ?case by (auto simp: parse_stream_no_msg)
qed

lemma ReadMessage_msg:
  assumes "ring_ok r" "m_valid (try_read (window r))"
  defines "r' \<equiv> r\<lparr>rd := rd r + m_end (try_read (window r))\<rparr>"
  shows "ReadMessage try_read r = Some (try_read (window r), payload_of (window r) (try_read (window r)), r')"
    "ring_ok r'" "window r' = drop (m_end (try_read (window r))) (window r)"
proof -
  have b: "0 < m_end (try_read (window r))" "m_end (try_read (window r)) \<le> wr r - rd r"
    using try_read_bounds[OF assms(2)] length_window[OF assms(1)] by auto
  then have "\<not> wr r \<le> rd r" by linarith
  with b show "ReadMessage try_read r = Some (try_read (window r), payload_of (window r) (try_read (window r)), r')"
    using assms unfolding ReadMessage_def by (simp add: Let_def ring_ok_def flip: window_def)
  show "ring_ok r'" using assms(1) b by (simp add: ring_ok_def r'_def)
  show "window r' = drop (m_end (try_read (window r))) (window r)"
    using b by (simp add: window_def r'_def drop_take add.commute)
qed

lemma ReadMessage_no_msg:
  assumes "ring_ok r" "\<not> m_valid (try_read (window r))"
  shows "ReadMessage try_read r = Some (if window r = [] then no_message else try_read (window r), [],
           r\<lparr>failed := fatal_framing_error (try_read (window r))\<rparr>)"
proof (cases "window r = []")
  case True
  moreover have "r = r\<lparr>failed := False\<rparr>" using assms(1) by (cases r) (simp add: ring_ok_def)
  ultimately show ?thesis
    using ReadMessage_empty[OF assms(1), of try_read] by (simp add: try_read_Nil no_message_def)
next
  case False
  then have "rd r < wr r" using length_window[OF assms(1)] by (metis length_greater_0_conv zero_less_diff)
  then show ?thesis
    using assms False unfolding ReadMessage_def by (simp add: Let_def ring_ok_def flip: window_def)
qed

lemma drain_spec:
  assumes "ring_ok r" "parse_stream try_read (window r) = (msgs, rest, err)"
  shows "\<exists>r'. drain try_read r = Some (msgs, r') \<and> (if err then failed r' else ring_ok r' \<and> window r' = rest)"
  using assms
proof (induction "window r" arbitrary: r msgs rest err rule: parse_stream_induct)
  case msg
  note rm = ReadMessage_msg[OF msg(3,1)]
  obtain ms where ms: "parse_stream try_read (drop (m_end (try_read (window r))) (window r)) = (ms, rest, err)"
    "msgs = (m_field_id (try_read (window r)), payload_of (window r) (try_read (window r))) # ms"
    using msg(1,4) by (auto simp: parse_stream_msg split: prod.splits)
  show ?case
    using msg(2)[OF rm(3)[symmetric] rm(2)] ms rm msg(1)
    by (subst drain.simps) auto
next
  case no_msg
  then show ?case
    by (subst drain.simps)
      (auto simp: ReadMessage_no_msg parse_stream_no_msg ring_ok_def window_def)
qed

lemma drain_fast:
  assumes "ring_ok r" "window r = []" "m_valid (try_read c)" "m_end (try_read c) = length c"
  shows "\<exists>r'. drain try_read (r\<lparr>fastpath := try_read c, fast_mem := c\<rparr>) =
      Some ([(m_field_id (try_read c), payload_of c (try_read c))], r') \<and> ring_ok r' \<and> window r' = []"
    "parse_stream try_read c = ([(m_field_id (try_read c), payload_of c (try_read c))], [], False)"
proof -
  define r1 where "r1 = r\<lparr>fastpath := no_message, fast_mem := c\<rparr>"
  have r1: "ring_ok r1" "window r1 = []" using assms(1,2) by (auto simp: r1_def ring_ok_def window_def)
  have "ReadMessage try_read (r\<lparr>fastpath := try_read c, fast_mem := c\<rparr>)
      = Some (try_read c, payload_of c (try_read c), r1)"
    using assms length_window[OF assms(1)] by (simp add: ReadMessage_def ring_ok_def r1_def)
  moreover have "drain try_read r1 = Some ([], r1)"
    using ReadMessage_empty[OF r1, of try_read] by (subst drain.simps) simp
  ultimately show "\<exists>r'. drain try_read (r\<lparr>fastpath := try_read c, fast_mem := c\<rparr>) =
      Some ([(m_field_id (try_read c), payload_of c (try_read c))], r') \<and> ring_ok r' \<and> window r' = []"
    using r1 assms(3) by (subst drain.simps) simp
  show "parse_stream try_read c = ([(m_field_id (try_read c), payload_of c (try_read c))], [], False)"
    using assms by (simp add: parse_stream_msg parse_stream_Nil)
qed

text \<open>One \<^verbatim>\<open>Append\<close> and the reads after it parse the unread bytes extended by the data.\<close>

lemma append_drain:
  assumes "ring_ok r" "length (window r) + length c \<le> kMaxMsgSize * 2"
    and "parse_stream try_read (window r @ c) = (msgs, rest, err)"
  shows "\<exists>r1 r2. Append try_read r c = Some r1 \<and> drain try_read r1 = Some (msgs, r2)
      \<and> (if err then failed r2 else ring_ok r2 \<and> window r2 = rest)"
  using assms(1,2)
proof (cases rule: Append_spec[where try_read = try_read])
  case (fast r')
  then show ?thesis using drain_fast[OF fast(2,3,5,6)] assms(3) by auto
next
  case (slow r')
  then show ?thesis using drain_spec[of r'] assms(3) by auto
qed

lemma feed_spec:
  assumes "ring_ok r" "parse_stream try_read (window r) = ([], window r, False)"
    and "fits try_read (window r) cs" "parse_stream try_read (window r @ concat cs) = (msgs, rest, err)"
  shows "\<exists>r'. feed try_read r cs = Some (msgs, r') \<and> (if err then failed r' else ring_ok r' \<and> window r' = rest)"
  using assms
proof (induction cs arbitrary: r msgs)
  case (Cons c cs)
  obtain ms1 rest1 e1 where p: "parse_stream try_read (window r @ c) = (ms1, rest1, e1)"
    by (cases "parse_stream try_read (window r @ c)") auto
  obtain r1 r2 where ad: "Append try_read r c = Some r1" "drain try_read r1 = Some (ms1, r2)"
      "if e1 then failed r2 else ring_ok r2 \<and> window r2 = rest1"
    using append_drain[OF Cons(2) _ p] Cons(4) by auto
  note pa = parse_stream_append[OF p, of "concat cs"]
  show ?case
  proof (cases e1)
    case True
    then show ?thesis using ad pa Cons(5) feed_failed[of r2 try_read cs] by auto
  next
    case False
    then have r2: "ring_ok r2" "window r2 = rest1" using ad(3) by auto
    obtain ms2 where ms2: "parse_stream try_read (window r2 @ concat cs) = (ms2, rest, err)" "msgs = ms1 @ ms2"
      using pa Cons(5) False r2 by (auto split: prod.splits)
    show ?thesis
      using Cons(1)[OF r2(1) _ _ ms2(1)] parse_stream_rest[OF p] Cons(4) p False r2 ad ms2 by auto
  qed
qed auto

end

subsection \<open>The protobuf framing keeps the contract\<close>

lemma TryReadProtoMessage_stable:
  assumes "m_valid (TryReadProtoMessage bs) \<or> fatal_framing_error (TryReadProtoMessage bs)"
  shows "TryReadProtoMessage (bs @ cs) = TryReadProtoMessage bs"
proof -
  obtain tag n where p: "ParseVarInt bs = (tag, n)" by (cases "ParseVarInt bs") auto
  obtain len k where q: "ParseVarInt (drop n bs) = (len, k)" by (cases "ParseVarInt (drop n bs)") auto
  have n: "n \<noteq> 0"
    using assms p by (intro notI) (simp add: TryReadProtoMessage_def m_valid_def no_message_def)
  then have pa: "ParseVarInt (bs @ cs) = (tag, n)" "n \<le> length bs"
    using p ParseVarInt_append ParseVarInt_bounds by auto
  show ?thesis
  proof (cases "k = 0")
    case True
    then show ?thesis
      using assms p q pa n by (auto simp: TryReadProtoMessage_def no_message_def m_valid_def)
  next
    case False
    then have "ParseVarInt (drop n (bs @ cs)) = (len, k)"
      using ParseVarInt_append[OF q] pa(2) by simp
    then show ?thesis
      using assms p q pa n by (auto simp: TryReadProtoMessage_def no_message_def m_valid_def Let_def)
  qed
qed

lemma TryReadProtoMessage_bounds:
  assumes "m_valid (TryReadProtoMessage bs)"
  shows "0 < m_end (TryReadProtoMessage bs) \<and> m_end (TryReadProtoMessage bs) \<le> length bs"
proof -
  have u: "unat (ucast x :: u32) \<le> unat x" for x :: u64
    by (simp add: unat_ucast_trunc take_bit_nat_less_eq_self)
  obtain tag n where p: "ParseVarInt bs = (tag, n)" by (cases "ParseVarInt bs") auto
  obtain len k where q: "ParseVarInt (drop n bs) = (len, k)" by (cases "ParseVarInt (drop n bs)") auto
  show ?thesis
    using assms p q u[of len]
    by (auto simp: TryReadProtoMessage_def m_valid_def m_end_def Let_def no_message_def FramingError_def split: if_splits)
qed

interpretation prb: message_framing TryReadProtoMessage
proof
  show "TryReadProtoMessage [] = no_message" by (simp add: TryReadProtoMessage_def)
  show "fatal_framing_error (TryReadProtoMessage bs) \<Longrightarrow> \<not> m_valid (TryReadProtoMessage bs)" for bs
    by (auto simp: TryReadProtoMessage_def no_message_def Let_def split: prod.splits if_splits)
qed (fact TryReadProtoMessage_bounds TryReadProtoMessage_stable)+

text \<open>A message as a \<^verbatim>\<open>ProtoRingBuffer\<close> peer frames it: a length-delimited root field.\<close>

definition frame :: "u32 \<times> bytes \<Rightarrow> bytes" where
  "frame = (\<lambda>(field_id, payload). WriteVarInt (MakeTagLengthDelimited field_id)
      @ WriteVarInt (of_nat (length payload) :: u64) @ payload)"

definition frameable :: "u32 \<times> bytes \<Rightarrow> bool" where
  "frameable = (\<lambda>(field_id, payload). unat field_id < 2 ^ 29 \<and> length payload \<le> kMaxMsgSize)"

lemma TryReadProtoMessage_frame:
  fixes rest :: bytes
  assumes "frameable (fid, p)"
  defines "msg \<equiv> TryReadProtoMessage (frame (fid, p) @ rest)"
  shows "m_valid msg" "m_end msg = length (frame (fid, p))" "m_field_id msg = fid"
    "payload_of (frame (fid, p) @ rest) msg = p"
proof -
  have l: "unat (of_nat (length p) :: u64) = length p"
    using assms(1) by (intro unat_of_nat_less) (simp add: frameable_def kMaxMsgSize_def)
  then have l2: "unat (ucast (of_nat (length p) :: u64) :: u32) = length p"
    using assms(1) by (simp add: unat_ucast_trunc frameable_def kMaxMsgSize_def take_bit_nat_eq_self)
  have "msg = \<lparr>m_start = Some (length (WriteVarInt (MakeTagLengthDelimited fid)) + length (WriteVarInt (of_nat (length p) :: u64))),
      m_len = ucast (of_nat (length p) :: u64), m_field_id = fid, fatal_framing_error = False\<rparr>"
    using assms(1) l
    by (simp add: msg_def TryReadProtoMessage_def frame_def frameable_def ParseVarInt_WriteVarInt_u32
        ParseVarInt_WriteVarInt tag_wire_type tag_field_id MakeTag_eq Let_def)
  then show "m_valid msg" "m_end msg = length (frame (fid, p))" "m_field_id msg = fid"
    "payload_of (frame (fid, p) @ rest) msg = p"
    by (simp_all add: m_valid_def m_end_def frame_def payload_of_def l2 del: of_nat_id)
qed

lemma parse_stream_frames:
  assumes "list_all frameable msgs"
  shows "parse_stream TryReadProtoMessage (concat (map frame msgs)) = (msgs, [], False)"
  using assms
proof (induction msgs)
  case Nil
  then show ?case by (simp add: prb.parse_stream_Nil)
next
  case (Cons m msgs)
  then show ?case
    using TryReadProtoMessage_frame[of "fst m" "snd m" "concat (map frame msgs)"]
    by (auto simp: prb.parse_stream_msg)
qed

text \<open>A preamble of ten continuation bytes can never become valid, but the reader keeps waiting for
  more data instead of reporting a framing error.\<close>

lemma malformed_preamble_not_reported:
  "TryReadProtoMessage ([0xFF, 0xFF, 0xFF, 0xFF, 0xFF, 0xFF, 0xFF, 0xFF, 0xFF, 0xFF] @ rest) = no_message"
  by (cases rest) (simp_all add: TryReadProtoMessage_def ParseVarInt_def)

subsection \<open>Correctness of the reader\<close>





end
