(* ===== verification/Proto_Decoder.thy ===== *)
theory Proto_Decoder
  imports Proto_Utils
begin

text \<open>
  The protobuf decoders: \<^verbatim>\<open>Field\<close> (\<^verbatim>\<open>include/dejaview/protozero/field.h\<close>,
  \<^verbatim>\<open>src/protozero/field.cc\<close>), \<^verbatim>\<open>ProtoDecoder\<close> and \<^verbatim>\<open>TypedProtoDecoderBase\<close>
  (\<^verbatim>\<open>proto_decoder.h\<close>, \<^verbatim>\<open>proto_decoder.cc\<close>). The buffer \<^verbatim>\<open>[begin_, end_)\<close> of a decoder is a
  byte list, a pointer into it is an offset from \<^verbatim>\<open>begin_\<close>; the address a
  length-delimited field keeps in \<^verbatim>\<open>int_value_\<close> is such an offset.
\<close>

subsection \<open>Fields\<close>

record Field =
  f_int_value :: u64
  f_size :: u32
  f_id :: u32
  f_type :: u8

definition null_field :: Field where
  "null_field = \<lparr>f_int_value = 0, f_size = 0, f_id = 0, f_type = 0\<rparr>"

definition valid :: "Field \<Rightarrow> bool" where
  "valid f \<longleftrightarrow> f_id f \<noteq> 0"

definition kMaxId :: nat where "kMaxId = 2 ^ 24 - 1"

definition initialize :: "u32 \<Rightarrow> u8 \<Rightarrow> u64 \<Rightarrow> u32 \<Rightarrow> Field" where
  "initialize fid ty int_value sz =
     \<lparr>f_int_value = int_value, f_size = sz, f_id = fid AND of_nat kMaxId, f_type = ty\<rparr>"

definition as_uint32 :: "Field \<Rightarrow> u32" where "as_uint32 f = ucast (f_int_value f)"
definition as_sint32 :: "Field \<Rightarrow> u32" where "as_sint32 f = ZigZagDecode (ucast (f_int_value f))"
definition as_sint64 :: "Field \<Rightarrow> u64" where "as_sint64 f = ZigZagDecode (f_int_value f)"
definition as_bool :: "Field \<Rightarrow> bool" where "as_bool f \<longleftrightarrow> f_int_value f \<noteq> 0"

text \<open>The bytes a length-delimited field points to, in the buffer it was decoded from.\<close>

definition as_bytes :: "bytes \<Rightarrow> Field \<Rightarrow> bytes" where
  "as_bytes mem f = take (unat (f_size f)) (drop (unat (f_int_value f)) mem)"

text \<open>\<^verbatim>\<open>Field::SerializeAndAppendTo\<close>: the bytes appended, or \<^const>\<open>None\<close> for the
  \<^verbatim>\<open>DEJAVIEW_FATAL\<close> on an unknown type.\<close>

definition SerializeAndAppendTo :: "bytes \<Rightarrow> Field \<Rightarrow> bytes option" where
  "SerializeAndAppendTo mem f =
     (if f_type f = 0 then
        Some (WriteVarInt (MakeTagVarInt (f_id f)) @ WriteVarInt (f_int_value f))
      else if f_type f = 5 then
        Some (WriteVarInt (MakeTagFixed 4 (f_id f)) @ le_bytes 4 (ucast (f_int_value f) :: u32))
      else if f_type f = 1 then
        Some (WriteVarInt (MakeTagFixed 8 (f_id f)) @ le_bytes 8 (f_int_value f))
      else if f_type f = 2 then
        Some (WriteVarInt (MakeTagLengthDelimited (f_id f)) @ WriteVarInt (f_size f) @ as_bytes mem f)
      else None)"

subsection \<open>Parsing one field\<close>

datatype ParseResult = kAbort | kSkip | kOk

record ParseFieldResult =
  parse_res :: ParseResult
  "next" :: nat
  field :: Field

text \<open>The \<^verbatim>\<open>switch (field_type)\<close>: \<^const>\<open>None\<close> for the early returns, otherwise
  \<^verbatim>\<open>new_pos\<close>, \<^verbatim>\<open>int_value\<close> and \<^verbatim>\<open>size\<close>.\<close>

definition ParseFieldPayload :: "bytes \<Rightarrow> nat \<Rightarrow> u8 \<Rightarrow> (nat \<times> u64 \<times> u64) option" where
  "ParseFieldPayload buf pos field_type =
     (if field_type = 0 then
        (case ParseVarInt (drop pos buf) of (int_value, n) \<Rightarrow>
           if n = 0 then None else Some (pos + n, int_value, 0))
      else if field_type = 2 then
        (case ParseVarInt (drop pos buf) of (payload_length, n) \<Rightarrow>
           if n = 0 then None
           else let new_pos = pos + n in
             if length buf - new_pos < unat payload_length then None
             else Some (new_pos + unat payload_length, of_nat new_pos, payload_length))
      else if field_type = 1 then
        (if length buf < pos + 8 then None
         else Some (pos + 8, le_word (take 8 (drop pos buf)), 0))
      else if field_type = 5 then
        (if length buf < pos + 4 then None
         else Some (pos + 4, le_word (take 4 (drop pos buf)), 0))
      else None)"

definition ParseOneField :: "bytes \<Rightarrow> nat \<Rightarrow> ParseFieldResult" where
  "ParseOneField buf buffer =
     (let abort = \<lparr>parse_res = kAbort, next = buffer, field = null_field\<rparr> in
      if length buf \<le> buffer then abort
      else
        let (preamble, pos) =
              (if buf ! buffer < 0x80 then (ucast (buf ! buffer), buffer + 1)
               else case ParseVarInt (drop buffer buf) of (v, n) \<Rightarrow> (v, buffer + n))
        in if pos = buffer then abort
        else
          let field_id = ucast (drop_bit 3 preamble) :: u32 in
          if field_id = 0 \<or> length buf \<le> pos then abort
          else
            let field_type = ucast (preamble AND 0x7) :: u8 in
            case ParseFieldPayload buf pos field_type of
              None \<Rightarrow> abort
            | Some (new_pos, int_value, sz) \<Rightarrow>
                if kMaxId < unat field_id then
                  \<lparr>parse_res = kSkip, next = new_pos, field = null_field\<rparr>
                else if kMaxMessageLength < unat sz then
                  \<lparr>parse_res = kSkip, next = new_pos, field = null_field\<rparr>
                else
                  \<lparr>parse_res = kOk, next = new_pos,
                   field = initialize field_id field_type int_value (ucast sz)\<rparr>)"

lemma ParseVarInt_one_byte: "b < 0x80 \<Longrightarrow> ParseVarInt (b # bs) = (ucast b, 1)"
proof -
  assume b: "b < 0x80"
  then have "unat b < 2 ^ 7" by (simp add: word_less_nat_alt)
  from bit_imp_less_exp[OF this] have lt: "n < 7" if "bit b n" for n using that .
  then have "\<not> bit b 7" by auto
  moreover have "(ucast (b AND 0x7f) :: u64) = ucast b"
    by (rule bit_word_eqI) (auto simp: bit_simps mask_bits dest: lt)
  ultimately show ?thesis by (simp add: ParseVarInt_def Let_def)
qed

text \<open>The fast path for one-byte preambles agrees with the general one.\<close>

lemma preamble_fastpath:
  "p < length buf \<Longrightarrow>
   (if buf ! p < 0x80 then (ucast (buf ! p), p + 1)
    else case ParseVarInt (drop p buf) of (v, n) \<Rightarrow> (v, p + n)) =
   (case ParseVarInt (drop p buf) of (v, n) \<Rightarrow> (v, p + n))"
  by (simp add: ParseVarInt_one_byte flip: Cons_nth_drop_Suc)

lemma ParseFieldPayload_bounds:
  assumes "ParseFieldPayload buf pos t = Some (new_pos, v, sz)" "pos < length buf"
  shows "pos < new_pos" "new_pos \<le> length buf"
    "t = 2 \<Longrightarrow> length buf < 2 ^ 64 \<Longrightarrow> pos < unat v \<and> unat v + unat sz = new_pos"
    "t \<noteq> 2 \<Longrightarrow> sz = 0"
proof -
  have bounds: "n \<le> length buf - pos" if "ParseVarInt (drop pos buf) = (x, n)" for x n
    using ParseVarInt_bounds(1)[OF that] by (cases n) auto
  show "pos < new_pos" "new_pos \<le> length buf" "t \<noteq> 2 \<Longrightarrow> sz = 0"
    using assms by (auto simp: ParseFieldPayload_def Let_def split: if_splits prod.splits dest: bounds)
  show "t = 2 \<Longrightarrow> length buf < 2 ^ 64 \<Longrightarrow> pos < unat v \<and> unat v + unat sz = new_pos"
    using assms
    by (auto simp: ParseFieldPayload_def Let_def unat_of_nat_less simp del: of_nat_add
        split: if_splits prod.splits dest: bounds)
qed

lemma ParseOneField_cases:
  obtains (abort) "ParseOneField buf p = \<lparr>parse_res = kAbort, next = p, field = null_field\<rparr>"
  | (skip) new_pos where "ParseOneField buf p = \<lparr>parse_res = kSkip, next = new_pos, field = null_field\<rparr>"
      "p < new_pos" "new_pos \<le> length buf"
  | (ok) pos t v sz new_pos fid where
      "ParseOneField buf p = \<lparr>parse_res = kOk, next = new_pos, field = initialize fid t v (ucast sz)\<rparr>"
      "p < pos" "pos < length buf" "pos < new_pos" "new_pos \<le> length buf"
      "ParseFieldPayload buf pos t = Some (new_pos, v, sz)"
      "fid \<noteq> 0" "unat fid \<le> kMaxId" "unat sz \<le> kMaxMessageLength"
proof (cases "p < length buf")
  case False
  then show ?thesis using abort by (simp add: ParseOneField_def)
next
  case True
  obtain preamble n where pre: "ParseVarInt (drop p buf) = (preamble, n)" by fastforce
  define pos where "pos = p + n"
  define fid where "fid = (ucast (drop_bit 3 preamble) :: u32)"
  define t where "t = (ucast (preamble AND 0x7) :: u8)"
  have unf: "ParseOneField buf p =
      (if pos = p \<or> fid = 0 \<or> length buf \<le> pos then \<lparr>parse_res = kAbort, next = p, field = null_field\<rparr>
       else case ParseFieldPayload buf pos t of
              None \<Rightarrow> \<lparr>parse_res = kAbort, next = p, field = null_field\<rparr>
            | Some (new_pos, int_value, sz) \<Rightarrow>
                if kMaxId < unat fid \<or> kMaxMessageLength < unat sz
                then \<lparr>parse_res = kSkip, next = new_pos, field = null_field\<rparr>
                else \<lparr>parse_res = kOk, next = new_pos, field = initialize fid t int_value (ucast sz)\<rparr>)"
    using True pre unfolding ParseOneField_def preamble_fastpath[OF True]
    by (auto simp: Let_def pos_def fid_def t_def split: option.split)
  show ?thesis
  proof (cases "pos = p \<or> fid = 0 \<or> length buf \<le> pos \<or> ParseFieldPayload buf pos t = None")
    case True
    then show ?thesis using abort unf by auto
  next
    case False
    then obtain new_pos v sz where pl: "ParseFieldPayload buf pos t = Some (new_pos, v, sz)" by auto
    have pos: "p < pos" using False pos_def by auto
    note b = ParseFieldPayload_bounds(1,2)[OF pl] 
    show ?thesis using False pl pos b unf skip ok
      by (cases "kMaxId < unat fid \<or> kMaxMessageLength < unat sz") (auto simp: not_less)
  qed
qed

lemma initialize_simps [simp]:
  "unat fid \<le> kMaxId \<Longrightarrow> f_id (initialize fid t v s) = fid"
  "f_type (initialize fid t v s) = t" "f_int_value (initialize fid t v s) = v"
  "f_size (initialize fid t v s) = s"
proof -
  have "(of_nat kMaxId :: u32) = mask 24" by (simp add: kMaxId_def mask_eq_exp_minus_1)
  moreover have "take_bit 24 fid = fid" if "unat fid \<le> kMaxId"
  proof (rule bit_word_eqI)
    fix n
    from that have "unat fid < 2 ^ 24" by (simp add: kMaxId_def)
    from bit_imp_less_exp[OF this, of n] show "bit (take_bit 24 fid) n = bit fid n"
      by (auto simp: bit_take_bit_iff)
  qed
  moreover have "f_id (initialize fid t v s) = fid AND of_nat kMaxId"
    by (simp add: initialize_def)
  ultimately show "unat fid \<le> kMaxId \<Longrightarrow> f_id (initialize fid t v s) = fid"
    by (metis take_bit_eq_mask)
qed (simp_all add: initialize_def)

lemma valid_initialize [simp]: "unat fid \<le> kMaxId \<Longrightarrow> valid (initialize fid t v s) \<longleftrightarrow> fid \<noteq> 0"
  by (simp add: valid_def)

lemma not_valid_null_field [simp]: "\<not> valid null_field" and null_field_id [simp]: "f_id null_field = 0"
  by (simp_all add: valid_def null_field_def)

lemma ParseOneField_progress:
  "parse_res (ParseOneField buf p) \<noteq> kAbort \<Longrightarrow>
   p < next (ParseOneField buf p) \<and> next (ParseOneField buf p) \<le> length buf"
  by (rule ParseOneField_cases[of buf p]) auto


lemma ParseOneField_decreases:
  "parse_res (ParseOneField buf p) \<noteq> kAbort \<Longrightarrow>
   length buf - next (ParseOneField buf p) < length buf - p"
  using ParseOneField_progress[of buf p] by linarith

subsection \<open>Round trip with Field::SerializeAndAppendTo\<close>

text \<open>A field the decoder could have produced from the buffer \<open>mem\<close>.\<close>

definition wf_field :: "bytes \<Rightarrow> Field \<Rightarrow> bool" where
  "wf_field mem f \<longleftrightarrow> valid f \<and> unat (f_id f) \<le> kMaxId \<and> f_type f \<in> {0, 1, 2, 5} \<and>
     (f_type f \<noteq> 2 \<longrightarrow> f_size f = 0) \<and>
     (f_type f = 5 \<longrightarrow> unat (f_int_value f) < 2 ^ 32) \<and>
     (f_type f = 2 \<longrightarrow> unat (f_size f) \<le> kMaxMessageLength \<and>
        unat (f_int_value f) + unat (f_size f) \<le> length mem)"

text \<open>The field as it reads when its payload ends at offset \<open>e\<close> of another buffer.\<close>

definition relocate :: "Field \<Rightarrow> nat \<Rightarrow> Field" where
  "relocate f e = (if f_type f = 2 then f\<lparr>f_int_value := of_nat (e - unat (f_size f))\<rparr> else f)"

fun wire_type_of :: "u8 \<Rightarrow> ProtoWireType" where
  "wire_type_of t = (if t = 0 then kVarInt else if t = 1 then kFixed64
     else if t = 2 then kLengthDelimited else kFixed32)"

definition payload_bytes :: "bytes \<Rightarrow> Field \<Rightarrow> bytes" where
  "payload_bytes mem f =
     (if f_type f = 0 then WriteVarInt (f_int_value f)
      else if f_type f = 5 then le_bytes 4 (ucast (f_int_value f) :: u32)
      else if f_type f = 1 then le_bytes 8 (f_int_value f)
      else WriteVarInt (f_size f) @ as_bytes mem f)"

lemma SerializeAndAppendTo_wf:
  "wf_field mem f \<Longrightarrow> SerializeAndAppendTo mem f =
     Some (WriteVarInt (DejaViewPbMakeTag (f_id f) (wire_type_of (f_type f))) @ payload_bytes mem f)"
  by (auto simp: wf_field_def SerializeAndAppendTo_def payload_bytes_def MakeTag_eq)

lemma le_word_le_bytes_full:
  "le_word (le_bytes 8 w) = (w :: u64)"
  "unat w < 2 ^ 32 \<Longrightarrow> le_word (le_bytes 4 (ucast w :: u32)) = w"
proof -
  show "le_word (le_bytes 8 w) = w"
    by (simp only: le_word_le_bytes) (simp add: take_bit_word_eq_self)
  assume "unat w < 2 ^ 32"
  from bit_imp_less_exp[OF this] have "(ucast (ucast w :: u32) :: u64) = w"
    by (intro bit_word_eqI) (auto simp: bit_unsigned_iff)
  then show "le_word (le_bytes 4 (ucast w :: u32)) = w"
    by (simp only: le_word_le_bytes) (simp add: take_bit_word_eq_self)
qed

lemma ParseFieldPayload_payload_bytes:
  assumes "wf_field mem f" "pos = length pre"
    "e = length pre + length (payload_bytes mem f)" "e < 2 ^ 64"
  shows "ParseFieldPayload (pre @ payload_bytes mem f @ rest) pos (f_type f) =
           Some (e, f_int_value (relocate f e), ucast (f_size f))"
proof -
  consider "f_type f = 0" | "f_type f = 1" | "f_type f = 5" | "f_type f = 2"
    using assms(1) by (auto simp: wf_field_def)
  then show ?thesis
  proof cases
    case 1
    with assms show ?thesis
      by (simp add: ParseFieldPayload_def payload_bytes_def ParseVarInt_WriteVarInt relocate_def wf_field_def)
  next
    case 2
    with assms show ?thesis
      by (simp add: ParseFieldPayload_def payload_bytes_def relocate_def wf_field_def le_word_le_bytes_full)
  next
    case 3
    with assms show ?thesis
      by (simp add: ParseFieldPayload_def payload_bytes_def relocate_def wf_field_def le_word_le_bytes_full)
  next
    case 4
    have len: "length (as_bytes mem f) = unat (f_size f)"
      using assms 4 by (auto simp: as_bytes_def wf_field_def)
    have u: "unat (ucast (f_size f) :: u64) = unat (f_size f)" by (rule unat_ucast_up) simp
    show ?thesis using assms 4 len
      by (simp add: ParseFieldPayload_def payload_bytes_def ParseVarInt_WriteVarInt_u32 relocate_def
          Let_def u del: of_nat_add)
  qed
qed

lemma unat_wire_code: "ucast (ucast (wire_type_code t) :: u64) = (ucast (wire_type_code t) :: u8)"
  by (cases t) simp_all

lemma ParseOneField_serialized:
  assumes wf: "wf_field mem f" and ser: "SerializeAndAppendTo mem f = Some bs"
    and small: "length pre + length bs < 2 ^ 64"
  shows "ParseOneField (pre @ bs @ rest) (length pre) =
           \<lparr>parse_res = kOk, next = length pre + length bs, field = relocate f (length pre + length bs)\<rparr>"
    and "f_type f = 2 \<Longrightarrow>
         as_bytes (pre @ bs @ rest) (relocate f (length pre + length bs)) = as_bytes mem f"
proof -
  let ?t = "wire_type_of (f_type f)" and ?e = "length pre + length bs" and ?buf = "pre @ bs @ rest"
  define tag where "tag = WriteVarInt (DejaViewPbMakeTag (f_id f) ?t)"
  have bs: "bs = tag @ payload_bytes mem f"
    using ser SerializeAndAppendTo_wf[OF wf] by (simp add: tag_def)
  have id: "unat (f_id f) \<le> kMaxId" "f_id f \<noteq> 0" using wf by (auto simp: wf_field_def valid_def)
  then have id29: "unat (f_id f) < 2 ^ 29" by (simp add: kMaxId_def)
  have pv: "ParseVarInt (drop (length pre) ?buf) = (ucast (DejaViewPbMakeTag (f_id f) ?t), length tag)"
    unfolding bs tag_def by (simp add: ParseVarInt_WriteVarInt_u32)
  have tag0: "tag \<noteq> []" by (simp add: tag_def)
  have pl0: "0 < length (payload_bytes mem f)" using wf
    by (auto simp: payload_bytes_def wf_field_def)
  have ty: "(ucast ((ucast (DejaViewPbMakeTag (f_id f) ?t) :: u64) AND 0x7) :: u8) = f_type f"
    unfolding tag_wire_type unat_wire_code using wf by (auto simp: wf_field_def)
  have pl: "ParseFieldPayload ?buf (length pre + length tag) (f_type f) =
      Some (?e, f_int_value (relocate f ?e), ucast (f_size f))"
    using ParseFieldPayload_payload_bytes[OF wf refl refl, of "pre @ tag" rest] small bs by (simp add: add.assoc)
  have u: "unat (ucast (f_size f) :: u64) = unat (f_size f)" by (rule unat_ucast_up) simp
  have init: "initialize (f_id f) (f_type f) (f_int_value (relocate f ?e)) (f_size f) = relocate f ?e"
    using id(1) by (intro Field.equality) (simp_all add: relocate_def)
  have sz: "\<not> kMaxMessageLength < unat (f_size f)" using wf by (auto simp: wf_field_def not_less)
  have lt: "length pre < length ?buf" using bs tag0 by simp
  have uc: "(ucast (ucast (f_size f) :: u64) :: u32) = f_size f"
    by (rule bit_word_eqI) (auto simp: bit_simps)
  show "ParseOneField ?buf (length pre) =
      \<lparr>parse_res = kOk, next = ?e, field = relocate f ?e\<rparr>"
    unfolding ParseOneField_def preamble_fastpath[OF lt]
    using pv lt tag0 pl0 id pl ty sz by (simp add: Let_def tag_field_id[OF id29] u uc init[unfolded bs length_append] bs)
  show "f_type f = 2 \<Longrightarrow> as_bytes ?buf (relocate f ?e) = as_bytes mem f"
  proof -
    assume t: "f_type f = 2"
    have "length (as_bytes mem f) = unat (f_size f)" using wf t by (auto simp: as_bytes_def wf_field_def)
    moreover have "bs = (tag @ WriteVarInt (f_size f)) @ as_bytes mem f"
      using bs t by (simp add: payload_bytes_def)
    moreover have "unat (of_nat (?e - unat (f_size f)) :: u64) = ?e - unat (f_size f)"
      by (rule unat_of_nat_less) (use small in simp)
    ultimately show ?thesis
      using t unfolding as_bytes_def[of ?buf] relocate_def by (simp del: of_nat_diff)
  qed
qed

subsection \<open>ProtoDecoder\<close>

text \<open>The \<^verbatim>\<open>do ... while (kSkip)\<close> loop; the result is the field and the new read cursor.\<close>

function ReadField :: "bytes \<Rightarrow> nat \<Rightarrow> Field \<times> nat" where
  "ReadField buf read_ptr =
     (let res = ParseOneField buf read_ptr in
      if parse_res res = kSkip then ReadField buf (next res) else (field res, next res))"
  by pat_completeness auto
termination
  by (relation "measure (\<lambda>(buf, p). length buf - p)") (auto intro: ParseOneField_decreases)

declare ReadField.simps [simp del]

text \<open>The loop shape all callers use: read fields until an invalid one comes.\<close>

lemma ReadField_result:
  "ReadField buf p = (f, p') \<Longrightarrow> (valid f \<longrightarrow> p < p' \<and> p' \<le> length buf) \<and> (\<not> valid f \<longrightarrow> f = null_field) \<and> p \<le> p'"
proof (induction buf p rule: ReadField.induct)
  case (1 buf p)
  show ?case
  proof (cases rule: ParseOneField_cases[of buf p])
    case abort
    with "1.prems" show ?thesis by (simp add: ReadField.simps[of buf p])
  next
    case (skip new_pos)
    with "1.prems" "1.IH"[OF refl] show ?thesis by (auto simp: ReadField.simps[of buf p])
  next
    case (ok pos t v sz new_pos fid)
    with "1.prems" show ?thesis by (auto simp: ReadField.simps[of buf p])
  qed
qed

function ReadAllFields :: "bytes \<Rightarrow> nat \<Rightarrow> Field list" where
  "ReadAllFields buf read_ptr =
     (case ReadField buf read_ptr of (f, p) \<Rightarrow> if valid f then f # ReadAllFields buf p else [])"
  by pat_completeness auto
termination
  by (relation "measure (\<lambda>(buf, p). length buf - p)") (auto dest!: ReadField_result[OF sym] simp: diff_less_mono2)

declare ReadAllFields.simps [simp del]

text \<open>\<^verbatim>\<open>FindField\<close> restarts from \<^verbatim>\<open>begin_\<close> and restores the read cursor on exit.\<close>

function FindField_loop :: "bytes \<Rightarrow> nat \<Rightarrow> u32 \<Rightarrow> Field" where
  "FindField_loop buf read_ptr fid =
     (case ReadField buf read_ptr of (f, p) \<Rightarrow>
        if valid f then (if f_id f = fid then f else FindField_loop buf p fid) else null_field)"
  by pat_completeness auto
termination
  by (relation "measure (\<lambda>(buf, p, _). length buf - p)") (auto dest!: ReadField_result[OF sym] simp: diff_less_mono2)

declare FindField_loop.simps [simp del]

definition FindField :: "bytes \<Rightarrow> nat \<Rightarrow> u32 \<Rightarrow> Field \<times> nat" where
  "FindField buf read_ptr fid =
     (let old_position = read_ptr in (FindField_loop buf 0 fid, old_position))"

lemma FindField_loop_eq:
  "FindField_loop buf p fid = (case find (\<lambda>f. f_id f = fid) (ReadAllFields buf p) of None \<Rightarrow> null_field | Some f \<Rightarrow> f)"
proof (induction buf p fid rule: FindField_loop.induct)
  case (1 buf p fid)
  show ?case
  proof (cases "ReadField buf p")
    case (Pair f p')
    with 1 show ?thesis
      by (auto simp: FindField_loop.simps[of buf p] ReadAllFields.simps[of buf p])
  qed
qed


subsection \<open>TypedProtoDecoderBase\<close>

text \<open>
  The storage is an array of \<^verbatim>\<open>capacity_\<close> fields: slots below \<^verbatim>\<open>num_fields_\<close> hold the last
  value of each known field, slots from there up to \<^verbatim>\<open>size_\<close> the earlier values of
  repeated fields. Memory that the code leaves uninitialised holds \<open>junk\<close>, an arbitrary
  parameter. The 32-bit members are numbers; the doubling of the capacity, the only
  operation on them that could overflow, wraps.
\<close>

record TypedProtoDecoder =
  fields_of :: "Field list"
  num_fields :: nat
  dec_size :: nat
  capacity :: nat

definition TypedProtoDecoderBase :: "nat \<Rightarrow> nat \<Rightarrow> TypedProtoDecoder" where
  "TypedProtoDecoderBase n cap =
     \<lparr>fields_of = replicate cap null_field, num_fields = n, dec_size = min n (cap - 1), capacity = cap\<rparr>"

text \<open>\<^const>\<open>None\<close> is the failure of the \<^verbatim>\<open>DEJAVIEW_CHECK\<close>.\<close>

definition ExpandHeapStorage :: "(nat \<Rightarrow> Field) \<Rightarrow> TypedProtoDecoder \<Rightarrow> TypedProtoDecoder option" where
  "ExpandHeapStorage junk d =
     (let min_capacity = (num_fields d + 2048) mod 2 ^ 32;
          new_capacity = max ((capacity d * 2) mod 2 ^ 32) min_capacity
      in if \<not> (dec_size d < new_capacity \<and> num_fields d < new_capacity) then None
      else
        let new_size = max (dec_size d) (num_fields d);
            new_storage = take (dec_size d) (fields_of d) @
              replicate (new_size - dec_size d) null_field @ map junk [new_size..<new_capacity]
        in Some (d\<lparr>fields_of := new_storage, capacity := new_capacity, dec_size := new_size\<rparr>))"

text \<open>The body of the loop of \<^verbatim>\<open>ParseAllFields\<close> for a field that parsed. \<open>push_repeated\<close> is
  the repeated-field case, which moves the previous value to the end of the storage.\<close>

definition push_repeated :: "TypedProtoDecoder \<Rightarrow> Field \<Rightarrow> TypedProtoDecoder" where
  "push_repeated d f =
     (let i = unat (f_id f); old = fields_of d ! i
      in d\<lparr>fields_of := ((fields_of d)[dec_size d := old])[i := f], dec_size := dec_size d + 1\<rparr>)"

definition StoreField :: "(nat \<Rightarrow> Field) \<Rightarrow> TypedProtoDecoder \<Rightarrow> Field \<Rightarrow> TypedProtoDecoder option" where
  "StoreField junk d f =
     (let field_id = unat (f_id f) in
      if num_fields d \<le> field_id then Some d
      else
        case (if dec_size d \<le> field_id \<or> capacity d \<le> dec_size d then ExpandHeapStorage junk d else Some d) of
          None \<Rightarrow> None
        | Some d1 \<Rightarrow>
            if \<not> valid (fields_of d1 ! field_id) then
              Some (d1\<lparr>fields_of := (fields_of d1)[field_id := f]\<rparr>)
            else
              case (if dec_size d1 < num_fields d1 then ExpandHeapStorage junk d1 else Some d1) of
                None \<Rightarrow> None
              | Some d2 \<Rightarrow> Some (push_repeated d2 f))"

function ParseAllFields :: "(nat \<Rightarrow> Field) \<Rightarrow> bytes \<Rightarrow> nat \<Rightarrow> TypedProtoDecoder \<Rightarrow> TypedProtoDecoder option" where
  "ParseAllFields junk buf cur d =
     (let res = ParseOneField buf cur in
      if parse_res res = kSkip then ParseAllFields junk buf (next res) d
      else if parse_res res = kAbort then Some d
      else case StoreField junk d (field res) of
             None \<Rightarrow> None
           | Some d' \<Rightarrow> ParseAllFields junk buf (next res) d')"
  by pat_completeness auto
termination
  by (relation "measure (\<lambda>(junk, buf, cur, d). length buf - cur)")
    (auto intro!: ParseOneField_decreases)

declare ParseAllFields.simps [simp del]

definition Get :: "TypedProtoDecoder \<Rightarrow> nat \<Rightarrow> Field" where
  "Get d i = (if i < num_fields d \<and> i < dec_size d then fields_of d ! i else fields_of d ! 0)"


text \<open>\<^verbatim>\<open>RepeatedFieldIterator\<close>: positions are indexes into the storage; \<open>last\<close> is the index
  of the reference \<^verbatim>\<open>Get(field_id)\<close> returns.\<close>

definition FindNextMatchingId :: "Field list \<Rightarrow> nat \<Rightarrow> nat \<Rightarrow> u32 \<Rightarrow> nat \<Rightarrow> nat" where
  "FindNextMatchingId fs end_pos last_pos fid iter =
     (case find (\<lambda>j. f_id (fs ! j) = fid) [iter..<end_pos] of
        Some j \<Rightarrow> j
      | None \<Rightarrow> if valid (fs ! last_pos) then last_pos else end_pos)"

definition iter_incr :: "Field list \<Rightarrow> nat \<Rightarrow> nat \<Rightarrow> u32 \<Rightarrow> nat \<Rightarrow> nat" where
  "iter_incr fs end_pos last_pos fid iter =
     (if iter = last_pos then end_pos else FindNextMatchingId fs end_pos last_pos fid (iter + 1))"

lemma FindNextMatchingId_cases:
  "FindNextMatchingId fs e l fid i \<in> {l, e} \<or>
   (i \<le> FindNextMatchingId fs e l fid i \<and> FindNextMatchingId fs e l fid i < e)"
  by (auto simp: FindNextMatchingId_def find_Some_iff split: option.splits)

function iter_collect :: "Field list \<Rightarrow> nat \<Rightarrow> nat \<Rightarrow> u32 \<Rightarrow> nat \<Rightarrow> Field list" where
  "iter_collect fs end_pos last_pos fid iter =
     (if iter = end_pos then []
      else fs ! iter # iter_collect fs end_pos last_pos fid (iter_incr fs end_pos last_pos fid iter))"
  by pat_completeness auto
termination
proof (relation "measure (\<lambda>(fs, e, l, fid, i). if i = e then 0 else if i = l then 1 else 2 + (e - i))", goal_cases)
  case (2 fs e l fid i)
  then show ?case using FindNextMatchingId_cases[of fs e l fid "i + 1"]
    by (auto simp: iter_incr_def)
qed simp

declare iter_collect.simps [simp del]

text \<open>All the values the loop \<^verbatim>\<open>for (auto it = GetRepeated(id); it; ++it)\<close> visits.\<close>

definition GetRepeated :: "TypedProtoDecoder \<Rightarrow> u32 \<Rightarrow> Field list" where
  "GetRepeated d fid =
     (let repeated_begin = (if num_fields d < dec_size d then num_fields d else dec_size d);
          repeated_end = dec_size d;
          i = unat fid;
          last_pos = (if i < num_fields d \<and> i < dec_size d then i else 0)
      in iter_collect (fields_of d) repeated_end last_pos fid
           (FindNextMatchingId (fields_of d) repeated_end last_pos fid repeated_begin))"

subsubsection \<open>The storage invariant\<close>

definition of_id :: "nat \<Rightarrow> Field list \<Rightarrow> Field list" where
  "of_id i fs = filter (\<lambda>f. unat (f_id f) = i) fs"

definition last_of :: "nat \<Rightarrow> Field list \<Rightarrow> Field" where
  "last_of i fs = (if of_id i fs = [] then null_field else last (of_id i fs))"

definition repeated_area :: "TypedProtoDecoder \<Rightarrow> Field list" where
  "repeated_area d = drop (num_fields d) (take (dec_size d) (fields_of d))"

text \<open>\<open>dec_inv n seen d\<close>: after the known fields \<open>seen\<close> were stored in this order.\<close>

definition dec_inv :: "nat \<Rightarrow> Field list \<Rightarrow> TypedProtoDecoder \<Rightarrow> bool" where
  "dec_inv n seen d \<longleftrightarrow>
     num_fields d = n \<and> 0 < n \<and> length (fields_of d) = capacity d \<and>
     0 < dec_size d \<and> dec_size d \<le> capacity d \<and>
     dec_size d \<le> n + length seen \<and> capacity d \<le> max (n + 2048) (2 * dec_size d) \<and>
     (\<forall>f \<in> set seen. valid f \<and> unat (f_id f) < n) \<and>
     (\<forall>i < min n (dec_size d). fields_of d ! i = last_of i seen) \<and>
     (dec_size d < n \<longrightarrow> capacity d \<le> 1024 \<and> (\<forall>f \<in> set seen. unat (f_id f) < dec_size d)) \<and>
     (\<forall>i < n. of_id i (repeated_area d) = butlast (of_id i seen))"

lemma of_id_append [simp]: "of_id i (xs @ ys) = of_id i xs @ of_id i ys"
  and of_id_Nil [simp]: "of_id i [] = []"
  and of_id_Cons: "of_id i (f # fs) = (if unat (f_id f) = i then f # of_id i fs else of_id i fs)"
  by (simp_all add: of_id_def)

lemma last_of_snoc: "last_of i (seen @ [f]) = (if unat (f_id f) = i then f else last_of i seen)"
  by (simp add: last_of_def of_id_Cons)

lemma last_of_Nil [simp]: "last_of i [] = null_field"
  by (simp add: last_of_def)

lemma dec_inv_init:
  "0 < n \<Longrightarrow> dec_inv n [] (TypedProtoDecoderBase n 100)"
  by (auto simp: dec_inv_def TypedProtoDecoderBase_def repeated_area_def)

lemma last_of_valid_iff:
  assumes "\<forall>f \<in> set seen. valid f"
  shows "valid (last_of i seen) \<longleftrightarrow> of_id i seen \<noteq> []"
proof -
  have "valid (last (of_id i seen))" if "of_id i seen \<noteq> []"
    using last_in_set[OF that] assms by (auto simp: of_id_def)
  then show ?thesis by (auto simp: last_of_def)
qed

lemma ExpandHeapStorage_inv:
  assumes inv: "dec_inv n seen d" and big: "dec_size d < n \<or> capacity d \<le> dec_size d"
    and small: "2 * (n + length seen) + 2048 < 2 ^ 32"
  obtains d' where "ExpandHeapStorage junk d = Some d'" "dec_inv n seen d'"
    "dec_size d' = max (dec_size d) n" "dec_size d' < capacity d'"
proof -
  note i = inv[unfolded dec_inv_def]
  let ?nc = "max (capacity d * 2) (n + 2048)"
  have nc: "max ((capacity d * 2) mod 2 ^ 32) ((n + 2048) mod 2 ^ 32) = ?nc"
    using i small big by auto
  have lt: "dec_size d < ?nc" "n < ?nc" using i big by auto
  define ns where "ns = max (dec_size d) n"
  define st where "st = take (dec_size d) (fields_of d) @ replicate (ns - dec_size d) null_field @
     map junk [ns..<?nc]"
  define d' where "d' = d\<lparr>fields_of := st, capacity := ?nc, dec_size := ns\<rparr>"
  have ex: "ExpandHeapStorage junk d = Some d'"
    using i lt unfolding ExpandHeapStorage_def Let_def d'_def st_def ns_def by (simp only: nc) simp
  have len: "length st = ?nc" using i lt by (auto simp: st_def ns_def)
  have nth: "st ! k = last_of k seen" if "k < n" for k
  proof (cases "k < dec_size d")
    case True
    then show ?thesis using i that by (simp add: st_def nth_append)
  next
    case False
    then have "of_id k seen = []" using i that by (auto simp: of_id_def filter_empty_conv)
    then show ?thesis using False that i by (auto simp: st_def nth_append last_of_def ns_def)
  qed
  have rep: "repeated_area d' = repeated_area d"
    using i by (auto simp: repeated_area_def d'_def st_def ns_def)
  have "?nc \<le> max (n + 2048) (2 * ns)" using i big by (auto simp: ns_def)
  then have "dec_inv n seen d'"
    using i len nth rep lt unfolding dec_inv_def by (auto simp: d'_def ns_def)
  moreover have "dec_size d' = max (dec_size d) n" "dec_size d' < capacity d'"
    using lt by (auto simp: d'_def ns_def)
  ultimately show ?thesis using that ex by blast
qed


lemma dec_inv_first:
  assumes inv: "dec_inv n seen d" and f: "valid f" "unat (f_id f) < n" "unat (f_id f) < dec_size d"
    and new: "\<not> valid (fields_of d ! unat (f_id f))"
  shows "dec_inv n (seen @ [f]) (d\<lparr>fields_of := (fields_of d)[unat (f_id f) := f]\<rparr>)"
proof -
  note i = inv[unfolded dec_inv_def]
  let ?k = "unat (f_id f)" and ?d = "d\<lparr>fields_of := (fields_of d)[unat (f_id f) := f]\<rparr>"
  have none: "of_id ?k seen = []" using i f new last_of_valid_iff[of seen ?k] by auto
  have "repeated_area ?d = repeated_area d"
    using f i by (simp add: repeated_area_def take_update_swap drop_update_cancel)
  moreover have "of_id j (repeated_area d) = butlast (of_id j (seen @ [f]))" if "j < n" for j
    using i that none by (auto simp: of_id_Cons)
  moreover have "(fields_of d)[?k := f] ! j = last_of j (seen @ [f])" if "j < n" "j < dec_size d" for j
    using i that f by (auto simp: last_of_snoc nth_list_update)
  ultimately show ?thesis using i f unfolding dec_inv_def by auto
qed

lemma dec_inv_push:
  assumes inv: "dec_inv n seen d" and f: "valid f" "unat (f_id f) < n"
    and room: "n \<le> dec_size d" "dec_size d < capacity d"
    and old: "valid (fields_of d ! unat (f_id f))"
  shows "dec_inv n (seen @ [f]) (push_repeated d f)"
proof -
  note i = inv[unfolded dec_inv_def]
  let ?k = "unat (f_id f)" and ?d = "push_repeated d f"
  have k: "fields_of d ! ?k = last_of ?k seen" using i f room by auto
  then have some: "of_id ?k seen \<noteq> []" using i old last_of_valid_iff[of seen ?k] by auto
  then have lid: "unat (f_id (last_of ?k seen)) = ?k"
    using last_in_set[OF some] by (auto simp: last_of_def of_id_def)
  have rep: "repeated_area ?d = repeated_area d @ [last_of ?k seen]"
  proof -
    let ?xs = "drop n (take (dec_size d) (fields_of d))"
    have len: "length ?xs = dec_size d - n" using i room by simp
    have "repeated_area ?d = (?xs @ [fields_of d ! dec_size d])[dec_size d - n := last_of ?k seen]"
      using f i room k
      by (simp add: repeated_area_def push_repeated_def Let_def take_update_swap drop_update_cancel
          take_Suc_conv_app_nth drop_update_swap)
    also have "\<dots> = ?xs @ [last_of ?k seen]"
      unfolding len[symmetric] by (rule list_update_length)
    finally show ?thesis using i by (simp add: repeated_area_def)
  qed
  have "of_id j (repeated_area ?d) = butlast (of_id j (seen @ [f]))" if "j < n" for j
  proof (cases "j = ?k")
    case True
    then show ?thesis using i that some lid unfolding rep
      by (simp add: of_id_Cons last_of_def append_butlast_last_id)
  next
    case False
    then show ?thesis using i that lid unfolding rep by (simp add: of_id_Cons)
  qed
  moreover have "fields_of ?d ! j = last_of j (seen @ [f])" if "j < n" for j
    using i that f room by (auto simp: last_of_snoc nth_list_update push_repeated_def Let_def)
  ultimately show ?thesis using i f room unfolding dec_inv_def
    by (auto simp: push_repeated_def Let_def)
qed

lemma maybe_ExpandHeapStorage:
  assumes inv: "dec_inv n seen d" and small: "2 * (n + length seen) + 2048 < 2 ^ 32"
    and grow: "c \<Longrightarrow> dec_size d < n \<or> capacity d \<le> dec_size d"
    and keep: "\<not> c \<Longrightarrow> dec_size d < capacity d"
  obtains d' where "(if c then ExpandHeapStorage junk d else Some d) = Some d'"
    "dec_inv n seen d'" "dec_size d' = (if c then max (dec_size d) n else dec_size d)"
    "dec_size d' < capacity d'"
proof (cases c)
  case True
  from ExpandHeapStorage_inv[OF inv grow[OF True] small] that True show ?thesis by auto
qed (use that inv keep in auto)

lemma StoreField_inv:
  assumes inv: "dec_inv n seen d" and f: "valid f"
    and small: "2 * (n + length seen) + 2048 < 2 ^ 32"
  obtains d' where "StoreField junk d f = Some d'"
    "dec_inv n (seen @ (if unat (f_id f) < n then [f] else [])) d'"
proof (cases "unat (f_id f) < n")
  case False
  then show ?thesis using that inv by (auto simp: StoreField_def dec_inv_def)
next
  case True
  let ?k = "unat (f_id f)"
  have nf: "num_fields d = n" using inv by (simp add: dec_inv_def)
  obtain d1 where d1: "(if dec_size d \<le> ?k \<or> capacity d \<le> dec_size d
      then ExpandHeapStorage junk d else Some d) = Some d1"
    "dec_inv n seen d1" "dec_size d1 = (if dec_size d \<le> ?k \<or> capacity d \<le> dec_size d
      then max (dec_size d) n else dec_size d)" "dec_size d1 < capacity d1"
    by (rule maybe_ExpandHeapStorage[OF inv small,
          of "dec_size d \<le> ?k \<or> capacity d \<le> dec_size d" junk]) (use True in auto)
  have k: "?k < dec_size d1" using d1(3) True by auto
  show ?thesis
  proof (cases "valid (fields_of d1 ! ?k)")
    case False
    then have "StoreField junk d f = Some (d1\<lparr>fields_of := (fields_of d1)[?k := f]\<rparr>)"
      using True nf unfolding StoreField_def Let_def d1(1) by simp
    with dec_inv_first[OF d1(2) f True k False] True that show ?thesis by simp
  next
    case old: True
    have nf1: "num_fields d1 = n" using d1 by (simp add: dec_inv_def)
    obtain d2 where d2: "(if dec_size d1 < n then ExpandHeapStorage junk d1 else Some d1) = Some d2"
      "dec_inv n seen d2" "dec_size d2 = (if dec_size d1 < n then max (dec_size d1) n else dec_size d1)"
      "dec_size d2 < capacity d2"
      by (rule maybe_ExpandHeapStorage[OF d1(2) small, of "dec_size d1 < n" junk]) (use d1 in auto)
    have n2: "n \<le> dec_size d2" using d2(3) by auto
    have "valid (fields_of d2 ! ?k)"
      using d2 d1 old True k n2 by (auto simp: dec_inv_def)
    from dec_inv_push[OF d2(2) f True n2 d2(4) this] have "dec_inv n (seen @ [f]) (push_repeated d2 f)" .
    moreover have "StoreField junk d f = Some (push_repeated d2 f)"
      using True nf old unfolding StoreField_def Let_def d1(1) by (simp add: nf1 d2(1))
    ultimately show ?thesis using True that by simp
  qed
qed

lemma ReadAllFields_unfold:
  "ReadAllFields buf p =
     (let res = ParseOneField buf p in
      if parse_res res = kSkip then ReadAllFields buf (next res)
      else if parse_res res = kAbort then []
      else field res # ReadAllFields buf (next res))"
proof (cases rule: ParseOneField_cases[of buf p])
  case abort
  then show ?thesis by (simp add: ReadAllFields.simps[of buf p] ReadField.simps[of buf p])
next
  case (skip q)
  then have "ReadField buf p = ReadField buf q" by (simp add: ReadField.simps[of buf p])
  with skip show ?thesis by (simp add: ReadAllFields.simps[of buf p] ReadAllFields.simps[of buf q])
next
  case (ok pos t v sz new_pos fid)
  then show ?thesis by (simp add: ReadAllFields.simps[of buf p] ReadField.simps[of buf p])
qed

lemma length_ReadAllFields: "length (ReadAllFields buf p) \<le> length buf - p"
proof (induction buf p rule: ReadAllFields.induct)
  case (1 buf p)
  show ?case
  proof (cases "ReadField buf p")
    case (Pair f q)
    with 1 ReadField_result[OF Pair] show ?thesis by (auto simp: ReadAllFields.simps[of buf p])
  qed
qed

lemma ParseAllFields_inv:
  "dec_inv n seen d \<Longrightarrow> 2 * (n + length seen + (length buf - cur)) + 2048 < 2 ^ 32 \<Longrightarrow>
   \<exists>d'. ParseAllFields junk buf cur d = Some d' \<and>
     dec_inv n (seen @ filter (\<lambda>f. unat (f_id f) < n) (ReadAllFields buf cur)) d'"
proof (induction junk buf cur d arbitrary: seen rule: ParseAllFields.induct)
  case (1 junk buf cur d)
  show ?case
  proof (cases rule: ParseOneField_cases[of buf cur])
    case abort
    then show ?thesis
      using "1.prems" by (simp add: ParseAllFields.simps[of _ buf cur] ReadAllFields_unfold[of buf cur])
  next
    case (skip q)
    then show ?thesis
      using "1.prems" "1.IH"(1)[OF refl, of seen]
      by (simp add: ParseAllFields.simps[of _ buf cur] ReadAllFields_unfold[of buf cur])
  next
    case (ok pos t v sz q fid)
    define f where "f = initialize fid t v (ucast sz)"
    have vf: "valid f" using ok by (simp add: f_def)
    let ?add = "if unat (f_id f) < n then [f] else []"
    have "2 * (n + length seen) + 2048 < 2 ^ 32" using "1.prems" by simp
    from StoreField_inv[OF "1.prems"(1) vf this, of junk] obtain d1 where
      d1: "StoreField junk d f = Some d1" "dec_inv n (seen @ ?add) d1" .
    have "2 * (n + length (seen @ ?add) + (length buf - q)) + 2048 < 2 ^ 32"
      using "1.prems" ok by auto
    with "1.IH"(2)[OF refl, of d1 "seen @ ?add"] d1 ok show ?thesis
      by (auto simp: ParseAllFields.simps[of _ buf cur] ReadAllFields_unfold[of buf cur] f_def)
  qed
qed


subsubsection \<open>What the accessors return\<close>

lemma FindNextMatchingId_unfold:
  "FindNextMatchingId fs e l fid i =
     (if i < e then (if f_id (fs ! i) = fid then i else FindNextMatchingId fs e l fid (i + 1))
      else if valid (fs ! l) then l else e)"
  by (simp add: FindNextMatchingId_def upt_conv_Cons)

lemma iter_collect_FindNext:
  assumes "l < i" "i \<le> e" "e \<le> length fs"
  shows "iter_collect fs e l fid (FindNextMatchingId fs e l fid i) =
    filter (\<lambda>f. f_id f = fid) (drop i (take e fs)) @ (if valid (fs ! l) then [fs ! l] else [])"
  using assms
proof (induction "e - i" arbitrary: i)
  case 0
  then have "i = e" by simp
  with 0 show ?case
    by (auto simp: FindNextMatchingId_unfold[of _ _ _ _ e] iter_collect.simps[of _ _ _ _ l]
        iter_collect.simps[of _ _ _ _ e] iter_incr_def)
next
  case (Suc k)
  then have i: "i < e" by simp
  then have dr: "drop i (take e fs) = fs ! i # drop (i + 1) (take e fs)"
    using Suc.prems by (simp add: Cons_nth_drop_Suc[symmetric])
  have IH: "iter_collect fs e l fid (FindNextMatchingId fs e l fid (i + 1)) =
    filter (\<lambda>f. f_id f = fid) (drop (i + 1) (take e fs)) @ (if valid (fs ! l) then [fs ! l] else [])"
    by (rule Suc.hyps(1)) (use Suc i in auto)
  show ?case
  proof (cases "f_id (fs ! i) = fid")
    case True
    then have "iter_collect fs e l fid (FindNextMatchingId fs e l fid i) =
        fs ! i # iter_collect fs e l fid (FindNextMatchingId fs e l fid (i + 1))"
      using i Suc.prems
      by (simp add: FindNextMatchingId_unfold[of _ _ _ _ i] iter_collect.simps[of _ _ _ _ i] iter_incr_def)
    with True IH dr show ?thesis by simp
  next
    case False
    with i IH dr show ?thesis by (simp add: FindNextMatchingId_unfold[of _ _ _ _ i])
  qed
qed

lemma dec_inv_slot0: "dec_inv n seen d \<Longrightarrow> fields_of d ! 0 = null_field"
  by (auto simp: dec_inv_def last_of_def of_id_def filter_empty_conv valid_def unat_eq_zero)

lemma of_id_word: "of_id (unat fid) fs = filter (\<lambda>f. f_id f = fid) fs"
  by (simp add: of_id_def word_unat_eq_iff)

lemma Get_dec_inv:
  assumes "dec_inv n seen d" "unat fid < n"
  shows "Get d (unat fid) = last_of (unat fid) seen"
proof (cases "unat fid < dec_size d")
  case True
  then show ?thesis using assms by (auto simp: Get_def dec_inv_def)
next
  case False
  then have "of_id (unat fid) seen = []" using assms by (auto simp: dec_inv_def of_id_def filter_empty_conv)
  then show ?thesis using False dec_inv_slot0[OF assms(1)] by (simp add: Get_def last_of_def)
qed

lemma GetRepeated_dec_inv:
  assumes inv: "dec_inv n seen d" and fid: "unat fid < n"
  shows "GetRepeated d fid = filter (\<lambda>f. f_id f = fid) seen"
proof -
  note i = inv[unfolded dec_inv_def]
  let ?i = "unat fid" and ?fs = "fields_of d" and ?e = "dec_size d"
  define l where "l = (if ?i < num_fields d \<and> ?i < ?e then ?i else 0)"
  define b where "b = (if num_fields d < ?e then num_fields d else ?e)"
  have lb: "l < b" "b \<le> ?e" "?e \<le> length ?fs" using i fid by (auto simp: l_def b_def)
  have area: "drop b (take ?e ?fs) = repeated_area d"
    using i by (auto simp: b_def repeated_area_def)
  have last: "?fs ! l = last_of ?i seen"
    using Get_dec_inv[OF inv fid] by (auto simp: Get_def l_def)
  have "GetRepeated d fid = filter (\<lambda>f. f_id f = fid) (repeated_area d) @
      (if valid (last_of ?i seen) then [last_of ?i seen] else [])"
    using iter_collect_FindNext[OF lb, of fid] unfolding area last GetRepeated_def Let_def
    by (simp add: l_def b_def)
  also have "filter (\<lambda>f. f_id f = fid) (repeated_area d) = butlast (of_id ?i seen)"
    using i fid by (simp flip: of_id_word)
  finally show ?thesis
    using last_of_valid_iff[of seen ?i] i
    by (cases "of_id ?i seen = []") (auto simp: last_of_def of_id_word append_butlast_last_id)
qed


subsection \<open>Packed repeated fields\<close>

text \<open>
  \<^verbatim>\<open>PackedRepeatedFieldIterator\<close>: the iterator state and its \<^verbatim>\<open>operator++\<close>. The read cursor
  never passes the end of the data, so \<^verbatim>\<open>read_ptr_ == data_end_\<close> is the test
  \<open>length data \<le> pk_read it\<close>. The cast to \<^verbatim>\<open>CppType\<close> is left to the caller.
\<close>

record PackedIter =
  pk_read :: nat
  pk_curr :: u64
  pk_valid :: bool
  pk_error :: bool

definition packed_incr :: "ProtoWireType \<Rightarrow> bytes \<Rightarrow> PackedIter \<Rightarrow> PackedIter" where
  "packed_incr wire_type data it =
     (if \<not> pk_valid it then it
      else if length data \<le> pk_read it then it\<lparr>pk_valid := False\<rparr>
      else if wire_type = kVarInt then
        (case ParseVarInt (drop (pk_read it) data) of (new_value, n) \<Rightarrow>
           if n = 0 then it\<lparr>pk_error := True, pk_valid := False\<rparr>
           else it\<lparr>pk_read := pk_read it + n, pk_curr := new_value\<rparr>)
      else
        let kStep = (if wire_type = kFixed32 then 4 else 8)
        in it\<lparr>pk_curr := le_word (take kStep (drop (pk_read it) data)), pk_read := pk_read it + kStep\<rparr>)"

definition packed_begin :: "ProtoWireType \<Rightarrow> bytes \<Rightarrow> PackedIter" where
  "packed_begin wire_type data =
     (let it = \<lparr>pk_read = 0, pk_curr = 0, pk_valid = True, pk_error = False\<rparr>; sz = length data
      in if sz = 0 then it\<lparr>pk_valid := False\<rparr>
         else if wire_type = kFixed32 \<and> sz mod 4 \<noteq> 0 \<or> wire_type = kFixed64 \<and> sz mod 8 \<noteq> 0
         then it\<lparr>pk_error := True, pk_valid := False\<rparr>
         else packed_incr wire_type data it)"

function packed_collect :: "ProtoWireType \<Rightarrow> bytes \<Rightarrow> PackedIter \<Rightarrow> u64 list \<times> bool" where
  "packed_collect wire_type data it =
     (if pk_valid it then
        (case packed_collect wire_type data (packed_incr wire_type data it) of (vs, err) \<Rightarrow>
           (pk_curr it # vs, err))
      else ([], pk_error it))"
  by pat_completeness auto
termination
  by (relation "measure (\<lambda>(w, data, it). if pk_valid it then Suc (length data - pk_read it) else 0)")
    (auto simp: packed_incr_def Let_def split: prod.splits)

declare packed_collect.simps [simp del]

lemma packed_collect_invalid: "\<not> pk_valid it \<Longrightarrow> packed_collect w data it = ([], pk_error it)"
  by (subst packed_collect.simps) simp

text \<open>The values of \<^verbatim>\<open>for (auto it = GetPackedRepeated(...); it; ++it)\<close> and the error flag.\<close>

definition packed_values :: "ProtoWireType \<Rightarrow> bytes \<Rightarrow> u64 list \<times> bool" where
  "packed_values wire_type data = packed_collect wire_type data (packed_begin wire_type data)"

lemma packed_incr_varint:
  assumes "pk_valid it" "pk_read it = length pre" "\<not> pk_error it"
  shows "packed_collect kVarInt (pre @ concat (map WriteVarInt vs))
           (packed_incr kVarInt (pre @ concat (map WriteVarInt vs)) it) = (vs, False)"
  using assms
proof (induction vs arbitrary: pre it)
  case Nil
  then show ?case by (simp add: packed_incr_def packed_collect.simps)
next
  case (Cons v vs)
  let ?data = "pre @ WriteVarInt v @ concat (map WriteVarInt vs)"
  let ?it = "it\<lparr>pk_read := length pre + length (WriteVarInt v), pk_curr := v\<rparr>"
  have "packed_incr kVarInt ?data it = ?it"
    using Cons.prems by (simp add: packed_incr_def ParseVarInt_WriteVarInt)
  moreover have "packed_collect kVarInt ?data (packed_incr kVarInt ?data ?it) = (vs, False)"
    using Cons.IH[of ?it "pre @ WriteVarInt v"] Cons.prems by simp
  ultimately show ?case using Cons.prems by (simp add: packed_collect.simps[of _ _ ?it])
qed

lemma packed_values_varint:
  "packed_values kVarInt (concat (map (WriteVarInt :: u64 \<Rightarrow> bytes) vs)) = (vs, False)"
proof (cases vs)
  case Nil
  then show ?thesis by (simp add: packed_values_def packed_begin_def packed_collect.simps)
next
  case (Cons v us)
  then show ?thesis
    using packed_incr_varint[of "\<lparr>pk_read = 0, pk_curr = 0, pk_valid = True, pk_error = False\<rparr>" "[]" vs]
    by (simp add: packed_values_def packed_begin_def Let_def)
qed

subsection \<open>Whole messages\<close>

text \<open>A message written field by field, and where each field's payload ends.\<close>

fun encode_fields :: "bytes \<Rightarrow> Field list \<Rightarrow> bytes option" where
  "encode_fields mem [] = Some []"
| "encode_fields mem (f # fs) =
     (case (SerializeAndAppendTo mem f, encode_fields mem fs) of
        (Some bs, Some rest) \<Rightarrow> Some (bs @ rest) | _ \<Rightarrow> None)"

definition same_value :: "bytes \<Rightarrow> Field \<Rightarrow> bytes \<Rightarrow> Field \<Rightarrow> bool" where
  "same_value mem f buf g \<longleftrightarrow> f_id g = f_id f \<and> f_type g = f_type f \<and> f_size g = f_size f \<and>
     (if f_type f = 2 then as_bytes buf g = as_bytes mem f else f_int_value g = f_int_value f)"

lemma encode_fields_wf: "\<forall>f \<in> set fs. wf_field mem f \<Longrightarrow> \<exists>bs. encode_fields mem fs = Some bs"
  by (induction fs) (auto simp: SerializeAndAppendTo_wf)

lemma ReadAllFields_encode:
  "\<forall>f \<in> set fs. wf_field mem f \<Longrightarrow> encode_fields mem fs = Some bs \<Longrightarrow> length pre + length bs < 2 ^ 64 \<Longrightarrow>
   list_all2 (\<lambda>f g. same_value mem f (pre @ bs) g) fs (ReadAllFields (pre @ bs) (length pre))"
proof (induction fs arbitrary: pre bs)
  case Nil
  then show ?case by (simp add: ReadAllFields_unfold ParseOneField_def)
next
  case (Cons f fs)
  then obtain b1 b2 where b: "SerializeAndAppendTo mem f = Some b1" "encode_fields mem fs = Some b2"
    "bs = b1 @ b2" by (auto split: option.splits)
  have wf: "wf_field mem f" using Cons.prems by simp
  have small: "length pre + length b1 < 2 ^ 64" using Cons.prems b by simp
  note p = ParseOneField_serialized[OF wf b(1) small, of b2]
  have "same_value mem f (pre @ bs) (relocate f (length pre + length b1))"
    using p(2) b by (auto simp: same_value_def relocate_def)
  moreover have "list_all2 (\<lambda>f g. same_value mem f (pre @ bs) g) fs (ReadAllFields (pre @ bs) (length pre + length b1))"
    using Cons.IH[of b2 "pre @ b1"] Cons.prems b by simp
  ultimately show ?case
    using p(1) b by (simp add: ReadAllFields_unfold[of "pre @ b1 @ b2" "length pre"])
qed


subsection \<open>Correctness of the decoders\<close>




text \<open>C13. \<^verbatim>\<open>TypedProtoDecoder\<close>: for a schema with \<open>n\<close> known field slots and any buffer (of less
  than about 2 GB) the constructor's \<^verbatim>\<open>ParseAllFields\<close> succeeds, no \<^verbatim>\<open>CHECK\<close> fails, and
  whatever the uninitialised heap slots hold, iterating \<^verbatim>\<open>GetRepeated(id)\<close> visits exactly the
  occurrences of the field in wire order, while \<^verbatim>\<open>Get(id)\<close> is the last of them, or an invalid
  field if there is none.\<close>

theorem typed_decoder_correct:
  assumes "0 < n" and "2 * (n + length buf) + 2048 < 2 ^ 32"
  shows "\<exists>d. ParseAllFields junk buf 0 (TypedProtoDecoderBase n 100) = Some d \<and>
    (\<forall>fid. unat fid < n \<longrightarrow>
       (let occ = filter (\<lambda>f. f_id f = fid) (ReadAllFields buf 0)
        in GetRepeated d fid = occ \<and>
           Get d (unat fid) = (if occ = [] then null_field else last occ)))"
proof -
  let ?seen = "filter (\<lambda>f. unat (f_id f) < n) (ReadAllFields buf 0)"
  obtain d where d: "ParseAllFields junk buf 0 (TypedProtoDecoderBase n 100) = Some d"
    and inv: "dec_inv n ?seen d"
    using ParseAllFields_inv[OF dec_inv_init[OF assms(1)], of buf 0 junk] assms(2) by auto
  have occ: "filter (\<lambda>f. f_id f = fid) ?seen = filter (\<lambda>f. f_id f = fid) (ReadAllFields buf 0)"
    if "unat fid < n" for fid
    using that by (auto intro!: filter_cong)
  have "Get d (unat fid) = (let occ = filter (\<lambda>f. f_id f = fid) (ReadAllFields buf 0)
      in if occ = [] then null_field else last occ)" if "unat fid < n" for fid
    unfolding Get_dec_inv[OF inv that] last_of_def of_id_word occ[OF that] Let_def ..
  with d GetRepeated_dec_inv[OF inv] occ show ?thesis by (simp add: Let_def)
qed

theorem typed_decoder_correct_witness:
  "\<exists>d. ParseAllFields (\<lambda>_. initialize 3 0 9 0) [8, 1, 16, 2, 8, 3] 0 (TypedProtoDecoderBase 4 100) = Some d \<and>
    (\<forall>fid. unat fid < 4 \<longrightarrow>
       (let occ = filter (\<lambda>f. f_id f = fid) (ReadAllFields [8, 1, 16, 2, 8, 3] 0)
        in GetRepeated d fid = occ \<and>
           Get d (unat fid) = (if occ = [] then null_field else last occ)))"
  by (rule typed_decoder_correct) simp_all

text \<open>C16. Memory safety and progress of the field parser on arbitrary bytes: when a field is
  parsed or skipped the cursor moves forward and stays inside the buffer, when parsing aborts
  the cursor does not move, and a parsed length-delimited field points to a payload that lies
  inside the bytes just consumed.\<close>

theorem ParseOneField_safe:
  assumes "length buf < 2 ^ 64" and "ParseOneField buf p = res"
  shows "(parse_res res = kAbort \<longrightarrow> next res = p) \<and>
    (parse_res res \<noteq> kAbort \<longrightarrow> p < next res \<and> next res \<le> length buf) \<and>
    (parse_res res = kOk \<longrightarrow> valid (field res) \<and>
       (f_type (field res) = 2 \<longrightarrow> p < unat (f_int_value (field res)) \<and>
          unat (f_int_value (field res)) + unat (f_size (field res)) = next res))"
proof (cases rule: ParseOneField_cases[of buf p])
  case (ok pos t v sz new_pos fid)
  have "unat sz < 2 ^ 32"
    using ok(9) by (simp add: kMaxMessageLength_def kMessageLengthFieldSize_def)
  then have "unat (ucast sz :: u32) = unat sz"
    by (simp add: unsigned_ucast_eq take_bit_nat_eq_self)
  with ok ParseFieldPayload_bounds(3)[OF ok(6) ok(3) _ assms(1)] assms(2) show ?thesis by auto
qed (use assms(2) in auto)

theorem ParseOneField_safe_witness:
  "length [18, 2, 5, 6 :: u8] < 2 ^ 64 \<and>
   (let res = ParseOneField [18, 2, 5, 6] 0 in
    (parse_res res = kAbort \<longrightarrow> next res = 0) \<and>
    (parse_res res \<noteq> kAbort \<longrightarrow> 0 < next res \<and> next res \<le> length [18, 2, 5, 6 :: u8]) \<and>
    (parse_res res = kOk \<longrightarrow> valid (field res) \<and>
       (f_type (field res) = 2 \<longrightarrow> 0 < unat (f_int_value (field res)) \<and>
          unat (f_int_value (field res)) + unat (f_size (field res)) = next res)))"
  using ParseOneField_safe[of "[18, 2, 5, 6]" 0, OF _ refl] by (simp add: Let_def)

text \<open>C17. \<^verbatim>\<open>ProtoDecoder::FindField\<close> returns the first field with the given id that a scan from
  the start of the buffer finds, an invalid field if there is none, and leaves the read cursor
  where it was.\<close>

theorem FindField_first:
  "FindField buf read_ptr fid =
     ((case filter (\<lambda>f. f_id f = fid) (ReadAllFields buf 0) of [] \<Rightarrow> null_field | f # _ \<Rightarrow> f), read_ptr)"
proof -
  have "find P xs = (case filter P xs of [] \<Rightarrow> None | x # _ \<Rightarrow> Some x)" for P and xs :: "Field list"
    by (induction xs) auto
  then show ?thesis by (simp add: FindField_def FindField_loop_eq split: list.split)
qed


end
