(* ===== verification/Base_Utils.thy ===== *)
theory Base_Utils
  imports Prelude_DV
begin

text \<open>
  Helpers of the base library: \<^verbatim>\<open>AlignUp\<close> of \<^verbatim>\<open>ext/base/utils.h\<close> and the FNV-1a hasher of
  \<^verbatim>\<open>ext/base/hash.h\<close>. The state of a \<^verbatim>\<open>Hasher\<close> is its member
  \<^verbatim>\<open>result_\<close>, a 64-bit word with wrap-around multiplication. It provides the checksum of the filter
  bytecode and the hash of the open-addressing tables.
\<close>

subsection \<open>Alignment\<close>

definition AlignUp :: "u64 \<Rightarrow> u64 \<Rightarrow> u64" where
  "AlignUp sz alignment = (sz + alignment - 1) AND NOT (alignment - 1)"

lemma AND_NOT_mask: "(x :: 'a::len word) AND NOT (mask k) = push_bit k (drop_bit k x)"
  by (rule bit_word_eqI) (auto simp: bit_simps)

lemma unat_AlignUp:
  assumes "k < 64" "unat sz + 2 ^ k \<le> 2 ^ 64"
  shows "unat (AlignUp sz (2 ^ k)) = (unat sz + (2 ^ k - 1)) div 2 ^ k * 2 ^ k"
proof -
  have "sz + 2 ^ k - 1 = of_nat (unat sz + (2 ^ k - 1))"
    by (simp add: of_nat_diff add_increasing del: diff_Suc_1 One_nat_def add_diff_assoc)
  moreover have "unat sz + (2 ^ k - 1) < 2 ^ 64" using assms by auto
  ultimately have s: "unat (sz + 2 ^ k - 1) = unat sz + (2 ^ k - 1)"
    using unat_of_nat_less[of "unat sz + (2 ^ k - 1)", where 'a = 64] by simp
  have "unat (push_bit k (drop_bit k w)) = unat w div 2 ^ k * 2 ^ k" for w :: u64
  proof -
    have "unat w div 2 ^ k * 2 ^ k < 2 ^ 64"
      using unat_less_exp[of w] by (rule_tac order.strict_trans1[of _ "unat w"]) auto
    moreover have "take_bit 64 (unat w) = unat w" using unat_less_exp[of w] by (simp add: take_bit_nat_eq_self)
    ultimately show ?thesis
      unfolding unsigned_push_bit_eq unsigned_drop_bit_eq by (simp add: push_bit_eq_mult drop_bit_eq_div take_bit_nat_eq_self)
  qed
  moreover have "AlignUp sz (2 ^ k) = push_bit k (drop_bit k (sz + 2 ^ k - 1))"
    unfolding AlignUp_def AND_NOT_mask[symmetric] mask_eq_exp_minus_1 ..
  ultimately show ?thesis by (simp only: s)
qed

subsection \<open>The hasher\<close>

definition kFnv1a64OffsetBasis :: u64 where "kFnv1a64OffsetBasis = 0xcbf29ce484222325"
definition kFnv1a64Prime :: u64 where "kFnv1a64Prime = 0x100000001b3"

definition Hasher :: u64 where "Hasher = kFnv1a64OffsetBasis"

definition Update_byte :: "u8 \<Rightarrow> u64 \<Rightarrow> u64" where
  "Update_byte b result = (result XOR ucast b) * kFnv1a64Prime"

fun Update :: "bytes \<Rightarrow> u64 \<Rightarrow> u64" where
  "Update [] result = result"
| "Update (b # bs) result = Update bs (Update_byte b result)"

text \<open>The overload for C strings, on memory that holds a terminating zero, and the one for
  numbers, which hashes the object representation.\<close>

fun Update_cstr :: "bytes \<Rightarrow> u64 \<Rightarrow> u64" where
  "Update_cstr [] result = result"
| "Update_cstr (b # bs) result = (if b = 0 then result else Update_cstr bs (Update_byte b result))"

definition Update_int :: "'a::len word \<Rightarrow> u64 \<Rightarrow> u64" where
  "Update_int v = Update (le_bytes (LENGTH('a) div 8) v)"

definition digest :: "u64 \<Rightarrow> u64" where "digest result = result"

definition Combine :: "bytes list \<Rightarrow> u64" where
  "Combine args = digest (fold Update args Hasher)"

definition Hash_int :: "'a::len word \<Rightarrow> u64" where
  "Hash_int x = digest (Update_int x Hasher)"

subsection \<open>The low half of the hash\<close>

text \<open>The low 32 bits of the state evolve on their own, and every step is injective in them.\<close>

lemma ucast_mult_down:
  assumes "LENGTH('b::len) \<le> LENGTH('a::len)"
  shows "(ucast (x * y :: 'a word) :: 'b word) = ucast x * ucast y"
proof -
  have w: "(word_of_int (take_bit LENGTH('a) k) :: 'b word) = word_of_int k" for k
    using assms by (intro bit_word_eqI) (auto simp: bit_simps)
  have "(ucast (x * y) :: 'b word) = word_of_int (take_bit LENGTH('a) (uint x * uint y))"
    unfolding take_bit_eq_mod uint_word_ariths(3)[symmetric] by simp
  then show ?thesis by (simp add: w)
qed

lemma ucast_XOR: "(ucast (x XOR y :: 'a::len word) :: 'b::len word) = ucast x XOR ucast y"
  by (rule bit_word_eqI) (auto simp: bit_simps)

lemma low_Update_byte:
  "(ucast (Update_byte b r) :: u32) = (ucast r XOR ucast b) * 0x1b3"
proof -
  have "(ucast kFnv1a64Prime :: u32) = 0x1b3" by (simp add: kFnv1a64Prime_def)
  moreover have "(ucast (ucast b :: u64) :: u32) = ucast b" by (rule bit_word_eqI) (auto simp: bit_simps)
  ultimately show ?thesis by (simp add: Update_byte_def ucast_mult_down ucast_XOR)
qed

lemma mult_prime_inj: "x * 0x1b3 = y * 0x1b3 \<Longrightarrow> x = (y :: u32)"
proof -
  assume "x * 0x1b3 = y * 0x1b3"
  then have "x * (0x1b3 * 0xaff6957b) = y * (0x1b3 * 0xaff6957b)"
    by (simp only: mult.assoc[symmetric])
  moreover have "(0x1b3 * 0xaff6957b :: u32) = 1" by simp
  ultimately show "x = y" by (simp only: mult_1_right)
qed

lemma XOR_right_cancel: "(x :: 'a::len word) XOR z = y XOR z \<longleftrightarrow> x = y"
  by (auto simp: bit_eq_iff bit_simps)

lemma XOR_left_cancel: "(z :: 'a::len word) XOR x = z XOR y \<longleftrightarrow> x = y"
  by (auto simp: bit_eq_iff bit_simps)

lemma low_Update_byte_inj:
  "(ucast (Update_byte b r) :: u32) = ucast (Update_byte b' r') \<longleftrightarrow> (ucast r XOR ucast b :: u32) = ucast r' XOR ucast b'"
  unfolding low_Update_byte using mult_prime_inj by auto

lemma low_Update_inj:
  "(ucast (Update bs r) :: u32) = ucast (Update bs r') \<longleftrightarrow> (ucast r :: u32) = ucast r'"
  by (induction bs arbitrary: r r') (auto simp: low_Update_byte_inj XOR_right_cancel)

lemma Update_append: "Update (xs @ ys) r = Update ys (Update xs r)"
  by (induction xs arbitrary: r) simp_all

lemma Update_concat: "Update (concat xss) r = fold Update xss r"
  by (induction xss arbitrary: r) (simp_all add: Update_append)

lemma ucast_u8_inj: "(ucast (b :: u8) :: u32) = ucast b' \<Longrightarrow> b = b'"
  by (auto simp: bit_eq_iff bit_simps)

text \<open>The hash notices every change of a single byte, already in its low 32 bits, from whatever
  state the hashing starts.\<close>

theorem hash_detects_byte_change:
  assumes "b \<noteq> b'"
  shows "(ucast (digest (Update (pre @ b # post) r)) :: u32) \<noteq> ucast (digest (Update (pre @ b' # post) r))"
  using assms ucast_u8_inj[of b b']
  by (auto simp: digest_def Update_append low_Update_inj low_Update_byte_inj XOR_left_cancel)

theorem hash_detects_byte_change_witness:
  "(ucast (digest (Update ([1] @ 2 # [3]) Hasher)) :: u32) \<noteq> ucast (digest (Update ([1] @ 7 # [3]) Hasher))"
  by (rule hash_detects_byte_change) simp

end
