(* ===== verification/Packed_Fields.thy ===== *)
theory Packed_Fields
  imports Base_Utils Proto_Utils
begin

text \<open>
  The writers of packed repeated fields: \<^verbatim>\<open>packed_repeated_fields.h/.cc\<close>. The storage of a
  \<^verbatim>\<open>PackedBufferBase\<close> (on-stack first, on the heap once it has grown) is a byte list of the size of
  the allocation, so that a write past its end is visible. Fresh memory has arbitrary contents,
  the argument \<open>junk\<close>.
\<close>

definition kMaxElementSize :: nat where "kMaxElementSize = 10"
definition kOnStackStorageSize :: nat where "kOnStackStorageSize = 8192 - 32"

record PackedBufferBase =
  storage :: bytes
  write_ptr :: nat

definition packed_data :: "PackedBufferBase \<Rightarrow> bytes" where
  "packed_data b = take (write_ptr b) (storage b)"

definition Reset_packed :: "(nat \<Rightarrow> u8) \<Rightarrow> PackedBufferBase" where
  "Reset_packed junk = \<lparr>storage = map junk [0..<kOnStackStorageSize], write_ptr = 0\<rparr>"

definition GrowSlowpath :: "(nat \<Rightarrow> u8) \<Rightarrow> PackedBufferBase \<Rightarrow> PackedBufferBase" where
  "GrowSlowpath junk b =
     (let old_size = length (storage b);
          new_size = (if old_size < 65536 then old_size * 2 else old_size * 3 div 2);
          new_size = unat (AlignUp (of_nat new_size) 4096)
      in b\<lparr>storage := storage b @ map junk [old_size..<new_size]\<rparr>)"

definition GrowIfNeeded :: "(nat \<Rightarrow> u8) \<Rightarrow> PackedBufferBase \<Rightarrow> PackedBufferBase" where
  "GrowIfNeeded junk b =
     (if length (storage b) < write_ptr b + kMaxElementSize then GrowSlowpath junk b else b)"

definition packed_put :: "(nat \<Rightarrow> u8) \<Rightarrow> bytes \<Rightarrow> PackedBufferBase \<Rightarrow> PackedBufferBase option" where
  "packed_put junk bs b =
     (let b = GrowIfNeeded junk b in
      case mem_write (write_ptr b) bs (storage b) of
        None \<Rightarrow> None
      | Some mem \<Rightarrow> Some (b\<lparr>storage := mem, write_ptr := write_ptr b + length bs\<rparr>))"

definition PackedVarInt_Append :: "(nat \<Rightarrow> u8) \<Rightarrow> 'a::len word \<Rightarrow> PackedBufferBase \<Rightarrow> PackedBufferBase option" where
  "PackedVarInt_Append junk v = packed_put junk (WriteVarInt v)"

definition PackedFixedSizeInt_Append :: "(nat \<Rightarrow> u8) \<Rightarrow> 'a::len word \<Rightarrow> PackedBufferBase \<Rightarrow> PackedBufferBase option" where
  "PackedFixedSizeInt_Append junk v = packed_put junk (le_bytes (LENGTH('a) div 8) v)"

fun PackedVarInt_Append_all :: "(nat \<Rightarrow> u8) \<Rightarrow> 'a::len word list \<Rightarrow> PackedBufferBase \<Rightarrow> PackedBufferBase option" where
  "PackedVarInt_Append_all junk [] b = Some b"
| "PackedVarInt_Append_all junk (v # vs) b =
     (case PackedVarInt_Append junk v b of None \<Rightarrow> None | Some b' \<Rightarrow> PackedVarInt_Append_all junk vs b')"

subsection \<open>The buffer as a byte sequence\<close>

text \<open>The write cursor is inside the storage, and the storage is at most about twice the contents.\<close>

definition packed_ok :: "PackedBufferBase \<Rightarrow> bool" where
  "packed_ok b \<longleftrightarrow> write_ptr b \<le> length (storage b) \<and> kOnStackStorageSize \<le> length (storage b)
     \<and> length (storage b) \<le> 2 * write_ptr b + 16384"

lemma round_up_4096: "n \<le> (n + 4095) div 4096 * 4096" "(n + 4095) div 4096 * 4096 \<le> n + (4095 :: nat)"
  using div_mult_mod_eq[of "n + 4095" 4096] mod_less_divisor[of 4096 "n + 4095"] by linarith+

lemma GrowSlowpath_size:
  assumes "kOnStackStorageSize \<le> length (storage b)" "length (storage b) < 2 ^ 62"
  shows "length (storage b) + 4080 \<le> length (storage (GrowSlowpath junk b))"
    "length (storage (GrowSlowpath junk b)) \<le> 2 * length (storage b) + 4095"
proof -
  define old where "old = length (storage b)"
  define n where "n = (if old < 65536 then old * 2 else old * 3 div 2)"
  have n: "old + 4080 \<le> n" "n < 2 ^ 63" "n \<le> 2 * old"
    using assms by (auto simp: n_def old_def kOnStackStorageSize_def)
  have "unat (AlignUp (of_nat n) (2 ^ 12)) = (n + (2 ^ 12 - 1)) div 2 ^ 12 * 2 ^ 12"
    using n by (subst unat_AlignUp) (simp_all add: unat_of_nat_less)
  then have "unat (AlignUp (of_nat n) 4096) = (n + 4095) div 4096 * 4096" by simp
  then show "length (storage b) + 4080 \<le> length (storage (GrowSlowpath junk b))"
    "length (storage (GrowSlowpath junk b)) \<le> 2 * length (storage b) + 4095"
    using n round_up_4096[of n] by (simp_all add: GrowSlowpath_def Let_def flip: old_def n_def)
qed

lemma GrowSlowpath_keeps [simp]:
  "write_ptr (GrowSlowpath junk b) = write_ptr b"
  "n \<le> length (storage b) \<Longrightarrow> take n (storage (GrowSlowpath junk b)) = take n (storage b)"
  by (simp_all add: GrowSlowpath_def Let_def)

lemma GrowIfNeeded_ok:
  assumes "packed_ok b" "write_ptr b < 2 ^ 60"
  shows "write_ptr (GrowIfNeeded junk b) = write_ptr b"
    "packed_data (GrowIfNeeded junk b) = packed_data b"
    "write_ptr b + kMaxElementSize \<le> length (storage (GrowIfNeeded junk b))"
    "kOnStackStorageSize \<le> length (storage (GrowIfNeeded junk b))"
    "length (storage (GrowIfNeeded junk b)) \<le> 2 * write_ptr b + 16384"
  using assms GrowSlowpath_size[of b junk]
  by (auto simp: GrowIfNeeded_def packed_ok_def packed_data_def kMaxElementSize_def kOnStackStorageSize_def)

lemma packed_put_ok:
  assumes "packed_ok b" "write_ptr b < 2 ^ 60" "length bs \<le> kMaxElementSize"
  shows "\<exists>b'. packed_put junk bs b = Some b' \<and> packed_ok b' \<and> packed_data b' = packed_data b @ bs
      \<and> write_ptr b' = write_ptr b + length bs"
proof -
  note g = GrowIfNeeded_ok[OF assms(1,2), of junk]
  have "write_ptr b + length bs \<le> length (storage (GrowIfNeeded junk b))" using g(3) assms(3) by simp
  from mem_write_Some[OF this] obtain mem where mem:
    "mem_write (write_ptr b) bs (storage (GrowIfNeeded junk b)) = Some mem"
    "length mem = length (storage (GrowIfNeeded junk b))"
    "take (write_ptr b + length bs) mem = take (write_ptr b) (storage (GrowIfNeeded junk b)) @ bs" .
  then show ?thesis
    using g assms(3) by (auto simp: packed_put_def packed_ok_def packed_data_def Let_def)
qed

lemma Reset_packed_ok: "packed_ok (Reset_packed junk)" "packed_data (Reset_packed junk) = []"
  "write_ptr (Reset_packed junk) = 0"
  by (simp_all add: packed_ok_def Reset_packed_def packed_data_def kOnStackStorageSize_def)

lemma length_packed_data: "packed_ok b \<Longrightarrow> length (packed_data b) = write_ptr b"
  by (simp add: packed_ok_def packed_data_def)

lemma PackedVarInt_Append_all_ok:
  fixes vs :: "'a::len word list"
  assumes "packed_ok b" "LENGTH('a) \<le> 64" "length (packed_data b @ concat (map WriteVarInt vs)) < 2 ^ 60"
  shows "\<exists>b'. PackedVarInt_Append_all junk vs b = Some b' \<and> packed_ok b'
      \<and> packed_data b' = packed_data b @ concat (map WriteVarInt vs)"
  using assms
proof (induction vs arbitrary: b)
  case (Cons v vs)
  have "unat v < 2 ^ (7 * 10)"
    using less_le_trans[OF unat_less_exp[of v] power_increasing[of "LENGTH('a)" 70 "2::nat"]] assms(2) by simp
  then have "length (WriteVarInt v) \<le> kMaxElementSize"
    using length_WriteVarInt_le[of 10 v] by (simp add: kMaxElementSize_def)
  with packed_put_ok[of b "WriteVarInt v" junk] Cons.prems obtain b' where
    "PackedVarInt_Append junk v b = Some b'" "packed_ok b'" "packed_data b' = packed_data b @ WriteVarInt v"
    by (auto simp: PackedVarInt_Append_def length_packed_data)
  then show ?case using Cons.IH[of b'] Cons.prems by simp
qed simp

lemma PackedFixedSizeInt_Append_ok:
  assumes "packed_ok b" "write_ptr b < 2 ^ 60" "LENGTH('a::len) \<le> 64"
  shows "\<exists>b'. PackedFixedSizeInt_Append junk (v :: 'a word) b = Some b' \<and> packed_ok b'
      \<and> packed_data b' = packed_data b @ le_bytes (LENGTH('a) div 8) v"
  using packed_put_ok[OF assms(1,2), of "le_bytes (LENGTH('a) div 8) v" junk] div_le_mono[OF assms(3), of 8]
  by (auto simp: PackedFixedSizeInt_Append_def kMaxElementSize_def)

text \<open>A packed-varint buffer never writes out of its storage, whatever its fresh memory holds, and
  what it hands out is the concatenated encodings of the appended values.\<close>

theorem packed_buffer_correct:
  fixes vs :: "u64 list"
  assumes "length (concat (map WriteVarInt vs)) < 2 ^ 60"
  shows "\<exists>b. PackedVarInt_Append_all junk vs (Reset_packed junk') = Some b
      \<and> packed_data b = concat (map WriteVarInt vs) \<and> write_ptr b \<le> length (storage b)"
  using PackedVarInt_Append_all_ok[OF Reset_packed_ok(1), where vs = vs and junk = junk] assms
  by (auto simp: Reset_packed_ok packed_ok_def)

theorem packed_buffer_correct_witness:
  "\<exists>b. PackedVarInt_Append_all (\<lambda>_. 0xAA) [1, 300 :: u64] (Reset_packed (\<lambda>_. 0)) = Some b
      \<and> packed_data b = concat (map WriteVarInt [1, 300 :: u64]) \<and> write_ptr b \<le> length (storage b)"
proof (rule packed_buffer_correct)
  have "length (concat (map WriteVarInt [1, 300 :: u64])) = 3" by code_simp
  then show "length (concat (map WriteVarInt [1, 300 :: u64])) < 2 ^ 60" by simp
qed

end
