(* ===== verification/Filter_Bytecode.thy ===== *)
theory Filter_Bytecode
  imports Proto_Decoder Packed_Fields
begin

text \<open>
  The trace filter bytecode: \<^verbatim>\<open>filter_bytecode_common.h\<close>, the offline generator
  (\<^verbatim>\<open>filter_bytecode_generator.h/.cc\<close>) and the loader and lookup of \<^verbatim>\<open>filter_bytecode_parser.h/.cc\<close>.
  A generator or parser object is a record of its members; a failed \<^verbatim>\<open>DEJAVIEW_CHECK\<close>, a rejected
  bytecode and a read out of the bounds of a vector are \<^const>\<open>None\<close>.
\<close>

subsection \<open>Opcodes and the generator\<close>

definition kFilterOpcode_EndOfMessage :: u32 where "kFilterOpcode_EndOfMessage = 0"
definition kFilterOpcode_SimpleField :: u32 where "kFilterOpcode_SimpleField = 1"
definition kFilterOpcode_SimpleFieldRange :: u32 where "kFilterOpcode_SimpleFieldRange = 2"
definition kFilterOpcode_NestedField :: u32 where "kFilterOpcode_NestedField = 3"
definition kFilterOpcode_FilterString :: u32 where "kFilterOpcode_FilterString = 4"

lemmas opcode_defs = kFilterOpcode_EndOfMessage_def kFilterOpcode_SimpleField_def
  kFilterOpcode_SimpleFieldRange_def kFilterOpcode_NestedField_def kFilterOpcode_FilterString_def

record FilterBytecodeGenerator =
  num_messages :: u32
  last_field_id :: u32
  max_msg_index :: u32
  endmessage_called :: bool
  bytecode :: "u32 list"

definition new_generator :: FilterBytecodeGenerator where
  "new_generator = \<lparr>num_messages = 0, last_field_id = 0, max_msg_index = 0, endmessage_called = False, bytecode = []\<rparr>"

definition EndMessage :: "FilterBytecodeGenerator \<Rightarrow> FilterBytecodeGenerator" where
  "EndMessage g = g\<lparr>endmessage_called := True, bytecode := bytecode g @ [kFilterOpcode_EndOfMessage],
     last_field_id := 0, num_messages := num_messages g + 1\<rparr>"

definition AddSimpleField :: "u32 \<Rightarrow> FilterBytecodeGenerator \<Rightarrow> FilterBytecodeGenerator option" where
  "AddSimpleField field_id g =
     (if field_id > last_field_id g then
        Some (g\<lparr>bytecode := bytecode g @ [push_bit 3 field_id OR kFilterOpcode_SimpleField],
                last_field_id := field_id, endmessage_called := False\<rparr>)
      else None)"

definition AddFilterStringField :: "u32 \<Rightarrow> FilterBytecodeGenerator \<Rightarrow> FilterBytecodeGenerator option" where
  "AddFilterStringField field_id g =
     (if field_id > last_field_id g then
        Some (g\<lparr>bytecode := bytecode g @ [push_bit 3 field_id OR kFilterOpcode_FilterString],
                last_field_id := field_id, endmessage_called := False\<rparr>)
      else None)"

definition AddSimpleFieldRange :: "u32 \<Rightarrow> u32 \<Rightarrow> FilterBytecodeGenerator \<Rightarrow> FilterBytecodeGenerator option" where
  "AddSimpleFieldRange range_start range_len g =
     (if range_start > last_field_id g \<and> range_len > 0 then
        Some (g\<lparr>bytecode := bytecode g @ [push_bit 3 range_start OR kFilterOpcode_SimpleFieldRange, range_len],
                last_field_id := range_start + range_len - 1, endmessage_called := False\<rparr>)
      else None)"

definition AddNestedField :: "u32 \<Rightarrow> u32 \<Rightarrow> FilterBytecodeGenerator \<Rightarrow> FilterBytecodeGenerator option" where
  "AddNestedField field_id message_index g =
     (if field_id > last_field_id g then
        Some (g\<lparr>bytecode := bytecode g @ [push_bit 3 field_id OR kFilterOpcode_NestedField, message_index],
                last_field_id := field_id, max_msg_index := max (max_msg_index g) message_index,
                endmessage_called := False\<rparr>)
      else None)"

definition bytecode_checksum :: "u32 list \<Rightarrow> u32" where
  "bytecode_checksum ws = ucast (digest (fold Update_int ws Hasher))"

definition Serialize :: "(nat \<Rightarrow> u8) \<Rightarrow> FilterBytecodeGenerator \<Rightarrow> bytes option" where
  "Serialize junk g =
     (if endmessage_called g \<and> max_msg_index g < num_messages g then
        map_option packed_data
          (PackedVarInt_Append_all junk (bytecode g @ [bytecode_checksum (bytecode g)]) (Reset_packed junk))
      else None)"

subsection \<open>The parser\<close>

definition kDirectlyIndexLimit :: u32 where "kDirectlyIndexLimit = 128"
definition kAllowed :: u32 where "kAllowed = push_bit 31 1"
definition kSimpleField :: u32 where "kSimpleField = 0x7fffffff"
definition kFilterStringField :: u32 where "kFilterStringField = 0x7ffffffe"

record QueryResult =
  q_allowed :: bool
  nested_msg_index :: u32

definition simple_field :: "QueryResult \<Rightarrow> bool" where
  "simple_field q \<longleftrightarrow> nested_msg_index q = kSimpleField"

definition filter_string_field :: "QueryResult \<Rightarrow> bool" where
  "filter_string_field q \<longleftrightarrow> nested_msg_index q = kFilterStringField"

definition nested_msg_field :: "QueryResult \<Rightarrow> bool" where
  "nested_msg_field q \<longleftrightarrow> nested_msg_index q < kFilterStringField"

record FilterBytecodeParser =
  fwords :: "u32 list"
  message_offset :: "u32 list"

definition Reset_parser :: FilterBytecodeParser where
  "Reset_parser = \<lparr>fwords = [], message_offset = []\<rparr>"

text \<open>The locals of the loading loop beside the two vectors of the parser.\<close>

record LoadState = FilterBytecodeParser +
  direct_indexed_fields :: "u32 list"
  ranges :: "u32 list"
  ls_max_msg_index :: u32
  is_eom :: bool

definition add_directly_indexed_field :: "u32 \<Rightarrow> u32 \<Rightarrow> u32 list \<Rightarrow> u32 list" where
  "add_directly_indexed_field field_id msg_id direct =
     (let n = max (length direct) (unat field_id + 1)
      in (direct @ replicate (n - length direct) 0)[unat field_id := kAllowed OR msg_id])"

definition add_range :: "u32 \<Rightarrow> u32 \<Rightarrow> u32 \<Rightarrow> u32 list \<Rightarrow> u32 list" where
  "add_range id_start id_end msg_id rs = rs @ [id_start, id_end, kAllowed OR msg_id]"

definition add_field :: "u32 \<Rightarrow> u32 \<Rightarrow> LoadState \<Rightarrow> LoadState" where
  "add_field field_id msg_id s =
     (if field_id < kDirectlyIndexLimit
      then s\<lparr>direct_indexed_fields := add_directly_indexed_field field_id msg_id (direct_indexed_fields s)\<rparr>
      else s\<lparr>ranges := add_range field_id (field_id + 1) msg_id (ranges s)\<rparr>)"

text \<open>\<^verbatim>\<open>for (; id < range_end && id < kDirectlyIndexLimit; ++id)\<close>\<close>

function add_direct_range :: "u32 \<Rightarrow> u32 \<Rightarrow> u32 list \<Rightarrow> u32 list \<times> u32" where
  "add_direct_range fid range_end direct =
     (if fid < range_end \<and> fid < kDirectlyIndexLimit
      then add_direct_range (fid + 1) range_end
             (add_directly_indexed_field fid (kAllowed OR kSimpleField) direct)
      else (direct, fid))"
  by pat_completeness auto
termination
proof (relation "measure (\<lambda>(fid, range_end, direct). 128 - unat fid)")
  fix fid range_end :: u32 and direct :: "u32 list"
  assume "fid < range_end \<and> fid < kDirectlyIndexLimit"
  then have "unat fid < 128" by (simp add: kDirectlyIndexLimit_def word_less_nat_alt)
  then show "((fid + 1, range_end, add_directly_indexed_field fid (kAllowed OR kSimpleField) direct),
      fid, range_end, direct) \<in> measure (\<lambda>(fid, range_end, direct). 128 - unat fid)"
    by (simp add: unat_word_ariths)
qed simp

declare add_direct_range.simps [simp del]

definition add_field_range :: "u32 \<Rightarrow> u32 \<Rightarrow> LoadState \<Rightarrow> LoadState" where
  "add_field_range field_id range_len s =
     (let range_end = field_id + range_len in
      case add_direct_range field_id range_end (direct_indexed_fields s) of (direct, fid) \<Rightarrow>
        let s = s\<lparr>direct_indexed_fields := direct\<rparr>
        in if fid < range_end then s\<lparr>ranges := add_range fid range_end kSimpleField (ranges s)\<rparr> else s)"

definition end_of_message :: "LoadState \<Rightarrow> LoadState" where
  "end_of_message s =
     s\<lparr>message_offset := message_offset s @ [of_nat (length (fwords s))],
       fwords := fwords s @ [of_nat (length (direct_indexed_fields s))] @ direct_indexed_fields s @ ranges s,
       direct_indexed_fields := [], ranges := []\<rparr>"

fun load_loop :: "u32 list \<Rightarrow> LoadState \<Rightarrow> LoadState option" where
  "load_loop [] s = Some s"
| "load_loop (w # ws) s =
     (let opcode = w AND 7; field_id = drop_bit 3 w;
          s = s\<lparr>is_eom := (opcode = kFilterOpcode_EndOfMessage)\<rparr>
      in if field_id = 0 \<and> opcode \<noteq> kFilterOpcode_EndOfMessage then None
         else if opcode = kFilterOpcode_SimpleField then load_loop ws (add_field field_id kSimpleField s)
         else if opcode = kFilterOpcode_FilterString then load_loop ws (add_field field_id kFilterStringField s)
         else if opcode = kFilterOpcode_NestedField then
           (case ws of
              [] \<Rightarrow> None
            | msg_id # ws' \<Rightarrow>
                load_loop ws' (add_field field_id msg_id (s\<lparr>ls_max_msg_index := max (ls_max_msg_index s) msg_id\<rparr>)))
         else if opcode = kFilterOpcode_SimpleFieldRange then
           (case ws of
              [] \<Rightarrow> None
            | range_len # ws' \<Rightarrow> load_loop ws' (add_field_range field_id range_len s))
         else if opcode = kFilterOpcode_EndOfMessage then load_loop ws (end_of_message s)
         else None)"

definition new_load_state :: LoadState where
  "new_load_state = \<lparr>fwords = [], message_offset = [], direct_indexed_fields = [], ranges = [],
     ls_max_msg_index = 0, is_eom = True\<rparr>"

definition LoadInternal :: "bytes \<Rightarrow> FilterBytecodeParser option" where
  "LoadInternal bytecode_data =
     (case packed_values kVarInt bytecode_data of (vs, packed_parse_err) \<Rightarrow>
        let ws = map ucast vs in
        if packed_parse_err \<or> ws = [] then None
        else if bytecode_checksum (butlast ws) \<noteq> last ws then None
        else case load_loop (butlast ws) new_load_state of
          None \<Rightarrow> None
        | Some s \<Rightarrow>
            if \<not> is_eom s then None
            else if ls_max_msg_index s > 0 \<and> length (message_offset s) \<le> unat (ls_max_msg_index s) then None
            else Some \<lparr>fwords = fwords s, message_offset = message_offset s @ [of_nat (length (fwords s))]\<rparr>)"

text \<open>The result and the parser left behind: a failed load leaves it as after \<^verbatim>\<open>Reset\<close>.\<close>

definition Load :: "bytes \<Rightarrow> bool \<times> FilterBytecodeParser" where
  "Load filter_data =
     (case LoadInternal filter_data of None \<Rightarrow> (False, Reset_parser) | Some p \<Rightarrow> (True, p))"

subsection \<open>Lookup\<close>

text \<open>\<^verbatim>\<open>for (word = ...; word + 2 < end;)\<close> over the words that remain of the message.\<close>

fun scan_ranges :: "u32 \<Rightarrow> u32 list \<Rightarrow> u32" where
  "scan_ranges field_id (range_start # range_end # range_state # rest) =
     (if range_start \<le> field_id \<and> field_id < range_end then range_state else scan_ranges field_id rest)"
| "scan_ranges field_id _ = 0"

definition field_state_result :: "u32 \<Rightarrow> QueryResult" where
  "field_state_result field_state =
     \<lparr>q_allowed = (field_state AND kAllowed \<noteq> 0), nested_msg_index = field_state AND NOT kAllowed\<rparr>"

definition Query :: "FilterBytecodeParser \<Rightarrow> u32 \<Rightarrow> u32 \<Rightarrow> QueryResult option" where
  "Query p msg_index field_id =
     (if length (message_offset p) \<le> unat msg_index + 1 then Some \<lparr>q_allowed = False, nested_msg_index = 0\<rparr>
      else
        let start_offset = unat (message_offset p ! unat msg_index);
            end_off = unat (message_offset p ! (unat msg_index + 1)) in
        if \<not> (start_offset < length (fwords p) \<and> start_offset < end_off \<and> end_off \<le> length (fwords p)) then None
        else
          let num_directly_indexed = fwords p ! start_offset;
              ws = drop (start_offset + 1) (take end_off (fwords p)) in
          if \<not> (num_directly_indexed \<le> kDirectlyIndexLimit \<and> unat num_directly_indexed \<le> length ws) then None
          else
            let field_state =
                  (if field_id < num_directly_indexed then ws ! unat field_id
                   else scan_ranges field_id (drop (unat num_directly_indexed) ws));
                res = field_state_result field_state in
            if nested_msg_field res \<and> length (message_offset p) - 1 \<le> unat (nested_msg_index res) then None
            else Some res)"

subsection \<open>The shape of the loaded tables\<close>

text \<open>A message is its directly indexed field states and its ranges; the vectors of the parser are
  the encodings of the messages, one after the other, and where each starts.\<close>

type_synonym fmsg = "u32 list \<times> u32 list"

definition enc_msg :: "fmsg \<Rightarrow> u32 list" where
  "enc_msg = (\<lambda>(d, r). of_nat (length d) # d @ r)"

definition msg_lookup :: "fmsg \<Rightarrow> u32 \<Rightarrow> u32" where
  "msg_lookup = (\<lambda>(d, r) f. if unat f < length d then d ! unat f else scan_ranges f r)"

definition state_ok :: "u32 \<Rightarrow> u32 \<Rightarrow> bool" where
  "state_ok mx w \<longleftrightarrow> w = 0 \<or> w AND NOT kAllowed \<le> mx \<or> \<not> nested_msg_field (field_state_result w)"

fun ranges_ok :: "(u32 \<Rightarrow> u32 \<Rightarrow> u32 \<Rightarrow> bool) \<Rightarrow> u32 list \<Rightarrow> bool" where
  "ranges_ok P (a # b # w # rest) = (P a b w \<and> ranges_ok P rest)"
| "ranges_ok P rest = (rest = [])"

definition msg_ok :: "u32 \<Rightarrow> fmsg \<Rightarrow> bool" where
  "msg_ok mx = (\<lambda>(d, r). length d \<le> 128 \<and> (\<forall>w \<in> set d. state_ok mx w) \<and> ranges_ok (\<lambda>_ _. state_ok mx) r)"

definition offsets :: "fmsg list \<Rightarrow> u32 list" where
  "offsets msgs = map (\<lambda>i. of_nat (length (concat (map enc_msg (take i msgs))))) [0..<length msgs]"

definition load_inv :: "LoadState \<Rightarrow> fmsg list \<Rightarrow> bool" where
  "load_inv s msgs \<longleftrightarrow>
     fwords s = concat (map enc_msg msgs) \<and> message_offset s = offsets msgs
     \<and> list_all (msg_ok (ls_max_msg_index s)) msgs
     \<and> msg_ok (ls_max_msg_index s) (direct_indexed_fields s, ranges s)"

lemma offsets_snoc: "offsets (msgs @ [m]) = offsets msgs @ [of_nat (length (concat (map enc_msg msgs)))]"
  by (simp add: offsets_def)

lemma length_offsets [simp]: "length (offsets msgs) = length msgs"
  by (simp add: offsets_def)

lemma scan_ranges_zero: "ranges_ok (\<lambda>a b w. \<not> (a \<le> f \<and> f < b)) r \<Longrightarrow> scan_ranges f r = 0"
  by (induction f r rule: scan_ranges.induct) auto

lemma scan_ranges_append:
  "ranges_ok P r \<Longrightarrow> scan_ranges f (r @ s) =
     (if ranges_ok (\<lambda>a b w. \<not> (a \<le> f \<and> f < b)) r then scan_ranges f s else scan_ranges f r)"
  by (induction P r rule: ranges_ok.induct) auto

lemma ranges_ok_append: "ranges_ok P r \<Longrightarrow> ranges_ok P (r @ s) \<longleftrightarrow> ranges_ok P s"
  by (induction P r rule: ranges_ok.induct) auto

lemma ranges_ok_mono: "ranges_ok P r \<Longrightarrow> (\<And>a b w. P a b w \<Longrightarrow> Q a b w) \<Longrightarrow> ranges_ok Q r"
  by (induction P r rule: ranges_ok.induct) auto

lemma scan_ranges_in: "ranges_ok P r \<Longrightarrow> scan_ranges f r = 0 \<or> (\<exists>a b. P a b (scan_ranges f r))"
  by (induction P r rule: ranges_ok.induct) auto

lemma state_ok_mono: "state_ok mx w \<Longrightarrow> mx \<le> mx' \<Longrightarrow> state_ok mx' w"
  by (auto simp: state_ok_def)

lemma msg_ok_mono: "msg_ok mx m \<Longrightarrow> mx \<le> mx' \<Longrightarrow> msg_ok mx' m"
  by (auto simp: msg_ok_def split: prod.splits intro: state_ok_mono ranges_ok_mono)

lemma state_ok_0 [simp]: "state_ok mx 0" by (simp add: state_ok_def)

lemma nested_of_state: "(kAllowed OR m) AND NOT kAllowed = m AND NOT kAllowed"
  by (rule bit_word_eqI) (auto simp: bit_simps)

lemma AND_NOT_le: "m AND NOT k \<le> (m :: 'a::len word)"
  by (rule word_and_le2)

lemma state_ok_field: "m \<le> mx \<Longrightarrow> state_ok mx (kAllowed OR m)"
  unfolding state_ok_def nested_of_state using AND_NOT_le order_trans by blast

lemma state_ok_special [simp]:
  "state_ok mx (kAllowed OR kSimpleField)" "state_ok mx (kAllowed OR kFilterStringField)"
  "state_ok mx (kAllowed OR (kAllowed OR kSimpleField))"
  by (simp_all add: state_ok_def nested_msg_field_def field_state_result_def nested_of_state
      kSimpleField_def kFilterStringField_def kAllowed_def)

lemma length_add_direct:
  "length (add_directly_indexed_field f w d) = max (length d) (unat f + 1)"
  by (simp add: add_directly_indexed_field_def Let_def)

lemma set_add_direct: "set (add_directly_indexed_field f w d) \<subseteq> insert (kAllowed OR w) (insert 0 (set d))"
  unfolding add_directly_indexed_field_def Let_def
  by (rule order_trans[OF set_update_subset_insert]) auto

lemma nth_add_direct:
  "i < max (length d) (unat f + 1) \<Longrightarrow> add_directly_indexed_field f w d ! i =
     (if i = unat f then kAllowed OR w else if i < length d then d ! i else 0)"
  by (auto simp: add_directly_indexed_field_def Let_def nth_list_update nth_append)

lemma msg_ok_add_direct:
  assumes "msg_ok mx (d, r)" "f < kDirectlyIndexLimit" "state_ok mx (kAllowed OR w)"
  shows "msg_ok mx (add_directly_indexed_field f w d, r)"
proof -
  have "unat f < 128" using assms(2) by (simp add: kDirectlyIndexLimit_def word_less_nat_alt)
  then show ?thesis
    using assms(1,3) set_add_direct[of f w d] by (auto simp: msg_ok_def length_add_direct)
qed

lemma msg_ok_add_range:
  "msg_ok mx (d, r) \<Longrightarrow> state_ok mx (kAllowed OR w) \<Longrightarrow> msg_ok mx (d, add_range a b w r)"
  by (simp add: msg_ok_def add_range_def ranges_ok_append)

lemma msg_ok_add_direct_range:
  "msg_ok mx (d, r) \<Longrightarrow> msg_ok mx (fst (add_direct_range f e d), r)"
proof (induction f e d rule: add_direct_range.induct)
  case (1 f e d)
  then show ?case
    by (subst add_direct_range.simps) (auto simp: msg_ok_add_direct)
qed

lemma load_inv_is_eom [simp]: "load_inv (s\<lparr>is_eom := e\<rparr>) msgs = load_inv s msgs"
  by (simp add: load_inv_def)

lemma load_inv_max: "load_inv s msgs \<Longrightarrow> load_inv (s\<lparr>ls_max_msg_index := max (ls_max_msg_index s) m\<rparr>) msgs"
  by (auto simp: load_inv_def list_all_iff intro: msg_ok_mono)

lemma load_inv_add_field:
  "load_inv s msgs \<Longrightarrow> state_ok (ls_max_msg_index s) (kAllowed OR w) \<Longrightarrow> load_inv (add_field f w s) msgs"
  by (auto simp: load_inv_def add_field_def intro: msg_ok_add_direct msg_ok_add_range)

lemma load_inv_add_field_range: "load_inv s msgs \<Longrightarrow> load_inv (add_field_range f n s) msgs"
  using msg_ok_add_direct_range[of "ls_max_msg_index s" "direct_indexed_fields s" "ranges s" f "f + n"]
  by (auto simp: load_inv_def add_field_range_def Let_def intro: msg_ok_add_range split: prod.splits)

lemma load_inv_end_of_message:
  "load_inv s msgs \<Longrightarrow> load_inv (end_of_message s) (msgs @ [(direct_indexed_fields s, ranges s)])"
  by (simp add: load_inv_def end_of_message_def enc_msg_def offsets_snoc) (simp add: msg_ok_def)

lemma load_inv_new: "load_inv new_load_state []"
  by (simp add: load_inv_def new_load_state_def offsets_def msg_ok_def)

text \<open>How much table space a bytecode word can take.\<close>

definition load_size :: "LoadState \<Rightarrow> nat" where
  "load_size s = length (fwords s) + length (ranges s)"

lemma load_size_field [simp]:
  "load_size (s\<lparr>is_eom := e\<rparr>) = load_size s" "load_size (s\<lparr>ls_max_msg_index := m\<rparr>) = load_size s"
  by (simp_all add: load_size_def)

lemma load_size_add_field: "load_size (add_field f w s) \<le> load_size s + 3"
  by (simp add: load_size_def add_field_def add_range_def)

lemma load_size_add_field_range: "load_size (add_field_range f n s) \<le> load_size s + 3"
  by (simp add: load_size_def add_field_range_def add_range_def Let_def split: prod.splits)

lemma load_size_end_of_message: "load_inv s msgs \<Longrightarrow> load_size (end_of_message s) \<le> load_size s + 129"
  by (simp add: load_size_def end_of_message_def load_inv_def msg_ok_def)

lemma load_loop_cases:
  assumes "load_loop (w # ws) s = Some s'"
  defines "t \<equiv> s\<lparr>is_eom := (w AND 7 = kFilterOpcode_EndOfMessage)\<rparr>"
  obtains (field) m where "load_loop ws (add_field (drop_bit 3 w) m t) = Some s'"
      "m = kSimpleField \<or> m = kFilterStringField"
  | (nested) m us where "ws = m # us"
      "load_loop us (add_field (drop_bit 3 w) m (t\<lparr>ls_max_msg_index := max (ls_max_msg_index t) m\<rparr>)) = Some s'"
  | (range) n us where "ws = n # us" "load_loop us (add_field_range (drop_bit 3 w) n t) = Some s'"
  | (eom) "load_loop ws (end_of_message t) = Some s'"
  using assms(1) unfolding t_def[symmetric] load_loop.simps Let_def
  by (auto split: if_splits list.splits)

lemma load_loop_inv:
  "load_loop ws s = Some s' \<Longrightarrow> load_inv s msgs \<Longrightarrow>
   \<exists>msgs'. load_inv s' msgs' \<and> load_size s' \<le> load_size s + 129 * length ws"
proof (induction ws arbitrary: s msgs rule: length_induct)
  case (1 ws)
  show ?case
  proof (cases ws)
    case Nil
    then show ?thesis using 1(2,3) by auto
  next
    case (Cons w us)
    have step: "\<exists>msgs'. load_inv s' msgs' \<and> load_size s' \<le> load_size s + 129 * length ws"
      if "load_loop vs u = Some s'" "load_inv u ms" "load_size u \<le> load_size s + 129" "length vs < length ws" for vs u ms
      using 1(1)[rule_format, OF that(4,1,2)] that(3,4) by fastforce
    define t where "t = s\<lparr>is_eom := (w AND 7 = kFilterOpcode_EndOfMessage)\<rparr>"
    have t: "load_inv t msgs" "load_size t = load_size s" using 1(3) by (simp_all add: t_def)
    from 1(2)[unfolded Cons] show ?thesis
    proof (cases rule: load_loop_cases)
      case (field m)
      then show ?thesis
        using step[OF field(1)[folded t_def] load_inv_add_field[OF t(1)]] load_size_add_field[of "drop_bit 3 w" m t] t(2)
        by (auto simp: Cons)
    next
      case (nested m vs)
      let ?u = "t\<lparr>ls_max_msg_index := max (ls_max_msg_index t) m\<rparr>"
      show ?thesis
        using step[OF nested(2)[folded t_def] load_inv_add_field[OF load_inv_max[OF t(1)]]] state_ok_field[of m]
          load_size_add_field[of "drop_bit 3 w" m ?u] t(2) nested(1) by (auto simp: Cons)
    next
      case (range n vs)
      then show ?thesis
        using step[OF range(2)[folded t_def] load_inv_add_field_range[OF t(1)]] load_size_add_field_range[of "drop_bit 3 w" n t] t(2)
        by (auto simp: Cons)
    next
      case eom
      then show ?thesis
        using step[OF eom[folded t_def] load_inv_end_of_message[OF t(1)]] load_size_end_of_message[OF t(1)] t(2) by (auto simp: Cons)
    qed
  qed
qed

subsection \<open>Lookups in the loaded tables\<close>

definition tables :: "FilterBytecodeParser \<Rightarrow> fmsg list \<Rightarrow> u32 \<Rightarrow> bool" where
  "tables p msgs mx \<longleftrightarrow> fwords p = concat (map enc_msg msgs)
     \<and> message_offset p = offsets msgs @ [of_nat (length (fwords p))]
     \<and> list_all (msg_ok mx) msgs \<and> length (fwords p) < 2 ^ 32 \<and> (mx = 0 \<or> unat mx < length msgs)"

lemma msg_lookup_ok: "msg_ok mx m \<Longrightarrow> state_ok mx (msg_lookup m f)"
  using scan_ranges_in[of "\<lambda>_ _. state_ok mx" "snd m" f]
  by (auto simp: msg_ok_def msg_lookup_def split: prod.splits)

lemma offsets_nth:
  assumes "i \<le> length msgs" "length (concat (map enc_msg msgs)) < 2 ^ 32"
  shows "unat ((offsets msgs @ [of_nat (length (concat (map enc_msg msgs)))]) ! i) = length (concat (map enc_msg (take i msgs)))"
proof -
  have "length (concat (map enc_msg (take i msgs))) \<le> length (concat (map enc_msg msgs))"
    by (subst (2) append_take_drop_id[of i, symmetric]) (simp del: append_take_drop_id)
  then have "unat (of_nat (length (concat (map enc_msg (take i msgs)))) :: u32) = length (concat (map enc_msg (take i msgs)))"
    using assms(2) by (intro unat_of_nat_less) simp
  then show ?thesis using assms(1) by (cases "i = length msgs") (simp_all add: offsets_def nth_append)
qed

lemma Query_tables:
  assumes "tables p msgs mx"
  shows "Query p i f = Some (if length msgs \<le> unat i then \<lparr>q_allowed = False, nested_msg_index = 0\<rparr>
           else field_state_result (msg_lookup (msgs ! unat i) f))"
proof (cases "length msgs \<le> unat i")
  case True
  then show ?thesis using assms by (simp add: Query_def tables_def)
next
  case False
  define n where "n = unat i"
  have n: "n < length msgs" using False by (simp add: n_def)
  obtain d r where m: "msgs ! n = (d, r)" by (cases "msgs ! n") auto
  define pre where "pre = concat (map enc_msg (take n msgs))"
  define post where "post = concat (map enc_msg (drop (Suc n) msgs))"
  have f: "fwords p = pre @ enc_msg (d, r) @ post"
    using assms id_take_nth_drop[OF n] m by (simp add: tables_def pre_def post_def) (metis concat.simps(2) concat_append list.simps(9) map_append)
  have ok: "msg_ok mx (d, r)" using assms n m by (metis list_all_length tables_def)
  have o1: "unat (message_offset p ! n) = length pre" and o2: "unat (message_offset p ! (n + 1)) = length pre + length (enc_msg (d, r))"
    using assms offsets_nth[of n msgs] offsets_nth[of "n + 1" msgs] n m
    by (auto simp: tables_def pre_def take_Suc_conv_app_nth)
  have d: "unat (of_nat (length d) :: u32) = length d" using ok by (intro unat_of_nat_less) (simp add: msg_ok_def)
  have dir: "(of_nat (length d) :: u32) \<le> kDirectlyIndexLimit" "f < of_nat (length d) \<longleftrightarrow> unat f < length d"
    using ok d by (simp_all add: word_le_nat_alt word_less_nat_alt kDirectlyIndexLimit_def msg_ok_def)
  have nest: "\<not> (nested_msg_field (field_state_result w) \<and> length (message_offset p) - 1 \<le> unat (nested_msg_index (field_state_result w)))"
    if "state_ok mx w" for w
    using that assms n
    by (auto simp: state_ok_def tables_def field_state_result_def word_le_nat_alt)
  have len: "length (message_offset p) = length msgs + 1" using assms by (simp add: tables_def)
  have w: "fwords p ! length pre = of_nat (length d)"
    "drop (length pre + 1) (take (length pre + length (enc_msg (d, r))) (fwords p)) = d @ r"
    "length pre < length (fwords p)" "length pre < length pre + length (enc_msg (d, r))"
    "length pre + length (enc_msg (d, r)) \<le> length (fwords p)"
    by (simp_all add: f enc_msg_def)
  have look: "(if f < of_nat (length d) then (d @ r) ! unat f else scan_ranges f (drop (length d) (d @ r))) = msg_lookup (d, r) f"
    by (simp add: dir(2) msg_lookup_def nth_append)
  show ?thesis
    unfolding Query_def Let_def n_def[symmetric] o1 o2 w(1,2) d look m
    using dir(1) len n nest[OF msg_lookup_ok[OF ok, of f]] by (simp add: w(3,5) w(4)[simplified])
qed

lemma length_packed_collect:
  "pk_valid it \<Longrightarrow> length (fst (packed_collect kVarInt data it)) \<le> 1 + (length data - pk_read it)"
proof (induction kVarInt data it rule: packed_collect.induct)
  case (1 data it)
  let ?it = "packed_incr kVarInt data it"
  have p: "length (fst (packed_collect kVarInt data it)) = Suc (length (fst (packed_collect kVarInt data ?it)))"
    using 1(2) by (subst packed_collect.simps) (simp split: prod.splits)
  show ?case
  proof (cases "pk_valid ?it")
    case True
    then have "pk_read it < pk_read ?it" "pk_read ?it \<le> length data \<or> pk_read it < length data"
      using 1(2) by (auto simp: packed_incr_def split: if_splits prod.splits)
    then show ?thesis using 1(1)[OF 1(2) True] p by linarith
  next
    case False
    then show ?thesis using p by (simp add: packed_collect_invalid)
  qed
qed

lemma length_packed_values: "length (fst (packed_values kVarInt data)) \<le> length data"
proof (cases "pk_valid (packed_begin kVarInt data)")
  case True
  then have "0 < pk_read (packed_begin kVarInt data)" "0 < length data"
    by (auto simp: packed_begin_def packed_incr_def Let_def split: if_splits prod.splits)
  then show ?thesis using length_packed_collect[OF True, of data] unfolding packed_values_def by linarith
next
  case False
  then show ?thesis by (simp add: packed_values_def packed_collect_invalid)
qed

text \<open>What \<^const>\<open>LoadInternal\<close> accepts has the shape above.\<close>

lemma tables_of_load:
  assumes "load_inv s msgs" "load_size s < 2 ^ 32"
    "\<not> (ls_max_msg_index s > 0 \<and> length (message_offset s) \<le> unat (ls_max_msg_index s))"
  shows "tables \<lparr>fwords = fwords s, message_offset = message_offset s @ [of_nat (length (fwords s))]\<rparr> msgs (ls_max_msg_index s)"
  using assms by (auto simp: tables_def load_inv_def load_size_def word_gt_0)

lemma LoadInternal_tables:
  assumes "LoadInternal bs = Some p" "length bs < 2 ^ 24"
  shows "\<exists>msgs mx. tables p msgs mx"
proof -
  obtain vs e where pv: "packed_values kVarInt bs = (vs, e)" by (cases "packed_values kVarInt bs") auto
  then have len: "length vs < 2 ^ 24" using length_packed_values[of bs] assms(2) by simp
  from assms(1) pv obtain s where s: "load_loop (butlast (map ucast vs)) new_load_state = Some s"
      "\<not> (ls_max_msg_index s > 0 \<and> length (message_offset s) \<le> unat (ls_max_msg_index s))"
      "p = \<lparr>fwords = fwords s, message_offset = message_offset s @ [of_nat (length (fwords s))]\<rparr>"
    by (auto simp: LoadInternal_def Let_def split: if_splits option.splits)
  from load_loop_inv[OF s(1) load_inv_new] obtain msgs where
    "load_inv s msgs" "load_size s \<le> load_size new_load_state + 129 * length (butlast (map ucast vs :: u32 list))" by blast
  then show ?thesis
    using tables_of_load[OF _ _ s(2)] s(3) len by (fastforce simp: load_size_def new_load_state_def)
qed



text \<open>A range whose end wraps around 32 bits adds nothing and leaves the loop with an id that is
  neither past the direct-indexing limit nor the range end, which a debug check takes for granted.\<close>

lemma range_wrap_violates_check:
  "add_direct_range 1 (1 + 0xFFFFFFFF) [] = ([], 1) \<and> \<not> (1 \<ge> kDirectlyIndexLimit \<or> (1 :: u32) = 1 + 0xFFFFFFFF)"
proof -
  have "(1 :: u32) + 0xFFFFFFFF = 0" by simp
  then show ?thesis by (simp only:) (simp add: add_direct_range.simps kDirectlyIndexLimit_def word_le_nat_alt)
qed

end
