(* ===== verification/Filter_Roundtrip.thy ===== *)
theory Filter_Roundtrip
  imports Filter_Bytecode
begin

text \<open>
  The generator and the parser of the filter bytecode agree: what a sequence of generator calls
  means, independently of the encoding, is what \<^verbatim>\<open>Query\<close> answers after \<^verbatim>\<open>Serialize\<close> and \<^verbatim>\<open>Load\<close>.
\<close>

subsection \<open>Generator calls and their meaning\<close>

datatype gen_op = SimpleOp u32 | StringOp u32 | RangeOp u32 u32 | NestedOp u32 u32 | EndOp

fun gen_step :: "gen_op \<Rightarrow> FilterBytecodeGenerator \<Rightarrow> FilterBytecodeGenerator option" where
  "gen_step (SimpleOp f) g = AddSimpleField f g"
| "gen_step (StringOp f) g = AddFilterStringField f g"
| "gen_step (RangeOp a n) g = AddSimpleFieldRange a n g"
| "gen_step (NestedOp f i) g = AddNestedField f i g"
| "gen_step EndOp g = Some (EndMessage g)"

fun gen_run :: "gen_op list \<Rightarrow> FilterBytecodeGenerator \<Rightarrow> FilterBytecodeGenerator option" where
  "gen_run [] g = Some g"
| "gen_run (op # ops) g = (case gen_step op g of None \<Rightarrow> None | Some g' \<Rightarrow> gen_run ops g')"

text \<open>What one call says about a field of its message, and what the calls of a message say.\<close>

fun op_allows :: "gen_op \<Rightarrow> u32 \<Rightarrow> u32 option" where
  "op_allows (SimpleOp i) f = (if f = i then Some kSimpleField else None)"
| "op_allows (StringOp i) f = (if f = i then Some kFilterStringField else None)"
| "op_allows (RangeOp a n) f = (if unat a \<le> unat f \<and> unat f < unat a + unat n then Some kSimpleField else None)"
| "op_allows (NestedOp i m) f = (if f = i then Some m else None)"
| "op_allows EndOp f = None"

fun msg_allows :: "gen_op list \<Rightarrow> u32 \<Rightarrow> u32 option" where
  "msg_allows [] f = None"
| "msg_allows (op # ops) f = (case op_allows op f of Some m \<Rightarrow> Some m | None \<Rightarrow> msg_allows ops f)"

text \<open>The messages: the calls up to each \<^verbatim>\<open>EndMessage\<close>.\<close>

fun gen_messages :: "gen_op list \<Rightarrow> gen_op list \<Rightarrow> gen_op list list" where
  "gen_messages cur [] = []"
| "gen_messages cur (EndOp # ops) = cur # gen_messages [] ops"
| "gen_messages cur (op # ops) = gen_messages (cur @ [op]) ops"

definition spec_query :: "gen_op list \<Rightarrow> u32 \<Rightarrow> u32 \<Rightarrow> QueryResult" where
  "spec_query ops i f =
     (case (if unat i < length (gen_messages [] ops) then msg_allows (gen_messages [] ops ! unat i) f else None) of
        None \<Rightarrow> \<lparr>q_allowed = False, nested_msg_index = 0\<rparr>
      | Some m \<Rightarrow> \<lparr>q_allowed = True, nested_msg_index = m\<rparr>)"

text \<open>Field ids fit in a bytecode word, ranges do not wrap.\<close>

fun op_wf :: "gen_op \<Rightarrow> bool" where
  "op_wf (SimpleOp f) = (unat f < 2 ^ 29)"
| "op_wf (StringOp f) = (unat f < 2 ^ 29)"
| "op_wf (RangeOp a n) = (unat a < 2 ^ 29 \<and> unat a + unat n < 2 ^ 32)"
| "op_wf (NestedOp f i) = (unat f < 2 ^ 29)"
| "op_wf EndOp = True"

fun op_words :: "gen_op \<Rightarrow> u32 list" where
  "op_words (SimpleOp f) = [push_bit 3 f OR kFilterOpcode_SimpleField]"
| "op_words (StringOp f) = [push_bit 3 f OR kFilterOpcode_FilterString]"
| "op_words (RangeOp a n) = [push_bit 3 a OR kFilterOpcode_SimpleFieldRange, n]"
| "op_words (NestedOp f i) = [push_bit 3 f OR kFilterOpcode_NestedField, i]"
| "op_words EndOp = [kFilterOpcode_EndOfMessage]"

fun op_last :: "gen_op \<Rightarrow> u32" where
  "op_last (SimpleOp f) = f" | "op_last (StringOp f) = f" | "op_last (RangeOp a n) = a + n - 1"
| "op_last (NestedOp f i) = f" | "op_last EndOp = 0"

fun op_max :: "gen_op \<Rightarrow> u32 \<Rightarrow> u32" where
  "op_max (NestedOp f i) m = max m i" | "op_max _ m = m"

fun op_first :: "gen_op \<Rightarrow> u32" where
  "op_first (SimpleOp f) = f" | "op_first (StringOp f) = f" | "op_first (RangeOp a n) = a"
| "op_first (NestedOp f i) = f" | "op_first EndOp = 0"

lemma gen_step_fields:
  assumes "gen_step op g = Some g'"
  shows "bytecode g' = bytecode g @ op_words op" "last_field_id g' = op_last op"
    "max_msg_index g' = op_max op (max_msg_index g)"
    "num_messages g' = num_messages g + (if op = EndOp then 1 else 0)"
    "endmessage_called g' \<longleftrightarrow> op = EndOp"
    "op \<noteq> EndOp \<Longrightarrow> last_field_id g < op_first op"
    "\<And>a n. op = RangeOp a n \<Longrightarrow> n > 0"
  using assms
  by (cases op; auto simp: AddSimpleField_def AddFilterStringField_def AddSimpleFieldRange_def AddNestedField_def
      EndMessage_def split: if_splits)+

lemma word_decode:
  assumes "unat f < 2 ^ 29" "k < 8"
  shows "(push_bit 3 f OR k) AND 7 = (k :: u32)" "drop_bit 3 (push_bit 3 f OR k) = f"
proof -
  have k: "bit k n \<Longrightarrow> n < 3" for n
    using bit_imp_less_exp[of k 3 n] assms(2) by (simp add: word_less_nat_alt)
  show "(push_bit 3 f OR k) AND 7 = k"
    by (rule bit_word_eqI) (auto simp: bit_simps mask_bits dest: k)
  show "drop_bit 3 (push_bit 3 f OR k) = f"
  proof (rule bit_word_eqI)
    fix n assume "n < LENGTH(32)"
    then show "bit (drop_bit 3 (push_bit 3 f OR k)) n = bit f n"
      using bit_imp_less_exp[OF assms(1), of n] k[of "3 + n"] by (auto simp: bit_simps)
  qed
qed

lemma drop_push_bit: "unat f < 2 ^ 29 \<Longrightarrow> drop_bit 3 (push_bit 3 (f :: u32)) = f"
  using word_decode(2)[of f 0] by simp

subsection \<open>Adding fields in increasing order\<close>

text \<open>All fields recorded so far have ids of at most \<open>L\<close>.\<close>

definition below :: "nat \<Rightarrow> fmsg \<Rightarrow> bool" where
  "below L = (\<lambda>(d, r). length d \<le> L + 1
     \<and> ranges_ok (\<lambda>a b w. 128 \<le> unat a \<and> unat a < unat b \<and> unat b \<le> L + 1) r)"

lemma below_lookup: "below L m \<Longrightarrow> L < unat f \<Longrightarrow> msg_lookup m f = 0"
  by (auto simp: below_def msg_lookup_def word_le_nat_alt word_less_nat_alt
      intro!: scan_ranges_zero elim!: ranges_ok_mono split: prod.splits)

lemma ranges_ok_none: "ranges_ok Q r \<Longrightarrow> (\<And>a b w. \<not> Q a b w) \<Longrightarrow> r = []"
  by (induction Q r rule: ranges_ok.induct) auto

lemma below_no_ranges: "below L (d, r) \<Longrightarrow> L < 128 \<Longrightarrow> r = []"
  using ranges_ok_none[of "\<lambda>a b w. 128 \<le> unat a \<and> unat a < unat b \<and> unat b \<le> L + 1" r] by (auto simp: below_def)

lemma add_direct_below:
  assumes "below L (d, r)" "L < unat f" "unat f < 128"
  shows "below (unat f) (add_directly_indexed_field f m d, r)"
    "msg_lookup (add_directly_indexed_field f m d, r) g = (if g = f then kAllowed OR m else msg_lookup (d, r) g)"
proof -
  have r: "r = []" using below_no_ranges assms by simp
  then show "below (unat f) (add_directly_indexed_field f m d, r)"
    using assms by (simp add: below_def length_add_direct)
  show "msg_lookup (add_directly_indexed_field f m d, r) g = (if g = f then kAllowed OR m else msg_lookup (d, r) g)"
    using assms(1,2) r
    by (auto simp: msg_lookup_def length_add_direct nth_add_direct below_def simp flip: word_unat_eq_iff)
qed

lemma add_range_below:
  assumes "below L (d, r)" "L < unat a" "128 \<le> unat a" "a < b"
  shows "below (unat b - 1) (d, add_range a b m r)"
    "msg_lookup (d, add_range a b m r) g = (if a \<le> g \<and> g < b then kAllowed OR m else msg_lookup (d, r) g)"
proof -
  have ok: "ranges_ok (\<lambda>a b w. 128 \<le> unat a \<and> unat a < unat b \<and> unat b \<le> L + 1) r" "length d \<le> L + 1"
    using assms(1) by (auto simp: below_def)
  have ab: "unat a < unat b" using assms(4) by (simp add: word_less_nat_alt)
  from ok(1) have "ranges_ok (\<lambda>a b w. 128 \<le> unat a \<and> unat a < unat b \<and> unat b \<le> unat c - 1 + 1) r"
    if "unat a < unat c" for c by (rule ranges_ok_mono) (use that assms(2) in auto)
  from this[OF ab] show "below (unat b - 1) (d, add_range a b m r)"
    using ok(2) assms(2,3) ab by (auto simp: below_def add_range_def ranges_ok_append)
  have "ranges_ok (\<lambda>a b w. \<not> (a \<le> g \<and> g < b)) r" if "L < unat g"
    using ok(1) by (rule ranges_ok_mono) (use that in \<open>auto simp: word_less_nat_alt word_le_nat_alt\<close>)
  then show "msg_lookup (d, add_range a b m r) g = (if a \<le> g \<and> g < b then kAllowed OR m else msg_lookup (d, r) g)"
    using assms(2) ok
    by (auto simp: msg_lookup_def add_range_def scan_ranges_append[OF ok(1)] word_less_nat_alt word_le_nat_alt
        scan_ranges_zero)
qed

lemma kAllowed_twice: "kAllowed OR (kAllowed OR m) = kAllowed OR m"
  by simp

lemma add_direct_range_below:
  assumes "below L (d, r)" "L < unat a" "add_direct_range a e d = (d', i)"
  shows "unat i = max (unat a) (min (unat e) 128) \<and> below (if i = a then L else unat i - 1) (d', r) \<and>
    msg_lookup (d', r) g = (if a \<le> g \<and> g < i then kAllowed OR kSimpleField else msg_lookup (d, r) g)"
  using assms
proof (induction a e d arbitrary: L rule: add_direct_range.induct)
  case (1 a e d)
  show ?case
  proof (cases "a < e \<and> a < kDirectlyIndexLimit")
    case True
    then have a: "unat a < unat e" "unat a < 128" by (auto simp: word_less_nat_alt kDirectlyIndexLimit_def)
    then have a1: "unat (a + 1) = unat a + 1" by (simp add: unat_word_ariths)
    let ?d = "add_directly_indexed_field a (kAllowed OR kSimpleField) d"
    note ad = add_direct_below[OF 1(2,3) a(2), of "kAllowed OR kSimpleField"]
    have rec: "add_direct_range (a + 1) e ?d = (d', i)" using 1(4) True by (subst (asm) add_direct_range.simps) simp
    have IH: "unat i = max (unat (a + 1)) (min (unat e) 128)" "below (if i = a + 1 then unat a else unat i - 1) (d', r)"
      "msg_lookup (d', r) g = (if a + 1 \<le> g \<and> g < i then kAllowed OR kSimpleField else msg_lookup (?d, r) g)"
      using 1(1)[OF True ad(1) _ rec] a1 by auto
    have i: "unat i = max (unat a) (min (unat e) 128)" "unat a < unat i" "i \<noteq> a" using IH(1) a a1 by auto
    moreover have "below (unat i - 1) (d', r)" using IH(2) a1 by (auto split: if_splits)
    moreover have "a \<le> g \<and> g < i \<longleftrightarrow> (a + 1 \<le> g \<and> g < i) \<or> g = a"
      using i(2) a1 by (auto simp: word_less_nat_alt word_le_nat_alt word_unat_eq_iff)
    ultimately show ?thesis using IH(3) ad(2)[of g] by (auto simp: kAllowed_twice)
  next
    case False
    then have "d' = d" "i = a" using 1(4) by (auto simp: add_direct_range.simps[of a e d])
    moreover have "min (unat e) 128 \<le> unat a"
      using False by (auto simp: word_less_nat_alt kDirectlyIndexLimit_def)
    ultimately show ?thesis using 1(2) by (auto simp: max_def)
  qed
qed

subsection \<open>The loader follows the generator\<close>

definition spec_word :: "gen_op list \<Rightarrow> u32 \<Rightarrow> u32" where
  "spec_word ops f = (case msg_allows ops f of None \<Rightarrow> 0 | Some m \<Rightarrow> kAllowed OR m)"

definition sim :: "LoadState \<Rightarrow> gen_op list list \<Rightarrow> gen_op list \<Rightarrow> nat \<Rightarrow> bool" where
  "sim s done cur L \<longleftrightarrow>
     (\<exists>msgs. load_inv s msgs \<and> list_all2 (\<lambda>m ops. \<forall>f. msg_lookup m f = spec_word ops f) msgs done)
     \<and> below L (direct_indexed_fields s, ranges s)
     \<and> (\<forall>f. msg_lookup (direct_indexed_fields s, ranges s) f = spec_word cur f)"

lemma simI:
  assumes "load_inv s msgs" "list_all2 (\<lambda>m ops. \<forall>f. msg_lookup m f = spec_word ops f) msgs done"
    "below L (direct_indexed_fields s, ranges s)"
    "\<And>f. spec_word cur f = msg_lookup (direct_indexed_fields s, ranges s) f"
  shows "sim s done cur L"
  using assms by (auto simp: sim_def)

lemma simE:
  assumes "sim s done cur L"
  obtains msgs where "load_inv s msgs" "list_all2 (\<lambda>m ops. \<forall>f. msg_lookup m f = spec_word ops f) msgs done"
    "below L (direct_indexed_fields s, ranges s)"
    "\<And>f. msg_lookup (direct_indexed_fields s, ranges s) f = spec_word cur f"
  using assms by (auto simp: sim_def)

lemma kAllowed_nonzero [simp]: "kAllowed OR m \<noteq> 0"
proof
  assume "kAllowed OR m = 0"
  then have "bit (kAllowed OR m) 31 = bit (0 :: u32) 31" by simp
  then show False by (simp add: kAllowed_def bit_simps)
qed

lemma msg_allows_snoc:
  "msg_allows (ops @ [op]) f = (case msg_allows ops f of Some m \<Rightarrow> Some m | None \<Rightarrow> op_allows op f)"
  by (induction ops) (auto split: option.splits)

lemma spec_word_snoc:
  assumes "\<And>g. op_allows op g = (if P g then Some m else None)" and "P f \<Longrightarrow> spec_word ops f = 0"
  shows "spec_word (ops @ [op]) f = (if P f then kAllowed OR m else spec_word ops f)"
  using assms by (auto simp: spec_word_def msg_allows_snoc split: option.splits)

lemma sim_is_eom [simp]: "sim (s\<lparr>is_eom := e\<rparr>) done cur L = sim s done cur L"
  by (simp add: sim_def)

lemma sim_max: "sim s done cur L \<Longrightarrow> sim (s\<lparr>ls_max_msg_index := max (ls_max_msg_index s) m\<rparr>) done cur L"
  by (auto simp: sim_def intro: load_inv_max)

lemma add_field_below:
  assumes "below L (direct_indexed_fields s, ranges s)" "L < unat f" "unat f < 2 ^ 29"
  shows "below (unat f) (direct_indexed_fields (add_field f m s), ranges (add_field f m s))"
    "msg_lookup (direct_indexed_fields (add_field f m s), ranges (add_field f m s)) g =
      (if g = f then kAllowed OR m else msg_lookup (direct_indexed_fields s, ranges s) g)"
proof -
  have f1: "unat (f + 1) = unat f + 1" "128 \<le> unat f \<or> unat f < 128" using assms(3) by (auto simp: unat_word_ariths)
  then have lt: "f < f + 1" by (simp add: word_less_nat_alt)
  have eq: "f \<le> g \<and> g < f + 1 \<longleftrightarrow> g = f" for g
    using f1(1) by (auto simp: word_less_nat_alt word_le_nat_alt word_unat_eq_iff)
  show "below (unat f) (direct_indexed_fields (add_field f m s), ranges (add_field f m s))"
    "msg_lookup (direct_indexed_fields (add_field f m s), ranges (add_field f m s)) g =
      (if g = f then kAllowed OR m else msg_lookup (direct_indexed_fields s, ranges s) g)"
    using add_direct_below[OF assms(1,2), of m] add_range_below[OF assms(1,2) _ lt, of m] f1 eq
    by (auto simp: add_field_def kDirectlyIndexLimit_def word_less_nat_alt split: if_splits)
qed

lemma sim_add_field:
  assumes "sim s done cur L" "L < unat f" "unat f < 2 ^ 29" "state_ok (ls_max_msg_index s) (kAllowed OR m)"
    and "\<And>g. op_allows op g = (if g = f then Some m else None)"
  shows "sim (add_field f m s) done (cur @ [op]) (unat f)"
proof -
  from assms(1) obtain msgs where i: "load_inv s msgs"
      "list_all2 (\<lambda>m ops. \<forall>f. msg_lookup m f = spec_word ops f) msgs done"
      "below L (direct_indexed_fields s, ranges s)"
      "\<And>f. msg_lookup (direct_indexed_fields s, ranges s) f = spec_word cur f" by (rule simE) blast
  note ab = add_field_below[OF i(3) assms(2,3), of m]
  have "spec_word (cur @ [op]) g = msg_lookup (direct_indexed_fields (add_field f m s), ranges (add_field f m s)) g" for g
    using spec_word_snoc[OF assms(5), of g cur] below_lookup[OF i(3) assms(2)] ab(2)[of g] i(4) by simp
  then show ?thesis using simI[OF load_inv_add_field[OF i(1) assms(4)] i(2) ab(1)] by blast
qed

lemma sim_add_field_range:
  assumes "sim s done cur L" "L < unat a" "unat a + unat n < 2 ^ 32" "n > 0"
  shows "sim (add_field_range a n s) done (cur @ [RangeOp a n]) (unat a + unat n - 1)"
proof -
  obtain d i where di: "add_direct_range a (a + n) (direct_indexed_fields s) = (d, i)" by fastforce
  have b: "below L (direct_indexed_fields s, ranges s)" using assms(1) by (simp add: sim_def)
  have e: "unat (a + n) = unat a + unat n" using assms(3) by (simp add: unat_word_ariths)
  have n: "0 < unat n" using assms(4) by (simp add: word_less_nat_alt)
  note dr = add_direct_range_below[OF b assms(2) di]
  define s' where "s' = add_field_range a n s"
  have "below (unat a + unat n - 1) (direct_indexed_fields s', ranges s') \<and>
    msg_lookup (direct_indexed_fields s', ranges s') g =
      (if unat a \<le> unat g \<and> unat g < unat a + unat n then kAllowed OR kSimpleField
       else msg_lookup (direct_indexed_fields s, ranges s) g)" for g
  proof (cases "i < a + n")
    case True
    have i: "128 \<le> unat i" "unat a \<le> unat i" "unat i < unat a + unat n" "(if i = a then L else unat i - 1) < unat i"
      using dr True e assms(2) by (auto simp: word_less_nat_alt)
    note ar = add_range_below[OF _ i(4,1) True, of d "ranges s" kSimpleField]
    show ?thesis
      using ar dr[of g] i e by (auto simp: s'_def add_field_range_def di word_less_nat_alt word_le_nat_alt)
  next
    case False
    then have "i = a + n" "i \<noteq> a" using dr e n by (auto simp: word_less_nat_alt word_unat_eq_iff)
    then show ?thesis
      using False dr[of g] e by (auto simp: s'_def add_field_range_def di word_less_nat_alt word_le_nat_alt)
  qed
  then have *: "below (unat a + unat n - 1) (direct_indexed_fields s', ranges s')"
    "\<And>g. msg_lookup (direct_indexed_fields s', ranges s') g =
      (if unat a \<le> unat g \<and> unat g < unat a + unat n then kAllowed OR kSimpleField
       else msg_lookup (direct_indexed_fields s, ranges s) g)" by blast+
  from assms(1) obtain msgs where i: "load_inv s msgs"
      "list_all2 (\<lambda>m ops. \<forall>f. msg_lookup m f = spec_word ops f) msgs done"
      "\<And>f. msg_lookup (direct_indexed_fields s, ranges s) f = spec_word cur f" by (rule simE) blast
  have "spec_word (cur @ [RangeOp a n]) g = msg_lookup (direct_indexed_fields s', ranges s') g" for g
    using spec_word_snoc[of "RangeOp a n" "\<lambda>g. unat a \<le> unat g \<and> unat g < unat a + unat n" kSimpleField g cur]
      below_lookup[OF b, of g] assms(2) *(2)[of g] i(3) by auto
  then show ?thesis
    using simI[OF load_inv_add_field_range[OF i(1)] i(2)] *(1) unfolding s'_def by blast
qed

lemma sim_end_of_message:
  "sim s done cur L \<Longrightarrow> sim (end_of_message s) (done @ [cur]) [] 0"
proof -
  assume "sim s done cur L"
  then obtain msgs where i: "load_inv s msgs"
      "list_all2 (\<lambda>m ops. \<forall>f. msg_lookup m f = spec_word ops f) msgs done"
      "\<And>f. msg_lookup (direct_indexed_fields s, ranges s) f = spec_word cur f" by (rule simE) blast
  have "list_all2 (\<lambda>m ops. \<forall>f. msg_lookup m f = spec_word ops f) (msgs @ [(direct_indexed_fields s, ranges s)]) (done @ [cur])"
    using i(2,3) by (intro list_all2_appendI) simp_all
  then show ?thesis
    by (rule simI[OF load_inv_end_of_message[OF i(1)]])
      (simp_all add: below_def end_of_message_def msg_lookup_def spec_word_def)
qed

text \<open>One generator call and the bytecode words it appends.\<close>

lemma load_op:
  assumes "gen_step op g = Some g'" "op_wf op" "sim s done cur (unat (last_field_id g))"
    and "ls_max_msg_index s = max_msg_index g"
  shows "\<exists>s'. load_loop (op_words op @ ws) s = load_loop ws s'
      \<and> sim s' (if op = EndOp then done @ [cur] else done) (if op = EndOp then [] else cur @ [op]) (unat (last_field_id g'))
      \<and> ls_max_msg_index s' = max_msg_index g' \<and> (endmessage_called g' \<longrightarrow> is_eom s')"
proof -
  note gs = gen_step_fields[OF assms(1)]
  define t where "t = s\<lparr>is_eom := (op = EndOp)\<rparr>"
  have t: "sim t done cur (unat (last_field_id g))" "ls_max_msg_index t = max_msg_index g" "is_eom t = (op = EndOp)"
    using assms(3,4) by (simp_all add: t_def)
  have first: "unat (last_field_id g) < unat (op_first op)" if "op \<noteq> EndOp"
    using gs(6)[OF that] by (simp add: word_less_nat_alt)
  have nz: "op_first op \<noteq> 0" if "op \<noteq> EndOp" using gs(6)[OF that] by auto
  have eom: "is_eom (add_field f m u) = is_eom u" "is_eom (add_field_range f n u) = is_eom u"
    "ls_max_msg_index (add_field f m u) = ls_max_msg_index u"
    "ls_max_msg_index (add_field_range f n u) = ls_max_msg_index u"
    "is_eom (end_of_message u) = is_eom u" "ls_max_msg_index (end_of_message u) = ls_max_msg_index u" for f m n u
    by (simp_all add: add_field_def add_field_range_def end_of_message_def Let_def split: prod.splits)
  show ?thesis
  proof (cases op)
    case (SimpleOp f)
    then have "load_loop (op_words op @ ws) s = load_loop ws (add_field f kSimpleField t)"
      using nz assms(2) by (simp add: opcode_defs word_decode drop_push_bit t_def Let_def)
    then show ?thesis
      using sim_add_field[OF t(1) first, of kSimpleField op] SimpleOp assms(2) gs(2,3,5) eom t by auto
  next
    case (StringOp f)
    then have "load_loop (op_words op @ ws) s = load_loop ws (add_field f kFilterStringField t)"
      using nz assms(2) by (simp add: opcode_defs word_decode drop_push_bit t_def Let_def)
    then show ?thesis
      using sim_add_field[OF t(1) first, of kFilterStringField op] StringOp assms(2) gs(2,3,5) eom t by auto
  next
    case (NestedOp f i)
    let ?u = "t\<lparr>ls_max_msg_index := max (ls_max_msg_index t) i\<rparr>"
    have "load_loop (op_words op @ ws) s = load_loop ws (add_field f i ?u)"
      using NestedOp nz assms(2) by (simp add: opcode_defs word_decode drop_push_bit t_def Let_def)
    then show ?thesis
      using sim_add_field[OF sim_max[OF t(1)] first, of i i op] state_ok_field[of i] NestedOp assms(2) gs(2,3,5) eom t by auto
  next
    case (RangeOp a n)
    then have l: "load_loop (op_words op @ ws) s = load_loop ws (add_field_range a n t)"
      using nz assms(2) by (simp add: opcode_defs word_decode drop_push_bit t_def Let_def)
    have "unat (a + n - 1) = unat a + unat n - 1"
    proof -
      have "a + n - 1 = of_nat (unat a + unat n - 1)" using gs(7)[OF RangeOp] by (simp add: of_nat_diff word_less_nat_alt)
      moreover have "unat a + unat n - 1 < 2 ^ LENGTH(32)" using assms(2) RangeOp by auto
      ultimately show ?thesis by (simp only: unat_of_nat_less)
    qed
    then show ?thesis
      using l sim_add_field_range[OF t(1) first, of n] RangeOp assms(2) gs(2,3,5,7) eom t by auto
  next
    case EndOp
    then have "load_loop (op_words op @ ws) s = load_loop ws (end_of_message t)"
      by (simp add: opcode_defs t_def Let_def)
    then show ?thesis using sim_end_of_message[OF t(1)] EndOp gs(2,3) eom t by auto
  qed
qed

lemma load_ops:
  assumes "gen_run ops g = Some g'" "list_all op_wf ops" "sim s done cur (unat (last_field_id g))"
    and "ls_max_msg_index s = max_msg_index g" "endmessage_called g \<longrightarrow> is_eom s" "num_messages g = of_nat (length done)"
  shows "\<exists>s' cur'. load_loop (concat (map op_words ops)) s = Some s'
      \<and> sim s' (done @ gen_messages cur ops) cur' (unat (last_field_id g'))
      \<and> ls_max_msg_index s' = max_msg_index g' \<and> (endmessage_called g' \<longrightarrow> is_eom s')
      \<and> num_messages g' = of_nat (length (done @ gen_messages cur ops))
      \<and> bytecode g' = bytecode g @ concat (map op_words ops)"
  using assms
proof (induction ops arbitrary: g s "done" cur)
  case (Cons op ops)
  obtain g1 where g1: "gen_step op g = Some g1" "gen_run ops g1 = Some g'"
    using Cons.prems(1) by (auto split: option.splits)
  have "op_wf op" using Cons.prems(2) by simp
  from load_op[OF g1(1) this Cons.prems(3,4), of "concat (map op_words ops)"] obtain s1 where s1:
    "load_loop (op_words op @ concat (map op_words ops)) s = load_loop (concat (map op_words ops)) s1"
    "sim s1 (if op = EndOp then done @ [cur] else done) (if op = EndOp then [] else cur @ [op]) (unat (last_field_id g1))"
    "ls_max_msg_index s1 = max_msg_index g1" "endmessage_called g1 \<longrightarrow> is_eom s1" by blast
  have n: "num_messages g1 = of_nat (length (if op = EndOp then done @ [cur] else done))"
    using gen_step_fields(4)[OF g1(1)] Cons.prems(6) by (simp add: add.commute)
  have m: "gen_messages cur (op # ops) = (if op = EndOp then cur # gen_messages [] ops else gen_messages (cur @ [op]) ops)"
    by (cases op) auto
  show ?case
    using Cons.IH[OF g1(2) _ s1(2,3,4) n] Cons.prems(2) s1(1) gen_step_fields(1)[OF g1(1)]
    by (cases "op = EndOp") (auto simp: m)
qed auto

lemma sim_new: "sim new_load_state [] [] 0"
  by (rule simI[OF load_inv_new]) (simp_all add: below_def new_load_state_def msg_lookup_def spec_word_def)

text \<open>The field word of an allowed field determines the answer of the lookup.\<close>

lemma bit_kAllowed: "bit kAllowed n \<longleftrightarrow> n = 31"
  unfolding kAllowed_def bit_push_bit_iff by (auto simp: bit_1_iff)

lemma field_state_result_word:
  assumes "unat m < 2 ^ 31"
  shows "field_state_result (kAllowed OR m) = \<lparr>q_allowed = True, nested_msg_index = m\<rparr>"
proof -
  have "(kAllowed OR m) AND NOT kAllowed = m"
    using bit_imp_less_exp[OF assms] by (intro bit_word_eqI) (auto simp: bit_simps bit_kAllowed)
  moreover have "(kAllowed OR m) AND kAllowed = kAllowed" by (rule bit_word_eqI) (auto simp: bit_simps)
  ultimately show ?thesis by (simp add: field_state_result_def kAllowed_def)
qed

lemma op_allows_bound:
  "op_allows op f = Some m \<Longrightarrow> m = kSimpleField \<or> m = kFilterStringField \<or> (\<exists>i. op = NestedOp i m)"
  by (cases op) (auto split: if_splits)

lemma msg_allows_bound:
  "msg_allows ops f = Some m \<Longrightarrow> m = kSimpleField \<or> m = kFilterStringField \<or> (\<exists>i. NestedOp i m \<in> set ops)"
  by (induction ops) (auto split: option.splits dest: op_allows_bound)

lemma gen_messages_set: "ms \<in> set (gen_messages cur ops) \<Longrightarrow> set ms \<subseteq> set cur \<union> set ops"
  by (induction cur ops rule: gen_messages.induct) auto

lemma gen_run_max:
  "gen_run ops g = Some g' \<Longrightarrow> max_msg_index g \<le> max_msg_index g' \<and> (\<forall>i m. NestedOp i m \<in> set ops \<longrightarrow> m \<le> max_msg_index g')"
proof (induction ops arbitrary: g)
  case (Cons op ops)
  then obtain g1 where g1: "gen_step op g = Some g1" "gen_run ops g1 = Some g'" by (auto split: option.splits)
  have "max_msg_index g1 = op_max op (max_msg_index g)" by (rule gen_step_fields(3)[OF g1(1)])
  then show ?case using Cons.IH[OF g1(2)] by (cases op) auto
qed simp

lemma packed_words:
  assumes "length ws < 2 ^ 50"
  shows "\<exists>b. PackedVarInt_Append_all junk (ws :: u32 list) (Reset_packed junk) = Some b
      \<and> packed_values kVarInt (packed_data b) = (map ucast ws, False)"
proof -
  have "length (concat (map WriteVarInt ws)) \<le> 5 * length ws"
    by (induction ws) (use length_WriteVarInt_u32 in \<open>auto intro: add_mono\<close>)
  with PackedVarInt_Append_all_ok[OF Reset_packed_ok(1), where vs = ws and junk = junk] assms obtain b where
    "PackedVarInt_Append_all junk ws (Reset_packed junk) = Some b" "packed_data b = concat (map WriteVarInt ws)"
    by (auto simp: Reset_packed_ok)
  moreover have "concat (map WriteVarInt ws) = concat (map WriteVarInt (map ucast ws :: u64 list))"
    by (simp add: comp_def WriteVarInt_ucast)
  ultimately show ?thesis using packed_values_varint[of "map ucast ws"] by metis
qed

lemma length_enc_msgs: "length msgs \<le> length (concat (map enc_msg msgs))"
  by (induction msgs) (auto simp: enc_msg_def split: prod.splits)

lemma load_generated:
  assumes "gen_run ops new_generator = Some g" "list_all op_wf ops"
  obtains s msgs where "load_loop (bytecode g) new_load_state = Some s" "load_inv s msgs"
    "list_all2 (\<lambda>m ops. \<forall>f. msg_lookup m f = spec_word ops f) msgs (gen_messages [] ops)"
    "ls_max_msg_index s = max_msg_index g" "endmessage_called g \<longrightarrow> is_eom s"
    "num_messages g = of_nat (length msgs)" "load_size s \<le> 129 * length (bytecode g)"
proof -
  have "ls_max_msg_index new_load_state = max_msg_index new_generator"
    "endmessage_called new_generator \<longrightarrow> is_eom new_load_state" "num_messages new_generator = of_nat (length [])"
    "sim new_load_state [] [] (unat (last_field_id new_generator))" "bytecode new_generator = []"
    using sim_new by (simp_all add: new_load_state_def new_generator_def)
  with load_ops[OF assms, of new_load_state "[]" "[]"] obtain s cur where s:
    "load_loop (bytecode g) new_load_state = Some s" "sim s (gen_messages [] ops) cur (unat (last_field_id g))"
    "ls_max_msg_index s = max_msg_index g" "endmessage_called g \<longrightarrow> is_eom s"
    "num_messages g = of_nat (length (gen_messages [] ops))" by auto
  from s(2) obtain msgs where msgs: "load_inv s msgs"
      "list_all2 (\<lambda>m ops. \<forall>f. msg_lookup m f = spec_word ops f) msgs (gen_messages [] ops)" by (rule simE) blast
  have "load_size new_load_state = 0" by (simp add: load_size_def new_load_state_def)
  then have "load_size s \<le> 129 * length (bytecode g)" using load_loop_inv[OF s(1) load_inv_new] by auto
  then show thesis using that s msgs list_all2_lengthD[OF msgs(2)] by auto
qed

lemma ucast_u32_u64: "ucast (ucast (x :: u32) :: u64) = x"
  by (rule bit_word_eqI) (auto simp: bit_simps)

lemma LoadInternal_Serialize:
  assumes "Serialize junk g = Some bs" "length (bytecode g) < 2 ^ 23"
    and "load_loop (bytecode g) new_load_state = Some s" "is_eom s"
    and "ls_max_msg_index s = 0 \<or> unat (ls_max_msg_index s) < length (message_offset s)"
  shows "LoadInternal bs = Some \<lparr>fwords = fwords s, message_offset = message_offset s @ [of_nat (length (fwords s))]\<rparr>"
proof -
  let ?ws = "bytecode g @ [bytecode_checksum (bytecode g)]"
  obtain b where "PackedVarInt_Append_all junk ?ws (Reset_packed junk) = Some b"
    "packed_values kVarInt (packed_data b) = (map ucast ?ws, False)"
    using packed_words[of ?ws junk] assms(2) by auto
  then have "packed_values kVarInt bs = (map ucast ?ws, False)"
    using assms(1) by (auto simp: Serialize_def split: if_splits)
  moreover have "map ucast (map (ucast :: u32 \<Rightarrow> u64) ?ws) = ?ws"
    by (simp add: comp_def ucast_u32_u64)
  ultimately show ?thesis
    using assms(3-5) by (auto simp: LoadInternal_def Let_def simp del: map_map map_append)
qed

lemma Query_generated:
  assumes "tables p msgs mx" "list_all2 (\<lambda>m ops. \<forall>f. msg_lookup m f = spec_word ops f) msgs (gen_messages [] ops)"
    and "\<And>i m. NestedOp i m \<in> set ops \<Longrightarrow> unat m < 2 ^ 31"
  shows "Query p i f = Some (spec_query ops i f)"
proof -
  have len: "length msgs = length (gen_messages [] ops)" using assms(2) by (rule list_all2_lengthD)
  have 0: "field_state_result 0 = \<lparr>q_allowed = False, nested_msg_index = 0\<rparr>" by (simp add: field_state_result_def)
  have "field_state_result (spec_word ms f) =
      (case msg_allows ms f of None \<Rightarrow> \<lparr>q_allowed = False, nested_msg_index = 0\<rparr>
       | Some m \<Rightarrow> \<lparr>q_allowed = True, nested_msg_index = m\<rparr>)" if "ms \<in> set (gen_messages [] ops)" for ms
  proof (cases "msg_allows ms f")
    case (Some m)
    have "unat m < 2 ^ 31"
      using msg_allows_bound[OF Some] gen_messages_set[OF that] assms(3)
      by (auto simp: kSimpleField_def kFilterStringField_def)
    then show ?thesis using Some by (simp add: spec_word_def field_state_result_word)
  qed (simp add: spec_word_def 0)
  moreover have "msg_lookup (msgs ! unat i) f = spec_word (gen_messages [] ops ! unat i) f" if "unat i < length msgs"
    using list_all2_nthD[OF assms(2) that] by simp
  ultimately show ?thesis
    unfolding Query_tables[OF assms(1)] spec_query_def by (auto simp: len)
qed



end
