(* ===== verification/Message_Tokenizer.thy ===== *)
theory Message_Tokenizer
  imports Proto_Utils
begin

text \<open>
  The byte-at-a-time tokenizer of \<^verbatim>\<open>src/protozero/filtering/message_tokenizer.h\<close>. The members of
  \<^verbatim>\<open>MessageTokenizer\<close> are the fields of a record; the shift counters, which never exceed 70, are
  natural numbers. The reference is \<open>parse_token\<close>, which reads a whole field preamble with
  \<^verbatim>\<open>ParseVarInt\<close>.
\<close>

datatype TokenizerState = kFieldPreamble | kVarIntValue | kFixedIntValue | kLenDelimited
  | kInvalidFieldType | kMessageTooBig | kInvalidVarInt

record MessageTokenizer =
  tk_state :: TokenizerState
  tk_field_id :: u32
  varint :: u64
  varint_shift :: nat
  fixed_int_shift :: nat
  fixed_int_bits :: nat
  fixed_int_value :: u64

record Token =
  t_field_id :: u32
  t_type :: ProtoWireType
  t_value :: u64

definition new_tokenizer :: MessageTokenizer where
  "new_tokenizer = \<lparr>tk_state = kFieldPreamble, tk_field_id = 0, varint = 0, varint_shift = 0,
     fixed_int_shift = 0, fixed_int_bits = 0, fixed_int_value = 0\<rparr>"

definition null_token :: Token where
  "null_token = \<lparr>t_field_id = 0, t_type = kVarInt, t_value = 0\<rparr>"

definition t_valid :: "Token \<Rightarrow> bool" where
  "t_valid t \<longleftrightarrow> t_field_id t \<noteq> 0"

definition push_fixed :: "u8 \<Rightarrow> MessageTokenizer \<Rightarrow> Token \<times> MessageTokenizer" where
  "push_fixed octet tk =
     (let tk = tk\<lparr>fixed_int_value := fixed_int_value tk OR push_bit (fixed_int_shift tk) (ucast octet),
                  fixed_int_shift := fixed_int_shift tk + 8\<rparr>
      in if fixed_int_shift tk < fixed_int_bits tk then (null_token, tk)
         else (\<lparr>t_field_id = tk_field_id tk, t_type = (if fixed_int_bits tk = 32 then kFixed32 else kFixed64),
                t_value = fixed_int_value tk\<rparr>,
               tk\<lparr>fixed_int_value := 0, fixed_int_shift := 0, fixed_int_bits := 0, tk_state := kFieldPreamble\<rparr>))"

text \<open>The \<^verbatim>\<open>switch (state_)\<close> once a varint is complete.\<close>

definition push_varint :: "u64 \<Rightarrow> MessageTokenizer \<Rightarrow> Token \<times> MessageTokenizer" where
  "push_varint v tk =
     (case tk_state tk of
        kFieldPreamble \<Rightarrow>
          (let field_type = v AND 7; tk = tk\<lparr>tk_field_id := ucast (drop_bit 3 v)\<rparr> in
           (null_token,
            if field_type = ucast (wire_type_code kVarInt) then tk\<lparr>tk_state := kVarIntValue\<rparr>
            else if field_type = ucast (wire_type_code kFixed32) \<or> field_type = ucast (wire_type_code kFixed64) then
              tk\<lparr>tk_state := kFixedIntValue, fixed_int_shift := 0, fixed_int_value := 0,
                 fixed_int_bits := (if field_type = ucast (wire_type_code kFixed32) then 32 else 64)\<rparr>
            else if field_type = ucast (wire_type_code kLengthDelimited) then tk\<lparr>tk_state := kLenDelimited\<rparr>
            else tk\<lparr>tk_state := kInvalidFieldType\<rparr>))
      | kVarIntValue \<Rightarrow>
          (\<lparr>t_field_id = tk_field_id tk, t_type = kVarInt, t_value = v\<rparr>, tk\<lparr>tk_state := kFieldPreamble\<rparr>)
      | kLenDelimited \<Rightarrow>
          (if kMaxMessageLength < unat v then (null_token, tk\<lparr>tk_state := kMessageTooBig\<rparr>)
           else (\<lparr>t_field_id = tk_field_id tk, t_type = kLengthDelimited, t_value = v\<rparr>,
                 tk\<lparr>tk_state := kFieldPreamble\<rparr>))
      | _ \<Rightarrow> (null_token, tk))"

definition Push :: "u8 \<Rightarrow> MessageTokenizer \<Rightarrow> Token \<times> MessageTokenizer" where
  "Push octet tk =
     (if tk_state tk = kFixedIntValue then push_fixed octet tk
      else
        let tk = tk\<lparr>varint := varint tk OR push_bit (varint_shift tk) (ucast (octet AND 0x7F))\<rparr> in
        if octet AND 0x80 \<noteq> 0 then
          let tk = tk\<lparr>varint_shift := varint_shift tk + 7\<rparr> in
          (null_token, if 64 \<le> varint_shift tk then tk\<lparr>varint_shift := 0, tk_state := kInvalidVarInt\<rparr> else tk)
        else push_varint (varint tk) (tk\<lparr>varint := 0, varint_shift := 0\<rparr>))"

definition idle :: "MessageTokenizer \<Rightarrow> bool" where
  "idle tk \<longleftrightarrow> tk_state tk = kFieldPreamble \<and> varint_shift tk = 0 \<and> fixed_int_shift tk = 0"

fun Push_all :: "bytes \<Rightarrow> MessageTokenizer \<Rightarrow> Token list \<times> MessageTokenizer" where
  "Push_all [] tk = ([], tk)"
| "Push_all (b # bs) tk =
     (case Push b tk of (t, tk') \<Rightarrow> case Push_all bs tk' of (ts, tk'') \<Rightarrow> (t # ts, tk''))"

subsection \<open>The reference: whole preambles\<close>

definition parse_token :: "bytes \<Rightarrow> (Token \<times> nat) option" where
  "parse_token bs =
     (case ParseVarInt bs of (tag, n) \<Rightarrow>
        if n = 0 then None
        else
          let fid = ucast (drop_bit 3 tag); ty = tag AND 7; rest = drop n bs in
          if ty = ucast (wire_type_code kVarInt) then
            (case ParseVarInt rest of (v, k) \<Rightarrow>
               if k = 0 then None else Some (\<lparr>t_field_id = fid, t_type = kVarInt, t_value = v\<rparr>, n + k))
          else if ty = ucast (wire_type_code kFixed32) then
            (if length rest < 4 then None
             else Some (\<lparr>t_field_id = fid, t_type = kFixed32, t_value = le_word (take 4 rest)\<rparr>, n + 4))
          else if ty = ucast (wire_type_code kFixed64) then
            (if length rest < 8 then None
             else Some (\<lparr>t_field_id = fid, t_type = kFixed64, t_value = le_word (take 8 rest)\<rparr>, n + 8))
          else if ty = ucast (wire_type_code kLengthDelimited) then
            (case ParseVarInt rest of (v, k) \<Rightarrow>
               if k = 0 \<or> kMaxMessageLength < unat v then None
               else Some (\<lparr>t_field_id = fid, t_type = kLengthDelimited, t_value = v\<rparr>, n + k))
          else None)"

subsection \<open>Varints\<close>

definition dead :: "MessageTokenizer \<Rightarrow> bool" where
  "dead tk \<longleftrightarrow> tk_state tk \<in> {kInvalidFieldType, kMessageTooBig, kInvalidVarInt}"

lemma Push_all_append:
  "Push_all (xs @ ys) tk = (case Push_all xs tk of (ts, tk') \<Rightarrow> case Push_all ys tk' of (us, tk'') \<Rightarrow> (ts @ us, tk''))"
  by (induction xs arbitrary: tk) (auto split: prod.splits)

lemma Push_dead: "dead tk \<Longrightarrow> \<exists>tk'. Push b tk = (null_token, tk') \<and> dead tk'"
  by (auto simp: dead_def Push_def push_varint_def Let_def)

lemma Push_all_dead: "dead tk \<Longrightarrow> \<exists>tk'. Push_all bs tk = (replicate (length bs) null_token, tk') \<and> dead tk'"
proof (induction bs arbitrary: tk)
  case (Cons b bs)
  obtain tk' where "Push b tk = (null_token, tk')" "dead tk'" using Push_dead[OF Cons.prems] by blast
  then show ?case using Cons.IH[of tk'] by auto
qed simp

lemma Push_all_varint:
  assumes "tk_state tk \<noteq> kFixedIntValue" "varint_shift tk < 64"
    and "ParseVarInt_loop bs (varint_shift tk) pos (varint tk) = (v, n)" "n \<noteq> 0"
  shows "Push_all (take (n - pos) bs) tk =
      (case push_varint v (tk\<lparr>varint := 0, varint_shift := 0\<rparr>) of (t, tk') \<Rightarrow>
         (replicate (n - pos - 1) null_token @ [t], tk'))"
  using assms
proof (induction bs arbitrary: tk pos)
  case (Cons b bs)
  define tk1 where "tk1 = tk\<lparr>varint := varint tk OR push_bit (varint_shift tk) (ucast (b AND 0x7F))\<rparr>"
  show ?case
  proof (cases "b AND 0x80 = 0")
    case True
    then have "v = varint tk1" "n = Suc pos" using Cons.prems by (simp_all add: tk1_def Let_def)
    then show ?thesis using True Cons.prems(1) by (simp add: Push_def tk1_def[symmetric]) (simp add: tk1_def)
  next
    case False
    define tk2 where "tk2 = tk1\<lparr>varint_shift := varint_shift tk + 7\<rparr>"
    have p: "ParseVarInt_loop bs (varint_shift tk2) (Suc pos) (varint tk2) = (v, n)"
      using Cons.prems False by (simp add: tk1_def tk2_def Let_def)
    have s: "varint_shift tk2 < 64" using p Cons.prems(4) by (cases bs) (auto split: if_splits)
    have n: "Suc pos < n" using ParseVarInt_loop_bounds[OF p Cons.prems(4)] by simp
    have "Push b tk = (null_token, tk2)"
      using False Cons.prems(1) s by (simp add: Push_def Let_def tk1_def tk2_def)
    moreover have "tk2\<lparr>varint := 0, varint_shift := 0\<rparr> = tk\<lparr>varint := 0, varint_shift := 0\<rparr>" "tk_state tk2 = tk_state tk"
      by (simp_all add: tk1_def tk2_def)
    moreover have "n - pos = Suc (n - Suc pos)" "n - Suc pos = Suc (n - Suc (Suc pos))" using n by auto
    ultimately show ?thesis
      using Cons.IH[OF _ s p Cons.prems(4)] Cons.prems(1) by (auto split: prod.splits)
  qed
qed simp

lemma Push_all_varint_failed:
  assumes "tk_state tk \<noteq> kFixedIntValue" "varint_shift tk < 64"
    and "ParseVarInt_loop bs (varint_shift tk) pos (varint tk) = (v, 0)"
  shows "\<exists>tk'. Push_all bs tk = (replicate (length bs) null_token, tk')
      \<and> (dead tk' \<or> tk_state tk' = tk_state tk \<and> (bs = [] \<and> tk' = tk \<or> 0 < varint_shift tk'))"
  using assms
proof (induction bs arbitrary: tk pos)
  case (Cons b bs)
  have b: "b AND 0x80 \<noteq> 0" using Cons.prems by (auto simp: Let_def split: if_splits)
  define tk2 where "tk2 = tk\<lparr>varint := varint tk OR push_bit (varint_shift tk) (ucast (b AND 0x7F)),
      varint_shift := varint_shift tk + 7\<rparr>"
  have p: "ParseVarInt_loop bs (varint_shift tk2) (Suc pos) (varint tk2) = (v, 0)"
    using Cons.prems b by (simp add: tk2_def Let_def)
  show ?case
  proof (cases "64 \<le> varint_shift tk + 7")
    case True
    define tk3 where "tk3 = tk2\<lparr>varint_shift := 0, tk_state := kInvalidVarInt\<rparr>"
    have "dead tk3" by (simp add: dead_def tk3_def)
    moreover have "Push b tk = (null_token, tk3)"
      using b Cons.prems(1) True by (simp add: Push_def Let_def tk3_def tk2_def)
    ultimately show ?thesis using Push_all_dead[of tk3 bs] by auto
  next
    case False
    then have s: "varint_shift tk2 < 64" by (simp add: tk2_def)
    have "Push b tk = (null_token, tk2)"
      using b Cons.prems(1) False by (simp add: Push_def Let_def tk2_def)
    then show ?thesis using Cons.IH[OF _ s p] Cons.prems(1) by (auto simp: tk2_def)
  qed
qed simp

subsection \<open>Fixed-width values\<close>

lemma le_word_snoc: "(le_word (xs @ [b]) :: 'a::len word) = le_word xs OR push_bit (8 * length xs) (ucast b)"
  by (induction xs) (simp_all add: push_bit_or or.assoc add.commute)

lemma Push_all_fixed:
  assumes "tk_state tk = kFixedIntValue" "fixed_int_bits tk = 8 * w" "w = 4 \<or> w = 8"
    and "fixed_int_shift tk = 8 * length xs" "fixed_int_value tk = le_word xs" "length xs < w" "w \<le> length xs + length bs"
  shows "Push_all (take (w - length xs) bs) tk =
     (replicate (w - length xs - 1) null_token @
        [\<lparr>t_field_id = tk_field_id tk, t_type = (if w = 4 then kFixed32 else kFixed64),
          t_value = le_word (xs @ take (w - length xs) bs)\<rparr>],
      tk\<lparr>fixed_int_value := 0, fixed_int_shift := 0, fixed_int_bits := 0, tk_state := kFieldPreamble\<rparr>)"
  using assms
proof (induction bs arbitrary: tk xs)
  case (Cons b bs)
  define tk1 where "tk1 = tk\<lparr>fixed_int_value := le_word (xs @ [b]), fixed_int_shift := 8 * length (xs @ [b])\<rparr>"
  have upd: "tk\<lparr>fixed_int_value := fixed_int_value tk OR push_bit (fixed_int_shift tk) (ucast b),
      fixed_int_shift := fixed_int_shift tk + 8\<rparr> = tk1"
    using Cons.prems by (simp add: tk1_def le_word_snoc add.commute)
  have t1: "tk_field_id tk1 = tk_field_id tk" "fixed_int_bits tk1 = 8 * w" "fixed_int_value tk1 = le_word (xs @ [b])"
    "fixed_int_shift tk1 = 8 * length (xs @ [b])" "tk_state tk1 = kFixedIntValue"
    "tk1\<lparr>fixed_int_value := 0, fixed_int_shift := 0, fixed_int_bits := 0, tk_state := kFieldPreamble\<rparr>
      = tk\<lparr>fixed_int_value := 0, fixed_int_shift := 0, fixed_int_bits := 0, tk_state := kFieldPreamble\<rparr>"
    using Cons.prems by (simp_all add: tk1_def)
  show ?case
  proof (cases "length (xs @ [b]) < w")
    case True
    then have "Push b tk = (null_token, tk1)"
      using Cons.prems(1) t1 by (simp add: Push_def push_fixed_def upd Let_def)
    moreover obtain k where k: "w - length xs = Suc (Suc k)" "w - length (xs @ [b]) = Suc k"
      using True less_imp_Suc_add by (metis Suc_diff_Suc length_append_singleton Suc_lessD)
    ultimately show ?thesis
      using Cons.IH[OF t1(5) t1(2) Cons.prems(3) t1(4,3) True] Cons.prems(7) t1(1,6) unfolding k by simp
  next
    case False
    then have w: "w = Suc (length xs)" using Cons.prems(6) by simp
    have "Push b tk = (\<lparr>t_field_id = tk_field_id tk, t_type = (if w = 4 then kFixed32 else kFixed64), t_value = le_word (xs @ [b])\<rparr>,
        tk\<lparr>fixed_int_value := 0, fixed_int_shift := 0, fixed_int_bits := 0, tk_state := kFieldPreamble\<rparr>)"
      using Cons.prems(1,3) t1 w by (auto simp add: Push_def push_fixed_def upd Let_def)
    then show ?thesis using w by simp
  qed
qed simp

lemma Push_all_fixed_short:
  assumes "tk_state tk = kFixedIntValue" "fixed_int_shift tk + 8 * length bs < fixed_int_bits tk"
  shows "\<exists>tk'. Push_all bs tk = (replicate (length bs) null_token, tk') \<and> tk_state tk' = kFixedIntValue"
  using assms
proof (induction bs arbitrary: tk)
  case (Cons b bs)
  define tk1 where "tk1 = tk\<lparr>fixed_int_value := fixed_int_value tk OR push_bit (fixed_int_shift tk) (ucast b),
      fixed_int_shift := fixed_int_shift tk + 8\<rparr>"
  have "Push b tk = (null_token, tk1)"
    using Cons.prems by (simp add: Push_def push_fixed_def tk1_def Let_def)
  then show ?case using Cons.IH[of tk1] Cons.prems by (auto simp: tk1_def)
qed simp

subsection \<open>Whole fields\<close>

definition ready :: "MessageTokenizer \<Rightarrow> bool" where
  "ready tk \<longleftrightarrow> idle tk \<and> varint tk = 0"

lemma ready_new: "ready new_tokenizer"
  by (simp add: ready_def idle_def new_tokenizer_def)

lemma replicate_snoc: "0 < n \<Longrightarrow> replicate (n - 1) x @ [x] = replicate n x"
  by (cases n) (simp_all add: replicate_append_same)

text \<open>A varint at the start of the input, complete or not.\<close>

lemma Push_all_ParseVarInt:
  assumes "varint tk = 0" "varint_shift tk = 0" "tk_state tk \<noteq> kFixedIntValue" "ParseVarInt bs = (v, n)" "n \<noteq> 0"
  shows "Push_all (take n bs) tk = (case push_varint v tk of (t, tk') \<Rightarrow> (replicate (n - 1) null_token @ [t], tk'))"
proof -
  have eq: "tk\<lparr>varint := 0, varint_shift := 0\<rparr> = tk" using assms(1,2) by (cases tk) simp
  show ?thesis using Push_all_varint[of tk bs 0 v n, unfolded eq] assms by (simp add: ParseVarInt_def)
qed

lemma Push_all_ParseVarInt_failed:
  assumes "varint tk = 0" "varint_shift tk = 0" "tk_state tk \<noteq> kFixedIntValue" "ParseVarInt bs = (v, 0)"
  shows "\<exists>tk'. Push_all bs tk = (replicate (length bs) null_token, tk') \<and> (bs \<noteq> [] \<or> tk_state tk \<noteq> kFieldPreamble \<longrightarrow> \<not> idle tk')"
  using Push_all_varint_failed[of tk bs 0 v] assms
  by (fastforce simp: ParseVarInt_def dead_def idle_def)

lemma Push_all_tag:
  assumes "ready tk" "ParseVarInt bs = (tag, n)" "n \<noteq> 0"
  shows "Push_all (take n bs) tk = (replicate n null_token, snd (push_varint tag tk))"
  using Push_all_ParseVarInt[of tk bs tag n] assms replicate_snoc[of n null_token]
  by (simp add: ready_def idle_def push_varint_def Let_def)

lemma Push_all_dead_idle: "dead tk \<Longrightarrow> \<exists>tk'. Push_all bs tk = (replicate (length bs) null_token, tk') \<and> \<not> idle tk'"
  using Push_all_dead[of tk bs] by (auto simp: dead_def idle_def)

text \<open>What follows the tag.\<close>

definition parse_value :: "u64 \<Rightarrow> bytes \<Rightarrow> (Token \<times> nat) option" where
  "parse_value tag rest =
     (let fid = ucast (drop_bit 3 tag); ty = tag AND 7 in
      if ty = 0 then
        (case ParseVarInt rest of (v, k) \<Rightarrow> if k = 0 then None else Some (\<lparr>t_field_id = fid, t_type = kVarInt, t_value = v\<rparr>, k))
      else if ty = 5 then
        (if length rest < 4 then None else Some (\<lparr>t_field_id = fid, t_type = kFixed32, t_value = le_word (take 4 rest)\<rparr>, 4))
      else if ty = 1 then
        (if length rest < 8 then None else Some (\<lparr>t_field_id = fid, t_type = kFixed64, t_value = le_word (take 8 rest)\<rparr>, 8))
      else if ty = 2 then
        (case ParseVarInt rest of (v, k) \<Rightarrow>
           if k = 0 \<or> kMaxMessageLength < unat v then None
           else Some (\<lparr>t_field_id = fid, t_type = kLengthDelimited, t_value = v\<rparr>, k))
      else None)"

lemma parse_token_value:
  "ParseVarInt bs = (tag, n) \<Longrightarrow> n \<noteq> 0 \<Longrightarrow> parse_token bs = map_option (\<lambda>(t, k). (t, n + k)) (parse_value tag (drop n bs))"
  by (simp add: parse_token_def parse_value_def Let_def split: prod.splits)

lemma push_tag_state:
  assumes "ready tk"
  defines "tk' \<equiv> \<lambda>tag. snd (push_varint tag tk)"
  shows "tag AND 7 = 0 \<Longrightarrow> tk' tag = tk\<lparr>tk_field_id := ucast (drop_bit 3 tag), tk_state := kVarIntValue\<rparr>"
    "tag AND 7 = 2 \<Longrightarrow> tk' tag = tk\<lparr>tk_field_id := ucast (drop_bit 3 tag), tk_state := kLenDelimited\<rparr>"
    "tag AND 7 = 5 \<Longrightarrow> tk' tag = tk\<lparr>tk_field_id := ucast (drop_bit 3 tag), tk_state := kFixedIntValue,
        fixed_int_shift := 0, fixed_int_value := 0, fixed_int_bits := 32\<rparr>"
    "tag AND 7 = 1 \<Longrightarrow> tk' tag = tk\<lparr>tk_field_id := ucast (drop_bit 3 tag), tk_state := kFixedIntValue,
        fixed_int_shift := 0, fixed_int_value := 0, fixed_int_bits := 64\<rparr>"
    "tag AND 7 \<notin> {0, 1, 2, 5} \<Longrightarrow> dead (tk' tag)"
  using assms(1) by (auto simp: tk'_def push_varint_def Let_def ready_def idle_def dead_def)

lemma Push_all_value:
  assumes "ready tk" "parse_value tag rest = Some (t, k)"
  shows "0 < k \<and> k \<le> length rest \<and>
    (\<exists>tk'. Push_all (take k rest) (snd (push_varint tag tk)) = (replicate (k - 1) null_token @ [t], tk') \<and> ready tk')"
proof -
  define tk1 where "tk1 = snd (push_varint tag tk)"
  note st = push_tag_state[OF assms(1), of tag, folded tk1_def]
  consider (vi) "tag AND 7 = 0" | (f32) "tag AND 7 = 5" | (f64) "tag AND 7 = 1" | (ld) "tag AND 7 = 2"
    using assms(2) by (auto simp: parse_value_def Let_def split: if_splits)
  then show ?thesis
  proof cases
    case vi
    then obtain v where v: "ParseVarInt rest = (v, k)" "k \<noteq> 0" "t = \<lparr>t_field_id = ucast (drop_bit 3 tag), t_type = kVarInt, t_value = v\<rparr>"
      using assms(2) by (auto simp: parse_value_def Let_def split: prod.splits if_splits)
    show ?thesis
      unfolding tk1_def[symmetric]
      using Push_all_ParseVarInt[of tk1 rest v k] v st(1)[OF vi] assms(1) ParseVarInt_bounds(1)[OF v(1,2)]
      by (auto simp: push_varint_def ready_def idle_def)
  next
    case ld
    then obtain v where v: "ParseVarInt rest = (v, k)" "k \<noteq> 0" "unat v \<le> kMaxMessageLength"
      "t = \<lparr>t_field_id = ucast (drop_bit 3 tag), t_type = kLengthDelimited, t_value = v\<rparr>"
      using assms(2) by (auto simp: parse_value_def Let_def split: prod.splits if_splits)
    show ?thesis
      unfolding tk1_def[symmetric]
      using Push_all_ParseVarInt[of tk1 rest v k] v st(2)[OF ld] assms(1) ParseVarInt_bounds(1)[OF v(1,2)]
      by (auto simp: push_varint_def ready_def idle_def)
  next
    case f32
    then show ?thesis
      unfolding tk1_def[symmetric]
      using Push_all_fixed[of tk1 4 "[]" rest] st(3)[OF f32] assms
      by (auto simp: parse_value_def Let_def ready_def idle_def split: if_splits)
  next
    case f64
    then show ?thesis
      unfolding tk1_def[symmetric]
      using Push_all_fixed[of tk1 8 "[]" rest] st(4)[OF f64] assms
      by (auto simp: parse_value_def Let_def ready_def idle_def split: if_splits)
  qed
qed

lemma Push_all_value_None:
  assumes "ready tk" "parse_value tag rest = None"
  shows "\<exists>tk'. Push_all rest (snd (push_varint tag tk)) = (replicate (length rest) null_token, tk') \<and> \<not> idle tk'"
proof -
  define tk1 where "tk1 = snd (push_varint tag tk)"
  note st = push_tag_state[OF assms(1), of tag, folded tk1_def]
  obtain v k where v: "ParseVarInt rest = (v, k)" by (cases "ParseVarInt rest") auto
  consider (vi) "tag AND 7 \<in> {0, 2}" "k = 0" | (big) "tag AND 7 = 2" "k \<noteq> 0" "kMaxMessageLength < unat v"
    | (f32) "tag AND 7 = 5" "length rest < 4" | (f64) "tag AND 7 = 1" "length rest < 8" | (bad) "tag AND 7 \<notin> {0, 1, 2, 5}"
    using assms(2) v by (auto simp: parse_value_def Let_def split: if_splits)
  then show ?thesis
  proof cases
    case vi
    then have "varint tk1 = 0" "varint_shift tk1 = 0" "tk_state tk1 \<noteq> kFixedIntValue" "tk_state tk1 \<noteq> kFieldPreamble"
      using st assms(1) by (auto simp: ready_def idle_def)
    then show ?thesis
      unfolding tk1_def[symmetric] using Push_all_ParseVarInt_failed[of tk1 rest v] v vi(2) by auto
  next
    case big
    note t = st(2)[OF big(1)]
    have "Push_all (take k rest) tk1 = (replicate k null_token, tk1\<lparr>tk_state := kMessageTooBig\<rparr>)"
      using Push_all_ParseVarInt[of tk1 rest v k] v big t assms(1) replicate_snoc[of k null_token]
      by (simp add: push_varint_def ready_def idle_def)
    moreover have "\<exists>tk'. Push_all (drop k rest) (tk1\<lparr>tk_state := kMessageTooBig\<rparr>) = (replicate (length rest - k) null_token, tk') \<and> \<not> idle tk'"
      using Push_all_dead_idle[of "tk1\<lparr>tk_state := kMessageTooBig\<rparr>" "drop k rest"] by (auto simp: dead_def)
    ultimately show ?thesis
      unfolding tk1_def[symmetric]
      using Push_all_append[of "take k rest" "drop k rest" tk1] ParseVarInt_bounds(1)[OF v big(2)]
      by (auto simp flip: replicate_add)
  next
    case f32
    then show ?thesis
      unfolding tk1_def[symmetric] using Push_all_fixed_short[of tk1 rest] st(3)[OF f32(1)] by (auto simp: idle_def)
  next
    case f64
    then show ?thesis
      unfolding tk1_def[symmetric] using Push_all_fixed_short[of tk1 rest] st(4)[OF f64(1)] by (auto simp: idle_def)
  next
    case bad
    then show ?thesis unfolding tk1_def[symmetric] using st(5) Push_all_dead_idle by blast
  qed
qed

lemma Push_all_token:
  assumes "ready tk" "parse_token bs = Some (t, n)"
  shows "0 < n \<and> n \<le> length bs \<and> (\<exists>tk'. Push_all (take n bs) tk = (replicate (n - 1) null_token @ [t], tk') \<and> ready tk')"
proof -
  obtain tag m where p: "ParseVarInt bs = (tag, m)" by (cases "ParseVarInt bs") auto
  have m: "m \<noteq> 0" using assms(2) p by (intro notI) (simp add: parse_token_def)
  then obtain k where k: "parse_value tag (drop m bs) = Some (t, k)" "n = m + k"
    using parse_token_value[OF p m] assms(2) by (cases "parse_value tag (drop m bs)") auto
  from Push_all_value[OF assms(1) k(1)] obtain tk' where v: "0 < k" "k \<le> length bs - m"
    "Push_all (take k (drop m bs)) (snd (push_varint tag tk)) = (replicate (k - 1) null_token @ [t], tk')" "ready tk'" by auto
  have "take n bs = take m bs @ take k (drop m bs)" using k(2) by (simp add: take_add)
  moreover have "replicate m null_token @ replicate (k - 1) null_token = replicate (n - 1) null_token"
    using k(2) v(1) by (simp flip: replicate_add)
  ultimately show ?thesis
    using Push_all_tag[OF assms(1) p m] v m k(2) ParseVarInt_bounds(1)[OF p m]
    by (auto simp: Push_all_append simp flip: append_assoc)
qed

lemma Push_all_no_token:
  assumes "ready tk" "parse_token bs = None" "bs \<noteq> []"
  shows "\<exists>tk'. Push_all bs tk = (replicate (length bs) null_token, tk') \<and> \<not> idle tk'"
proof -
  obtain tag m where p: "ParseVarInt bs = (tag, m)" by (cases "ParseVarInt bs") auto
  show ?thesis
  proof (cases "m = 0")
    case True
    then show ?thesis
      using Push_all_ParseVarInt_failed[of tk bs tag] p assms by (auto simp: ready_def idle_def)
  next
    case False
    then have "parse_value tag (drop m bs) = None" using parse_token_value[OF p False] assms(2) by auto
    from Push_all_value_None[OF assms(1) this] show ?thesis
      using Push_all_append[of "take m bs" "drop m bs" tk] Push_all_tag[OF assms(1) p False] ParseVarInt_bounds(1)[OF p False]
      by (auto simp flip: replicate_add)
  qed
qed

text \<open>C10. Fed byte by byte from a field boundary, the tokenizer returns a token exactly at the last
  byte of a well-formed field preamble, with the id, wire type and value that parsing the
  preamble in one piece gives, and is then at a boundary again; on input that is no complete
  well-formed preamble it returns no token and is not idle at its end.\<close>

theorem tokenizer_correct:
  assumes "ready tk"
  shows "case parse_token bs of
      Some (t, n) \<Rightarrow> \<exists>tk'. Push_all (take n bs) tk = (replicate (n - 1) null_token @ [t], tk') \<and> ready tk'
        \<and> 0 < n \<and> n \<le> length bs
    | None \<Rightarrow> bs = [] \<or> (\<exists>tk'. Push_all bs tk = (replicate (length bs) null_token, tk') \<and> \<not> idle tk')"
  using Push_all_token[OF assms, of bs] Push_all_no_token[OF assms, of bs]
  by (cases "parse_token bs") (auto split: prod.splits)

theorem tokenizer_correct_witness:
  "\<exists>tk'. Push_all [0x08, 0x96, 0x01] new_tokenizer
      = ([null_token, null_token, \<lparr>t_field_id = 1, t_type = kVarInt, t_value = 150\<rparr>], tk') \<and> ready tk'"
proof -
  have "ready new_tokenizer" by (simp add: ready_def idle_def new_tokenizer_def)
  moreover have "parse_token [0x08, 0x96, 0x01] = Some (\<lparr>t_field_id = 1, t_type = kVarInt, t_value = 150\<rparr>, 3)" by code_simp
  ultimately show ?thesis using tokenizer_correct[of new_tokenizer "[0x08, 0x96, 0x01]"] by (auto simp: numeral_2_eq_2)
qed

end
