(* ===== verification/Message_Filter.thy ===== *)
theory Message_Filter
  imports Message_Tokenizer Filter_Bytecode
begin

text \<open>
  The streaming proto filter of \<^verbatim>\<open>src/protozero/filtering/message_filter.h/.cc\<close>. The loaded bytecode
  and the string filter are the arguments \<open>query\<close> and \<open>maybe_filter\<close>. The 32-bit counters of
  \<^verbatim>\<open>StackState\<close> are natural numbers with the wrap-around written out; \<^verbatim>\<open>stack_\<close> is a list whose head
  is \<^verbatim>\<open>stack_.back()\<close>; the output written so far, \<^verbatim>\<open>out_buf_[0..out_)\<close>, is a byte list, and pointers
  into it are offsets.
\<close>

subsection \<open>State\<close>

definition add32 :: "nat \<Rightarrow> nat \<Rightarrow> nat" where "add32 a b = (a + b) mod 2 ^ 32"
definition sub32 :: "nat \<Rightarrow> nat \<Rightarrow> nat" where "sub32 a b = (a + 2 ^ 32 - b) mod 2 ^ 32"
definition kUint32Max :: nat where "kUint32Max = 2 ^ 32 - 1"

datatype FilterAction = kDrop | kPassthrough | kFilterString

record StackState =
  in_bytes :: nat
  in_bytes_limit :: nat
  eat_next_bytes :: nat
  out_bytes_written_at_start :: nat
  s_field_id :: u32
  msg_index :: u32
  size_field :: nat
  size_field_len :: nat
  filter_string_ptr :: nat
  action :: FilterAction

definition new_stack_state :: StackState where
  "new_stack_state = \<lparr>in_bytes = 0, in_bytes_limit = 0, eat_next_bytes = 0, out_bytes_written_at_start = 0,
     s_field_id = 0, msg_index = 0, size_field = 0, size_field_len = 0, filter_string_ptr = 0, action = kDrop\<rparr>"

record MessageFilter =
  root_msg_index :: u32
  mf_out :: bytes
  tokenizer :: MessageTokenizer
  stack :: "StackState list"
  mf_error :: bool
  track_field_usage :: bool
  field_usage :: "bytes \<rightharpoonup> int"

type_synonym query = "u32 \<Rightarrow> u32 \<Rightarrow> QueryResult"

definition out_written :: "MessageFilter \<Rightarrow> nat" where
  "out_written mf = length (mf_out mf) mod 2 ^ 32"

subsection \<open>Emitting fields\<close>

definition AppendVarInt :: "u32 \<Rightarrow> u64 \<Rightarrow> bytes \<Rightarrow> bytes" where
  "AppendVarInt field_id v out = out @ WriteVarInt (MakeTagVarInt field_id) @ WriteVarInt v"

definition AppendFixed :: "u32 \<Rightarrow> 'a::len word \<Rightarrow> bytes \<Rightarrow> bytes" where
  "AppendFixed field_id v out =
     out @ WriteVarInt (MakeTagFixed (LENGTH('a) div 8) field_id) @ le_bytes (LENGTH('a) div 8) v"

text \<open>The new output, the offset of the size field and its length.\<close>

definition AppendLenDelim :: "u32 \<Rightarrow> u32 \<Rightarrow> bytes \<Rightarrow> bytes \<times> nat \<times> nat" where
  "AppendLenDelim field_id len out =
     (let out1 = out @ WriteVarInt (MakeTagLengthDelimited field_id); out2 = out1 @ WriteVarInt len
      in (out2, length out1, length out2 - length out1))"

subsection \<open>One byte\<close>

definition SetUnrecoverableErrorState :: "MessageFilter \<Rightarrow> MessageFilter" where
  "SetUnrecoverableErrorState mf =
     mf\<lparr>mf_error := True,
        stack := [new_stack_state\<lparr>eat_next_bytes := kUint32Max, in_bytes_limit := kUint32Max, action := kDrop\<rparr>],
        mf_out := []\<rparr>"

definition IncrementCurrentFieldUsage :: "u32 \<Rightarrow> bool \<Rightarrow> MessageFilter \<Rightarrow> MessageFilter" where
  "IncrementCurrentFieldUsage field_id allowed mf =
     (let ancestors = map s_field_id (drop 2 (rev (stack mf)));
          field_path = concat (map WriteVarInt (ancestors @ [field_id]));
          n = (case field_usage mf field_path of None \<Rightarrow> 0 | Some k \<Rightarrow> k)
      in mf\<lparr>field_usage := (field_usage mf)(field_path \<mapsto> n + (if allowed then 1 else - 1))\<rparr>)"

text \<open>The length-delimited case: \<^const>\<open>None\<close> when the field claims more bytes than its message
  has left, otherwise the new state and the state to push.\<close>

definition on_len_delim :: "QueryResult \<Rightarrow> Token \<Rightarrow> MessageFilter \<Rightarrow> (MessageFilter \<times> StackState option) option" where
  "on_len_delim flt token mf =
     (let st = hd (stack mf); submessage_len = ucast (t_value token) :: u32;
          in_bytes_left = sub32 (sub32 (in_bytes_limit st) (in_bytes st)) 1 in
      if in_bytes_left < unat submessage_len then None
      else if q_allowed flt \<and> nested_msg_field flt \<and> 0 < submessage_len then
        (case AppendLenDelim (t_field_id token) submessage_len (mf_out mf) of (out, sf, sf_len) \<Rightarrow>
           let mf = mf\<lparr>mf_out := out\<rparr> in
           Some (mf, Some (new_stack_state\<lparr>s_field_id := t_field_id token, msg_index := nested_msg_index flt,
             in_bytes_limit := unat submessage_len, size_field := sf, size_field_len := sf_len,
             out_bytes_written_at_start := out_written mf\<rparr>)))
      else
        let st = st\<lparr>eat_next_bytes := unat submessage_len\<rparr>;
            out = (if q_allowed flt then fst (AppendLenDelim (t_field_id token) submessage_len (mf_out mf)) else mf_out mf);
            st = (if q_allowed flt \<and> filter_string_field flt
                  then st\<lparr>action := kFilterString, filter_string_ptr := length out\<rparr>
                  else if q_allowed flt then st\<lparr>action := kPassthrough\<rparr>
                  else st\<lparr>action := kDrop\<rparr>)
        in Some (mf\<lparr>mf_out := out, stack := st # tl (stack mf)\<rparr>, None))"

definition on_token :: "QueryResult \<Rightarrow> Token \<Rightarrow> MessageFilter \<Rightarrow> (MessageFilter \<times> StackState option) option" where
  "on_token flt token mf =
     (case t_type token of
        kVarInt \<Rightarrow> Some
          (if q_allowed flt \<and> simple_field flt
           then mf\<lparr>mf_out := AppendVarInt (t_field_id token) (t_value token) (mf_out mf)\<rparr> else mf, None)
      | kFixed32 \<Rightarrow> Some
          (if q_allowed flt \<and> simple_field flt
           then mf\<lparr>mf_out := AppendFixed (t_field_id token) (ucast (t_value token) :: u32) (mf_out mf)\<rparr> else mf, None)
      | kFixed64 \<Rightarrow> Some
          (if q_allowed flt \<and> simple_field flt
           then mf\<lparr>mf_out := AppendFixed (t_field_id token) (t_value token) (mf_out mf)\<rparr> else mf, None)
      | kLengthDelimited \<Rightarrow> on_len_delim flt token mf)"

text \<open>\<^verbatim>\<open>while (state->in_bytes >= state->in_bytes_limit)\<close>; \<^const>\<open>None\<close> is the failed
  \<^verbatim>\<open>DEJAVIEW_CHECK(!stack_.empty())\<close>.\<close>

definition backfill :: "StackState \<Rightarrow> MessageFilter \<Rightarrow> bytes" where
  "backfill st mf =
     (let msg_bytes_written = of_nat (sub32 (out_written mf) (out_bytes_written_at_start st)) :: u32
      in take (size_field st) (mf_out mf) @ WriteRedundantVarInt msg_bytes_written (size_field_len st)
         @ drop (size_field st + size_field_len st) (mf_out mf))"

function pop_finished :: "MessageFilter \<Rightarrow> MessageFilter option" where
  "pop_finished mf =
     (case stack mf of
        [] \<Rightarrow> None
      | st # rest \<Rightarrow>
          if in_bytes_limit st \<le> in_bytes st then
            (case rest of
               [] \<Rightarrow> None
             | parent # rest' \<Rightarrow>
                 let parent = parent\<lparr>in_bytes := add32 (in_bytes parent) (in_bytes st)\<rparr>;
                     mf = mf\<lparr>mf_out := backfill st mf, stack := parent # rest'\<rparr>
                 in if \<not> idle (tokenizer mf) then Some (SetUnrecoverableErrorState mf)
                    else pop_finished mf)
          else Some mf)"
  by pat_completeness auto
termination
  by (relation "measure (\<lambda>mf. length (stack mf))") auto

declare pop_finished.simps [simp del]

text \<open>The tail of \<^verbatim>\<open>FilterOneByte\<close>: count the byte, pop the messages it completes, push the
  submessage it opens.\<close>

definition finish_byte :: "MessageFilter \<Rightarrow> StackState option \<Rightarrow> MessageFilter option" where
  "finish_byte mf next_state =
     (let st = (hd (stack mf))\<lparr>in_bytes := add32 (in_bytes (hd (stack mf))) 1\<rparr>;
          mf = mf\<lparr>stack := st # tl (stack mf)\<rparr>
      in if in_bytes_limit st \<le> in_bytes st then pop_finished mf
         else case next_state of
           None \<Rightarrow> Some mf
         | Some ns \<Rightarrow> Some (mf\<lparr>stack := ns # stack mf\<rparr>))"

definition eat_byte :: "(bytes \<Rightarrow> bytes) \<Rightarrow> u8 \<Rightarrow> MessageFilter \<Rightarrow> MessageFilter" where
  "eat_byte maybe_filter octet mf =
     (let st = (hd (stack mf))\<lparr>eat_next_bytes := eat_next_bytes (hd (stack mf)) - 1\<rparr>;
          out = mf_out mf @ [octet]
      in mf\<lparr>stack := st # tl (stack mf),
            mf_out := (case action st of
                kDrop \<Rightarrow> mf_out mf
              | kPassthrough \<Rightarrow> out
              | kFilterString \<Rightarrow>
                  if eat_next_bytes st = 0
                  then take (filter_string_ptr st) out @ maybe_filter (drop (filter_string_ptr st) out)
                  else out)\<rparr>)"

definition FilterOneByte :: "query \<Rightarrow> (bytes \<Rightarrow> bytes) \<Rightarrow> u8 \<Rightarrow> MessageFilter \<Rightarrow> MessageFilter option" where
  "FilterOneByte query maybe_filter octet mf =
     (if 0 < eat_next_bytes (hd (stack mf)) then finish_byte (eat_byte maybe_filter octet mf) None
      else case Push octet (tokenizer mf) of (token, tk) \<Rightarrow>
        let mf = mf\<lparr>tokenizer := tk\<rparr> in
        if t_valid token then
          let flt = query (msg_index (hd (stack mf))) (t_field_id token) in
          (case on_token flt token mf of
             None \<Rightarrow> Some (SetUnrecoverableErrorState mf)
           | Some (mf, next_state) \<Rightarrow>
               finish_byte (if track_field_usage mf then IncrementCurrentFieldUsage (t_field_id token) (q_allowed flt) mf else mf)
                 next_state)
        else finish_byte mf None)"

fun filter_bytes :: "query \<Rightarrow> (bytes \<Rightarrow> bytes) \<Rightarrow> bytes \<Rightarrow> MessageFilter \<Rightarrow> MessageFilter option" where
  "filter_bytes query maybe_filter [] mf = Some mf"
| "filter_bytes query maybe_filter (b # bs) mf =
     (case FilterOneByte query maybe_filter b mf of
        None \<Rightarrow> None | Some mf' \<Rightarrow> filter_bytes query maybe_filter bs mf')"

subsection \<open>Whole messages\<close>

record FilteredMessage =
  fm_data :: bytes
  fm_error :: bool

definition start_message :: "nat \<Rightarrow> MessageFilter \<Rightarrow> MessageFilter" where
  "start_message total_len mf =
     mf\<lparr>mf_out := [], tokenizer := new_tokenizer, mf_error := False,
        stack := [new_stack_state\<lparr>in_bytes_limit := total_len, msg_index := root_msg_index mf\<rparr>,
                  new_stack_state\<lparr>in_bytes_limit := kUint32Max, eat_next_bytes := kUint32Max\<rparr>]\<rparr>"

definition FilterMessageFragments ::
  "query \<Rightarrow> (bytes \<Rightarrow> bytes) \<Rightarrow> bytes list \<Rightarrow> MessageFilter \<Rightarrow> (FilteredMessage \<times> MessageFilter) option" where
  "FilterMessageFragments query maybe_filter slices mf =
     (let total_len = fold (\<lambda>s n. add32 n (length s)) slices 0 in
      case filter_bytes query maybe_filter (concat slices) (start_message total_len mf) of
        None \<Rightarrow> None
      | Some mf' \<Rightarrow>
          if \<not> length (mf_out mf') \<le> total_len then None
          else Some (\<lparr>fm_data = mf_out mf',
                 fm_error = (mf_error mf' \<or> length (stack mf') \<noteq> 1 \<or> \<not> idle (tokenizer mf')
                   \<or> in_bytes (last (stack mf')) \<noteq> total_len)\<rparr>, mf'))"

definition FilterMessage ::
  "query \<Rightarrow> (bytes \<Rightarrow> bytes) \<Rightarrow> bytes \<Rightarrow> MessageFilter \<Rightarrow> (FilteredMessage \<times> MessageFilter) option" where
  "FilterMessage query maybe_filter data = FilterMessageFragments query maybe_filter [data]"

text \<open>The path of nested fields to the message that becomes the root.\<close>

fun resolve_root :: "query \<Rightarrow> u32 list \<Rightarrow> u32 \<Rightarrow> u32 option" where
  "resolve_root query [] idx = Some idx"
| "resolve_root query (f # fs) idx =
     (let res = query idx f in
      if \<not> q_allowed res \<or> \<not> nested_msg_field res then None else resolve_root query fs (nested_msg_index res))"

definition SetFilterRoot :: "query \<Rightarrow> u32 list \<Rightarrow> MessageFilter \<Rightarrow> bool \<times> MessageFilter" where
  "SetFilterRoot query field_ids mf =
     (case resolve_root query field_ids 0 of
        None \<Rightarrow> (False, mf) | Some idx \<Rightarrow> (True, mf\<lparr>root_msg_index := idx\<rparr>))"

definition new_message_filter :: MessageFilter where
  "new_message_filter = \<lparr>root_msg_index = 0, mf_out = [], tokenizer = new_tokenizer, stack = [new_stack_state],
     mf_error = False, track_field_usage = False, field_usage = Map.empty\<rparr>"

end
