(* ===== verification/String_Filter.thy ===== *)
theory String_Filter
  imports Prelude_DV
begin

text \<open>
  The string redaction rules of \<^verbatim>\<open>src/protozero/filtering/string_filter.h/.cc\<close>. The regular expression
  engine of the standard library is a parameter: \<open>regex_match\<close> gives the sub-matches of a match of
  the whole string, \<open>regex_next\<close> the next match of an iteration from a cursor together with the
  cursor to continue from. A string is the memory \<^verbatim>\<open>[ptr, ptr + len)\<close>; sub-matches are pairs of
  offsets into it, and writes are seen in that memory only.
\<close>

datatype Policy = kMatchRedactGroups | kAtraceMatchRedactGroups | kMatchBreak | kAtraceMatchBreak
  | kAtraceRepeatedSearchRedactGroups

record 'p Rule =
  policy :: Policy
  pattern :: 'p
  atrace_payload_starts_with :: bytes

type_synonym matches = "(nat \<times> nat) list"
type_synonym 'p regex_match = "'p \<Rightarrow> bytes \<Rightarrow> matches option"
type_synonym 'p regex_next = "'p \<Rightarrow> bytes \<Rightarrow> nat \<Rightarrow> (matches \<times> nat) option"

text \<open>\<^verbatim>\<open>"P60REDACTED"\<close> and \<^verbatim>\<open>'-'\<close>.\<close>

definition kRedacted :: bytes where
  "kRedacted = [0x50, 0x36, 0x30, 0x52, 0x45, 0x44, 0x41, 0x43, 0x54, 0x45, 0x44]"

definition kRedactedDash :: u8 where "kRedactedDash = 0x2D"

definition AddRule :: "Policy \<Rightarrow> 'p \<Rightarrow> bytes \<Rightarrow> 'p Rule list \<Rightarrow> 'p Rule list" where
  "AddRule pol pat starts rules =
     rules @ [\<lparr>policy = pol, pattern = pat, atrace_payload_starts_with = starts\<rparr>]"

definition FindAtracePayloadPtr :: "bytes \<Rightarrow> nat option" where
  "FindAtracePayloadPtr s =
     (if length s \<le> 2 \<or> hd s = 0x45 then None
      else case memchr 0x7C (drop 2 s) of None \<Rightarrow> None | Some pipe \<Rightarrow> Some (2 + pipe + 1))"

definition StartsWith :: "bytes \<Rightarrow> nat \<Rightarrow> bytes \<Rightarrow> bool" where
  "StartsWith s ptr starts_with \<longleftrightarrow>
     ptr + length starts_with \<le> length s \<and> take (length starts_with) (drop ptr s) = starts_with"

text \<open>Overwrite one group: a prefix of \<^const>\<open>kRedacted\<close>, then dashes.\<close>

definition redact_group :: "nat \<times> nat \<Rightarrow> bytes \<Rightarrow> bytes" where
  "redact_group m s =
     map (\<lambda>i. if fst m \<le> i \<and> i < snd m
          then (if i - fst m < length kRedacted then kRedacted ! (i - fst m) else kRedactedDash)
          else s ! i) [0..<length s]"

definition RedactMatches :: "matches \<Rightarrow> bytes \<Rightarrow> bytes" where
  "RedactMatches ms s = fold redact_group (tl ms) s"

lemma length_redact_group [simp]: "length (redact_group m s) = length s"
  by (simp add: redact_group_def)

lemma length_RedactMatches [simp]: "length (RedactMatches ms s) = length s"
proof -
  have "length (fold redact_group xs s) = length s" for xs by (induction xs arbitrary: s) simp_all
  then show ?thesis by (simp add: RedactMatches_def)
qed

text \<open>The loop over a \<^verbatim>\<open>regex_iterator\<close>: each match is searched in the memory left by the redactions
  before it. The cursor of an iterator only moves forward.\<close>

function redact_all :: "'p regex_next \<Rightarrow> 'p \<Rightarrow> nat \<Rightarrow> bytes \<Rightarrow> bytes" where
  "redact_all regex_next pat cur s =
     (case regex_next pat s cur of
        None \<Rightarrow> s
      | Some (ms, cur') \<Rightarrow>
          if cur < cur' \<and> cur' \<le> length s + 1 then redact_all regex_next pat cur' (RedactMatches ms s)
          else RedactMatches ms s)"
  by pat_completeness auto
termination
  by (relation "measure (\<lambda>(_, _, cur, s). length s + 1 - cur)") auto

declare redact_all.simps [simp del]

text \<open>The rules in order, with the lazily computed and then cached \<^verbatim>\<open>atrace_payload_ptr\<close>.\<close>

fun filter_rules :: "'p regex_match \<Rightarrow> 'p regex_next \<Rightarrow> 'p Rule list \<Rightarrow> bool \<Rightarrow> nat option \<Rightarrow> bytes \<Rightarrow> bool \<times> bytes" where
  "filter_rules regex_match regex_next [] tried ptr s = (False, s)"
| "filter_rules regex_match regex_next (rule # rules) tried ptr s =
     (if policy rule = kMatchRedactGroups \<or> policy rule = kMatchBreak then
        (case regex_match (pattern rule) s of
           Some ms \<Rightarrow> if policy rule = kMatchBreak then (False, s) else (True, RedactMatches ms s)
         | None \<Rightarrow> filter_rules regex_match regex_next rules tried ptr s)
      else
        let ptr = (if tried then ptr else FindAtracePayloadPtr s);
            prefix = (case ptr of None \<Rightarrow> False | Some p \<Rightarrow> StartsWith s p (atrace_payload_starts_with rule)) in
        if policy rule = kAtraceRepeatedSearchRedactGroups then
          (if prefix \<and> regex_next (pattern rule) s 0 \<noteq> None
           then (True, redact_all regex_next (pattern rule) 0 s)
           else filter_rules regex_match regex_next rules True ptr s)
        else
          (case (if prefix then regex_match (pattern rule) s else None) of
             Some ms \<Rightarrow> if policy rule = kAtraceMatchBreak then (False, s) else (True, RedactMatches ms s)
           | None \<Rightarrow> filter_rules regex_match regex_next rules True ptr s))"

definition MaybeFilterInternal :: "'p regex_match \<Rightarrow> 'p regex_next \<Rightarrow> 'p Rule list \<Rightarrow> bytes \<Rightarrow> bool \<times> bytes" where
  "MaybeFilterInternal regex_match regex_next rules s = filter_rules regex_match regex_next rules False None s"

definition MaybeFilter :: "'p regex_match \<Rightarrow> 'p regex_next \<Rightarrow> 'p Rule list \<Rightarrow> bytes \<Rightarrow> bool \<times> bytes" where
  "MaybeFilter regex_match regex_next rules s =
     (if s = [] \<or> rules = [] then (False, s) else MaybeFilterInternal regex_match regex_next rules s)"

subsection \<open>The contract of an in-place filter\<close>

text \<open>A filter of output bytes rewrites the string where it stands.\<close>

locale in_place_filter =
  fixes maybe_filter :: "bytes \<Rightarrow> bytes"
  assumes length_maybe_filter: "length (maybe_filter s) = length s"
begin

lemma maybe_filter_Nil: "maybe_filter [] = []"
  using length_maybe_filter[of "[]"] by simp

end

lemma length_redact_all [simp]: "length (redact_all rn pat cur s) = length s"
proof (induction rn pat cur s rule: redact_all.induct)
  case (1 rn pat cur s)
  then show ?case by (subst redact_all.simps) (auto split: option.split)
qed

lemma length_filter_rules: "length (snd (filter_rules rm rn rules tried ptr s)) = length s"
  by (induction rules arbitrary: tried ptr) (auto simp: Let_def split: option.split)

interpretation string_filter: in_place_filter "\<lambda>s. snd (MaybeFilter rm rn rules s)" for rm rn rules
  by unfold_locales (simp add: MaybeFilter_def MaybeFilterInternal_def length_filter_rules)

subsection \<open>The first applicable rule decides\<close>

definition atrace_prefix :: "bytes \<Rightarrow> 'p Rule \<Rightarrow> bool" where
  "atrace_prefix s rule =
     (case FindAtracePayloadPtr s of None \<Rightarrow> False | Some p \<Rightarrow> StartsWith s p (atrace_payload_starts_with rule))"

definition rule_applies :: "'p regex_match \<Rightarrow> 'p regex_next \<Rightarrow> bytes \<Rightarrow> 'p Rule \<Rightarrow> bool" where
  "rule_applies rm rn s rule =
     (case policy rule of
        kMatchRedactGroups \<Rightarrow> rm (pattern rule) s \<noteq> None
      | kMatchBreak \<Rightarrow> rm (pattern rule) s \<noteq> None
      | kAtraceMatchRedactGroups \<Rightarrow> atrace_prefix s rule \<and> rm (pattern rule) s \<noteq> None
      | kAtraceMatchBreak \<Rightarrow> atrace_prefix s rule \<and> rm (pattern rule) s \<noteq> None
      | kAtraceRepeatedSearchRedactGroups \<Rightarrow> atrace_prefix s rule \<and> rn (pattern rule) s 0 \<noteq> None)"

definition rule_effect :: "'p regex_match \<Rightarrow> 'p regex_next \<Rightarrow> bytes \<Rightarrow> 'p Rule \<Rightarrow> bool \<times> bytes" where
  "rule_effect rm rn s rule =
     (case policy rule of
        kMatchBreak \<Rightarrow> (False, s)
      | kAtraceMatchBreak \<Rightarrow> (False, s)
      | kAtraceRepeatedSearchRedactGroups \<Rightarrow> (True, redact_all rn (pattern rule) 0 s)
      | _ \<Rightarrow> (True, RedactMatches (the (rm (pattern rule) s)) s))"

lemma filter_rules_find:
  assumes "tried \<Longrightarrow> ptr = FindAtracePayloadPtr s"
  shows "filter_rules rm rn rules tried ptr s =
     (case find (rule_applies rm rn s) rules of None \<Rightarrow> (False, s) | Some r \<Rightarrow> rule_effect rm rn s r)"
  using assms
proof (induction rules arbitrary: tried ptr)
  case (Cons rule rules)
  have ptr: "(if tried then ptr else FindAtracePayloadPtr s) = FindAtracePayloadPtr s" using Cons.prems by simp
  show ?case
    using Cons.IH[of tried ptr] Cons.IH[of True "FindAtracePayloadPtr s"] Cons.prems
    by (cases "policy rule"; cases "rm (pattern rule) s"; cases "atrace_prefix s rule")
      (simp_all add: ptr Let_def rule_applies_def rule_effect_def atrace_prefix_def)
qed simp

text \<open>C21. The rules work like a firewall table: the first rule that applies to the string alone decides,
  a break rule by leaving the string as it is, the others by redacting; the length never changes.\<close>

theorem string_filter_first_match:
  "MaybeFilter rm rn rules s =
     (if s = [] then (False, s)
      else case find (rule_applies rm rn s) rules of None \<Rightarrow> (False, s) | Some r \<Rightarrow> rule_effect rm rn s r)
   \<and> length (snd (MaybeFilter rm rn rules s)) = length s"
  using filter_rules_find[of False None s rm rn rules] string_filter.length_maybe_filter[of rm rn rules s]
  by (cases rules) (auto simp: MaybeFilter_def MaybeFilterInternal_def)

subsection \<open>Redaction\<close>

definition redaction_bytes :: "u8 set" where
  "redaction_bytes = insert kRedactedDash (set kRedacted)"

definition in_groups :: "nat \<Rightarrow> matches \<Rightarrow> bool" where
  "in_groups i ms \<longleftrightarrow> list_ex (\<lambda>g. fst g \<le> i \<and> i < snd g) (tl ms)"

lemma fold_redact_nth:
  assumes "i < length s"
  shows "(list_ex (\<lambda>g. fst g \<le> i \<and> i < snd g) gs \<longrightarrow> fold redact_group gs s ! i \<in> redaction_bytes)
    \<and> (\<not> list_ex (\<lambda>g. fst g \<le> i \<and> i < snd g) gs \<longrightarrow> fold redact_group gs s ! i = s ! i)"
  using assms
proof (induction gs arbitrary: s rule: rev_induct)
  case (snoc g gs)
  have len: "length (fold redact_group gs s) = length s" by (induction gs arbitrary: s) simp_all
  have "redact_group g t ! i = (if fst g \<le> i \<and> i < snd g
      then (if i - fst g < length kRedacted then kRedacted ! (i - fst g) else kRedactedDash) else t ! i)"
    if "i < length t" for t using that by (simp add: redact_group_def)
  from this[of "fold redact_group gs s"] snoc len show ?case
    by (auto simp: redaction_bytes_def)
qed simp



text \<open>A redacting rule whose pattern has no capture group reports a modification although it makes
  none.\<close>

lemma reports_unmodified:
  "MaybeFilter (\<lambda>_ s. Some [(0, length s)]) (\<lambda>_ _ _. None)
     (AddRule kMatchRedactGroups () [] []) [0x61] = (True, [0x61])"
  by (simp add: MaybeFilter_def MaybeFilterInternal_def AddRule_def RedactMatches_def)

end
