(* ===== verification/Filter_Correct.thy ===== *)
theory Filter_Correct
  imports Message_Filter String_Filter
begin

text \<open>
  The streaming filter computes what a recursive filter over the whole message computes.
  \<open>ref_filter\<close> walks a message field by field, keeps what the query allows, recurses into allowed
  submessages and rejects malformed input; \<^verbatim>\<open>FilterMessageFragments\<close>, which sees one byte at a time
  and keeps a stack of open submessages, is shown to agree with it on every input.
\<close>

subsection \<open>The reference filter\<close>

definition scalar_out :: "QueryResult \<Rightarrow> Token \<Rightarrow> bytes" where
  "scalar_out r t =
     (if q_allowed r \<and> simple_field r then
        (case t_type t of
           kVarInt \<Rightarrow> AppendVarInt (t_field_id t) (t_value t) []
         | kFixed32 \<Rightarrow> AppendFixed (t_field_id t) (ucast (t_value t) :: u32) []
         | kFixed64 \<Rightarrow> AppendFixed (t_field_id t) (t_value t) []
         | kLengthDelimited \<Rightarrow> [])
      else [])"

definition len_tag :: "Token \<Rightarrow> bytes" where
  "len_tag t = WriteVarInt (MakeTagLengthDelimited (t_field_id t))"

definition leaf_out :: "(bytes \<Rightarrow> bytes) \<Rightarrow> QueryResult \<Rightarrow> Token \<Rightarrow> bytes \<Rightarrow> bytes" where
  "leaf_out maybe_filter r t payload =
     (if \<not> q_allowed r then []
      else len_tag t @ WriteVarInt (ucast (t_value t) :: u32)
        @ (if filter_string_field r then maybe_filter payload else payload))"

lemma parse_token_bounds: "parse_token bs = Some (t, n) \<Longrightarrow> 0 < n \<and> n \<le> length bs"
  using Push_all_token[OF ready_new] by blast

function ref_filter :: "query \<Rightarrow> (bytes \<Rightarrow> bytes) \<Rightarrow> u32 \<Rightarrow> bytes \<Rightarrow> bytes option" where
  "ref_filter query maybe_filter idx bs =
     (if bs = [] then Some []
      else case parse_token bs of
        None \<Rightarrow> None
      | Some (t, n) \<Rightarrow>
          let rest = drop n bs; r = query idx (t_field_id t); len = unat (t_value t) in
          if \<not> t_valid t then ref_filter query maybe_filter idx rest
          else if t_type t \<noteq> kLengthDelimited then
            map_option (\<lambda>out. scalar_out r t @ out) (ref_filter query maybe_filter idx rest)
          else if length rest < len then None
          else if q_allowed r \<and> nested_msg_field r \<and> 0 < len then
            (case ref_filter query maybe_filter (nested_msg_index r) (take len rest) of
               None \<Rightarrow> None
             | Some sub \<Rightarrow>
                 map_option
                   (\<lambda>out. len_tag t @ WriteRedundantVarInt (of_nat (length sub) :: u32)
                      (length (WriteVarInt (ucast (t_value t) :: u32))) @ sub @ out)
                   (ref_filter query maybe_filter idx (drop len rest)))
          else
            map_option (\<lambda>out. leaf_out maybe_filter r t (take len rest) @ out)
              (ref_filter query maybe_filter idx (drop len rest)))"
  by pat_completeness auto
termination
  by (relation "measure (\<lambda>(query, maybe_filter, idx, bs). length bs)") (auto dest!: parse_token_bounds)

declare ref_filter.simps [simp del]

subsection \<open>Steps of the filter\<close>

definition state_is :: "MessageFilter \<Rightarrow> StackState \<Rightarrow> StackState list \<Rightarrow> MessageTokenizer \<Rightarrow> bytes \<Rightarrow> bool \<Rightarrow> bool" where
  "state_is mf st rest tk out err \<longleftrightarrow>
     stack mf = st # rest \<and> tokenizer mf = tk \<and> mf_out mf = out \<and> mf_error mf = err"

lemma filter_bytes_append:
  "filter_bytes q f (xs @ ys) mf = Option.bind (filter_bytes q f xs mf) (filter_bytes q f ys)"
  by (induction xs arbitrary: mf) (auto split: option.splits)

lemma add32_small: "a + b < 2 ^ 32 \<Longrightarrow> add32 a b = a + b"
  by (simp add: add32_def)

lemma sub32_small: "b \<le> a \<Longrightarrow> a < 2 ^ 32 \<Longrightarrow> sub32 a b = a - b"
  using mod_add_self2[of "a - b" "2 ^ 32"] by (simp add: sub32_def)

lemma pop_finished_open:
  "state_is mf st rest tk out err \<Longrightarrow> in_bytes st < in_bytes_limit st \<Longrightarrow> pop_finished mf = Some mf"
  by (subst pop_finished.simps) (simp add: state_is_def)

lemma finish_byte_None:
  assumes "state_is mf st rest tk out err"
  shows "\<exists>mf'. finish_byte mf None = pop_finished mf' \<and> state_is mf' (st\<lparr>in_bytes := add32 (in_bytes st) 1\<rparr>) rest tk out err"
proof -
  define mf' where "mf' = mf\<lparr>stack := st\<lparr>in_bytes := add32 (in_bytes st) 1\<rparr> # rest\<rparr>"
  have s: "state_is mf' (st\<lparr>in_bytes := add32 (in_bytes st) 1\<rparr>) rest tk out err"
    using assms by (simp add: mf'_def state_is_def)
  have "finish_byte mf None = (if in_bytes_limit st \<le> add32 (in_bytes st) 1 then pop_finished mf' else Some mf')"
    using assms unfolding mf'_def by (simp add: finish_byte_def state_is_def Let_def)
  then have "finish_byte mf None = pop_finished mf'" using pop_finished_open[OF s] by (cases "in_bytes_limit st \<le> add32 (in_bytes st) 1") simp_all
  then show ?thesis using s by blast
qed

lemma FilterOneByte_null:
  assumes "state_is mf st rest tk out err" "eat_next_bytes st = 0" "Push b tk = (t, tk')" "\<not> t_valid t"
  shows "\<exists>mf'. FilterOneByte q f b mf = pop_finished mf' \<and> state_is mf' (st\<lparr>in_bytes := add32 (in_bytes st) 1\<rparr>) rest tk' out err"
proof -
  have "state_is (mf\<lparr>tokenizer := tk'\<rparr>) st rest tk' out err" using assms(1) by (simp add: state_is_def)
  from finish_byte_None[OF this] show ?thesis
    using assms by (auto simp: FilterOneByte_def state_is_def Let_def)
qed

lemma filter_bytes_null:
  assumes "state_is mf st rest tk out err" "eat_next_bytes st = 0" "Push_all xs tk = (ts, tk')" "\<forall>t \<in> set ts. \<not> t_valid t"
    and "in_bytes st + length xs < in_bytes_limit st" "in_bytes_limit st < 2 ^ 32"
  shows "\<exists>mf'. filter_bytes q f xs mf = Some mf' \<and> state_is mf' (st\<lparr>in_bytes := in_bytes st + length xs\<rparr>) rest tk' out err"
  using assms
proof (induction xs arbitrary: mf st tk ts)
  case (Cons b xs)
  obtain t tk1 us where p: "Push b tk = (t, tk1)" "Push_all xs tk1 = (us, tk')" "ts = t # us"
    using Cons.prems(3) by (auto split: prod.splits)
  from FilterOneByte_null[OF Cons.prems(1,2) p(1), where q = q and f = f] obtain mf1 where mf1: "FilterOneByte q f b mf = pop_finished mf1"
    "state_is mf1 (st\<lparr>in_bytes := in_bytes st + 1\<rparr>) rest tk1 out err"
    using Cons.prems p(3) by (auto simp: add32_small)
  have "pop_finished mf1 = Some mf1" using pop_finished_open[OF mf1(2)] Cons.prems by simp
  then show ?case
    using Cons.IH[OF mf1(2) _ p(2)] mf1(1) Cons.prems p(3) by auto
qed simp

lemma length_Push_all: "length (fst (Push_all xs tk)) = length xs"
  by (induction xs arbitrary: tk) (simp_all add: case_prod_beta)

text \<open>The bytes of a preamble but the last.\<close>

lemma token_prefix:
  assumes "state_is mf st rest tk out err" "eat_next_bytes st = 0" "ready tk" "parse_token bs = Some (t, n)"
    and "in_bytes st + length bs \<le> in_bytes_limit st" "in_bytes_limit st < 2 ^ 32"
  shows "\<exists>mf1 tk1 tk'. filter_bytes q f (take (n - 1) bs) mf = Some mf1
      \<and> state_is mf1 (st\<lparr>in_bytes := in_bytes st + (n - 1)\<rparr>) rest tk1 out err
      \<and> Push (bs ! (n - 1)) tk1 = (t, tk') \<and> ready tk' \<and> take n bs = take (n - 1) bs @ [bs ! (n - 1)]"
proof -
  from Push_all_token[OF assms(3,4)] obtain tk' where n: "0 < n" "n \<le> length bs"
    and p: "Push_all (take n bs) tk = (replicate (n - 1) null_token @ [t], tk')" "ready tk'" by blast
  have tk: "take n bs = take (n - 1) bs @ [bs ! (n - 1)]"
    using n take_Suc_conv_app_nth[of "n - 1" bs] by simp
  obtain ts tk1 where pre: "Push_all (take (n - 1) bs) tk = (ts, tk1)" by (cases "Push_all (take (n - 1) bs) tk") auto
  have "length ts = n - 1" using pre n by (metis length_Push_all fst_conv length_take min.absorb2 diff_le_self order_trans)
  then have ts: "ts = replicate (n - 1) null_token" "Push (bs ! (n - 1)) tk1 = (t, tk')"
    using p(1) pre unfolding tk Push_all_append by (auto split: prod.splits)
  have "in_bytes st + length (take (n - 1) bs) < in_bytes_limit st" "length (take (n - 1) bs) = n - 1" using assms(5) n by auto
  with filter_bytes_null[OF assms(1,2) pre _ _ assms(6), where q = q and f = f] obtain mf1 where
    "filter_bytes q f (take (n - 1) bs) mf = Some mf1" "state_is mf1 (st\<lparr>in_bytes := in_bytes st + (n - 1)\<rparr>) rest tk1 out err"
    using ts(1) by (auto simp: null_token_def t_valid_def)
  then show ?thesis using ts(2) p(2) tk by blast
qed

text \<open>A preamble that is ignored, or whose field is emitted or dropped at once.\<close>

lemma token_invalid:
  assumes "state_is mf st rest tk out err" "eat_next_bytes st = 0" "ready tk" "parse_token bs = Some (t, n)"
    and "in_bytes st + length bs \<le> in_bytes_limit st" "in_bytes_limit st < 2 ^ 32" "\<not> t_valid t"
  shows "\<exists>mf' tk'. filter_bytes q f (take n bs) mf = pop_finished mf' \<and> ready tk'
      \<and> state_is mf' (st\<lparr>in_bytes := in_bytes st + n\<rparr>) rest tk' out err"
proof -
  from token_prefix[OF assms(1-6), where q = q and f = f] obtain mf1 tk1 tk' where t:
    "filter_bytes q f (take (n - 1) bs) mf = Some mf1"
    "state_is mf1 (st\<lparr>in_bytes := in_bytes st + (n - 1)\<rparr>) rest tk1 out err"
    "Push (bs ! (n - 1)) tk1 = (t, tk')" "ready tk'" "take n bs = take (n - 1) bs @ [bs ! (n - 1)]" by blast
  have n: "0 < n" "n \<le> length bs" using parse_token_bounds[OF assms(4)] by auto
  then have "add32 (in_bytes st + (n - 1)) 1 = in_bytes st + n" using assms(5,6) by (simp add: add32_small)
  then show ?thesis
    using FilterOneByte_null[OF t(2) _ t(3) assms(7), where q = q and f = f] assms(2) t(1,4) unfolding t(5) filter_bytes_append
    by (auto split: option.splits)
qed

definition tracked :: "QueryResult \<Rightarrow> Token \<Rightarrow> MessageFilter \<Rightarrow> MessageFilter" where
  "tracked r t mf = (if track_field_usage mf then IncrementCurrentFieldUsage (t_field_id t) (q_allowed r) mf else mf)"

lemma state_is_tracked: "state_is (tracked r t mf) st rest tk out err = state_is mf st rest tk out err"
  by (simp add: tracked_def state_is_def IncrementCurrentFieldUsage_def Let_def)

text \<open>A preamble whose field the query decides about.\<close>

lemma token_valid:
  assumes "state_is mf st rest tk out err" "eat_next_bytes st = 0" "ready tk" "parse_token bs = Some (t, n)"
    and "in_bytes st + length bs \<le> in_bytes_limit st" "in_bytes_limit st < 2 ^ 32" "t_valid t"
  shows "\<exists>mf1 tk'. ready tk' \<and> state_is mf1 (st\<lparr>in_bytes := in_bytes st + (n - 1)\<rparr>) rest tk' out err
      \<and> filter_bytes q f (take n bs) mf =
        (let r = q (msg_index st) (t_field_id t) in
         case on_token r t mf1 of None \<Rightarrow> Some (SetUnrecoverableErrorState mf1)
         | Some (mf2, ns) \<Rightarrow> finish_byte (tracked r t mf2) ns)"
proof -
  from token_prefix[OF assms(1-6), where q = q and f = f] obtain mf1 tk1 tk' where t:
    "filter_bytes q f (take (n - 1) bs) mf = Some mf1"
    "state_is mf1 (st\<lparr>in_bytes := in_bytes st + (n - 1)\<rparr>) rest tk1 out err"
    "Push (bs ! (n - 1)) tk1 = (t, tk')" "ready tk'" "take n bs = take (n - 1) bs @ [bs ! (n - 1)]" by blast
  have "state_is (mf1\<lparr>tokenizer := tk'\<rparr>) (st\<lparr>in_bytes := in_bytes st + (n - 1)\<rparr>) rest tk' out err"
    using t(2) by (simp add: state_is_def)
  moreover have "FilterOneByte q f (bs ! (n - 1)) mf1 =
      (let r = q (msg_index st) (t_field_id t) in
       case on_token r t (mf1\<lparr>tokenizer := tk'\<rparr>) of None \<Rightarrow> Some (SetUnrecoverableErrorState (mf1\<lparr>tokenizer := tk'\<rparr>))
       | Some (mf2, ns) \<Rightarrow> finish_byte (tracked r t mf2) ns)"
    using t(2,3) assms(2,7) unfolding tracked_def by (simp add: FilterOneByte_def state_is_def Let_def)
  ultimately show ?thesis
    using t(1,4) unfolding t(5) filter_bytes_append by (intro exI conjI) (auto split: option.splits simp: Let_def)
qed

lemma on_token_scalar:
  assumes "state_is mf st rest tk out err" "t_type t \<noteq> kLengthDelimited"
  shows "\<exists>mf2. on_token r t mf = Some (mf2, None) \<and> state_is mf2 st rest tk (out @ scalar_out r t) err"
  using assms
  by (cases "t_type t") (auto simp: on_token_def state_is_def scalar_out_def AppendVarInt_def AppendFixed_def)

lemma token_scalar:
  assumes "state_is mf st rest tk out err" "eat_next_bytes st = 0" "ready tk" "parse_token bs = Some (t, n)"
    and "in_bytes st + length bs \<le> in_bytes_limit st" "in_bytes_limit st < 2 ^ 32" "t_valid t" "t_type t \<noteq> kLengthDelimited"
  shows "\<exists>mf' tk'. filter_bytes q f (take n bs) mf = pop_finished mf' \<and> ready tk'
      \<and> state_is mf' (st\<lparr>in_bytes := in_bytes st + n\<rparr>) rest tk' (out @ scalar_out (q (msg_index st) (t_field_id t)) t) err"
proof -
  let ?r = "q (msg_index st) (t_field_id t)"
  from token_valid[OF assms(1-7), where q = q and f = f] obtain mf1 tk' where v: "ready tk'"
    "state_is mf1 (st\<lparr>in_bytes := in_bytes st + (n - 1)\<rparr>) rest tk' out err"
    "filter_bytes q f (take n bs) mf = (case on_token ?r t mf1 of None \<Rightarrow> Some (SetUnrecoverableErrorState mf1)
         | Some (mf2, ns) \<Rightarrow> finish_byte (tracked ?r t mf2) ns)" by (auto simp: Let_def)
  from on_token_scalar[OF v(2) assms(8)] obtain mf2 where "on_token ?r t mf1 = Some (mf2, None)"
    "state_is (tracked ?r t mf2) (st\<lparr>in_bytes := in_bytes st + (n - 1)\<rparr>) rest tk' (out @ scalar_out ?r t) err"
    by (auto simp: state_is_tracked)
  moreover have "add32 (in_bytes st + (n - 1)) 1 = in_bytes st + n"
    using parse_token_bounds[OF assms(4)] assms(5,6) by (simp add: add32_small)
  ultimately show ?thesis
    using finish_byte_None[of "tracked ?r t mf2"] v(1,3) by fastforce
qed

subsection \<open>Payloads that are eaten\<close>

definition eaten_out :: "(bytes \<Rightarrow> bytes) \<Rightarrow> StackState \<Rightarrow> bytes \<Rightarrow> bytes \<Rightarrow> bytes" where
  "eaten_out f st out xs =
     (case action st of kDrop \<Rightarrow> out | kPassthrough \<Rightarrow> out @ xs
      | kFilterString \<Rightarrow> if xs = [] then out
          else take (filter_string_ptr st) (out @ xs) @ f (drop (filter_string_ptr st) (out @ xs)))"

lemma FilterOneByte_eat:
  assumes "state_is mf st rest tk out err" "eat_next_bytes st = Suc k"
  defines "st1 \<equiv> st\<lparr>eat_next_bytes := k, in_bytes := add32 (in_bytes st) 1\<rparr>"
  shows "\<exists>mf' out'. FilterOneByte q f b mf = pop_finished mf' \<and> state_is mf' st1 rest tk out' err
      \<and> (\<forall>xs. length xs = k \<longrightarrow> eaten_out f st1 out' xs = eaten_out f st out (b # xs))"
proof -
  define out' where "out' = (case action st of kDrop \<Rightarrow> out | kPassthrough \<Rightarrow> out @ [b]
      | kFilterString \<Rightarrow> if k = 0 then eaten_out f st out [b] else out @ [b])"
  have "state_is (eat_byte f b mf) (st\<lparr>eat_next_bytes := k\<rparr>) rest tk out' err"
    using assms(1,2) by (simp add: state_is_def eat_byte_def Let_def out'_def eaten_out_def split: FilterAction.split)
  from finish_byte_None[OF this] obtain mf' where "finish_byte (eat_byte f b mf) None = pop_finished mf'"
    "state_is mf' st1 rest tk out' err" by (auto simp: st1_def)
  moreover have "eaten_out f st1 out' xs = eaten_out f st out (b # xs)" if "length xs = k" for xs
    using that by (auto simp: eaten_out_def out'_def st1_def split: FilterAction.split)
  moreover have "FilterOneByte q f b mf = finish_byte (eat_byte f b mf) None"
    using assms(1,2) by (simp add: FilterOneByte_def state_is_def)
  ultimately show ?thesis by auto
qed

lemma filter_bytes_eat:
  assumes "state_is mf st rest tk out err" "eat_next_bytes st = length xs"
    and "in_bytes st + length xs \<le> in_bytes_limit st" "in_bytes_limit st < 2 ^ 32"
  shows "\<exists>mf'. Option.bind (pop_finished mf) (filter_bytes q f xs) = pop_finished mf'
      \<and> state_is mf' (st\<lparr>eat_next_bytes := 0, in_bytes := in_bytes st + length xs\<rparr>) rest tk (eaten_out f st out xs) err"
  using assms
proof (induction xs arbitrary: mf st out)
  case Nil
  have "st\<lparr>eat_next_bytes := 0, in_bytes := in_bytes st\<rparr> = st" using Nil(2) by (cases st) simp
  then show ?case
    using Nil(1) by (intro exI[of _ mf]) (auto simp: eaten_out_def split: FilterAction.split intro: Option.bind_rzero)
next
  case (Cons b xs)
  have p: "pop_finished mf = Some mf" using Cons.prems by (intro pop_finished_open) auto
  let ?st1 = "st\<lparr>eat_next_bytes := length xs, in_bytes := in_bytes st + 1\<rparr>"
  obtain mf1 out1 where m: "FilterOneByte q f b mf = pop_finished mf1" "state_is mf1 ?st1 rest tk out1 err"
      "eaten_out f ?st1 out1 xs = eaten_out f st out (b # xs)"
    using FilterOneByte_eat[OF Cons.prems(1), of "length xs" q f b] Cons.prems(2-4) by (auto simp: add32_small)
  have "filter_bytes q f (b # xs) mf = Option.bind (pop_finished mf1) (filter_bytes q f xs)"
    using m(1) by (simp split: option.split)
  then show ?case
    using Cons.IH[OF m(2)] Cons.prems(3,4) p m(3) by auto
qed

subsection \<open>Rewriting a preamble does not make it longer\<close>

lemma retag: "tag AND 7 = ucast (wire_type_code ty) \<Longrightarrow> DejaViewPbMakeTag (ucast (drop_bit 3 (tag :: u64))) ty = ucast tag"
proof (rule bit_word_eqI)
  fix i assume a: "tag AND 7 = ucast (wire_type_code ty)" and i: "i < LENGTH(32)"
  have "bit (tag AND 7) i = bit (ucast (wire_type_code ty) :: u64) i" using a by simp
  then show "bit (DejaViewPbMakeTag (ucast (drop_bit 3 tag)) ty) i = bit (ucast tag :: u32) i"
    using i wire_type_code_bits[of ty i] by (auto simp: DejaViewPbMakeTag_def bit_simps mask_bits)
qed

lemma length_retag:
  assumes "ParseVarInt bs = (tag, m)" "m \<noteq> 0" "tag AND 7 = ucast (wire_type_code ty)"
  shows "length (WriteVarInt (DejaViewPbMakeTag (ucast (drop_bit 3 tag)) ty)) \<le> m"
proof -
  have "unat (ucast tag :: u32) \<le> unat tag" by (simp add: unat_ucast_trunc take_bit_nat_less_eq_self)
  then have "unat (ucast tag :: u32) < 2 ^ (7 * m)" using ParseVarInt_bounds(3)[OF assms(1,2)] by simp
  then show ?thesis unfolding retag[OF assms(3)] by (rule length_WriteVarInt_le[rotated]) (use assms(2) in simp)
qed

lemma length_ucast_varint:
  assumes "ParseVarInt bs = (v, k)" "k \<noteq> 0"
  shows "length (WriteVarInt (ucast v :: u32)) \<le> k"
proof -
  have "unat (ucast v :: u32) \<le> unat v" by (simp add: unat_ucast_trunc take_bit_nat_less_eq_self)
  then have "unat (ucast v :: u32) < 2 ^ (7 * k)" using ParseVarInt_bounds(3)[OF assms] by simp
  then show ?thesis by (rule length_WriteVarInt_le[rotated]) (use assms(2) in simp)
qed

lemma parse_token_cases:
  assumes "parse_token bs = Some (t, n)"
  obtains tag m k v where "ParseVarInt bs = (tag, m)" "m \<noteq> 0" "n = m + k" "t_field_id t = ucast (drop_bit 3 tag)"
    "tag AND 7 = ucast (wire_type_code (t_type t))"
    "t_type t \<in> {kVarInt, kLengthDelimited} \<Longrightarrow> ParseVarInt (drop m bs) = (t_value t, k) \<and> k \<noteq> 0"
    "t_type t = kLengthDelimited \<Longrightarrow> unat (t_value t) \<le> kMaxMessageLength"
    "t_type t = kFixed32 \<Longrightarrow> k = 4" "t_type t = kFixed64 \<Longrightarrow> k = 8"
proof -
  obtain tag m where p: "ParseVarInt bs = (tag, m)" by (cases "ParseVarInt bs") auto
  have m: "m \<noteq> 0" using assms p by (intro notI) (simp add: parse_token_def)
  obtain k where k: "parse_value tag (drop m bs) = Some (t, k)" "n = m + k"
    using parse_token_value[OF p m] assms by (cases "parse_value tag (drop m bs)") auto
  show thesis
    by (rule that[OF p m k(2)])
      (use k(1) in \<open>auto simp: parse_value_def Let_def split: if_splits prod.splits\<close>)
qed

lemma token_len:
  assumes "parse_token bs = Some (t, n)" "t_type t = kLengthDelimited"
  shows "unat (ucast (t_value t) :: u32) = unat (t_value t)"
    "length (len_tag t) + length (WriteVarInt (ucast (t_value t) :: u32)) \<le> n"
proof -
  from parse_token_cases[OF assms(1)] obtain tag m k where p: "ParseVarInt bs = (tag, m)" "m \<noteq> 0" "n = m + k"
    "t_field_id t = ucast (drop_bit 3 tag)" "tag AND 7 = ucast (wire_type_code kLengthDelimited)"
    "ParseVarInt (drop m bs) = (t_value t, k)" "k \<noteq> 0" "unat (t_value t) \<le> kMaxMessageLength"
    using assms(2) by (metis insertI1 insertI2)
  show "unat (ucast (t_value t) :: u32) = unat (t_value t)"
    using p(8) by (simp add: unat_ucast_trunc take_bit_nat_eq_self kMaxMessageLength_def kMessageLengthFieldSize_def)
  show "length (len_tag t) + length (WriteVarInt (ucast (t_value t) :: u32)) \<le> n"
    using length_retag[OF p(1,2,5)] length_ucast_varint[OF p(6,7)] p(3,4) by (simp add: len_tag_def MakeTag_eq)
qed

lemma length_scalar_out:
  assumes "parse_token bs = Some (t, n)"
  shows "length (scalar_out r t) \<le> n"
proof -
  from parse_token_cases[OF assms] obtain tag m k where p: "ParseVarInt bs = (tag, m)" "m \<noteq> 0" "n = m + k"
    "t_field_id t = ucast (drop_bit 3 tag)" "tag AND 7 = ucast (wire_type_code (t_type t))"
    "t_type t \<in> {kVarInt, kLengthDelimited} \<Longrightarrow> ParseVarInt (drop m bs) = (t_value t, k) \<and> k \<noteq> 0"
    "t_type t = kFixed32 \<Longrightarrow> k = 4" "t_type t = kFixed64 \<Longrightarrow> k = 8" by metis
  show ?thesis
    using length_retag[OF p(1,2,5)] ParseVarInt_canonical[of "drop m bs" "t_value t" k] p(3,4,6-8)
    by (cases "t_type t") (auto simp: scalar_out_def AppendVarInt_def AppendFixed_def MakeTag_eq)
qed

subsection \<open>Length-delimited fields\<close>

definition same_frame :: "StackState \<Rightarrow> StackState \<Rightarrow> bool" where
  "same_frame st st' \<longleftrightarrow> in_bytes_limit st' = in_bytes_limit st \<and> msg_index st' = msg_index st
     \<and> out_bytes_written_at_start st' = out_bytes_written_at_start st
     \<and> size_field st' = size_field st \<and> size_field_len st' = size_field_len st"

lemma same_frame_simps [simp]:
  "same_frame st st" "same_frame st (st\<lparr>in_bytes := n\<rparr>)" "same_frame st (st\<lparr>eat_next_bytes := n\<rparr>)"
  by (simp_all add: same_frame_def)

lemma same_frame_trans: "same_frame a b \<Longrightarrow> same_frame b c \<Longrightarrow> same_frame a c"
  by (simp add: same_frame_def)

text \<open>The three outcomes at the last byte of the length.\<close>

lemma on_len_delim_too_long:
  assumes "state_is mf st rest tk out err" "in_bytes st < in_bytes_limit st" "in_bytes_limit st < 2 ^ 32"
    and "in_bytes_limit st - in_bytes st - 1 < unat (ucast (t_value t) :: u32)"
  shows "on_len_delim r t mf = None"
  using assms by (simp add: on_len_delim_def state_is_def Let_def sub32_small)

lemma on_len_delim_nested:
  assumes "state_is mf st rest tk out err" "in_bytes st < in_bytes_limit st" "in_bytes_limit st < 2 ^ 32"
    and "unat (ucast (t_value t) :: u32) \<le> in_bytes_limit st - in_bytes st - 1"
    and "q_allowed r" "nested_msg_field r" "0 < unat (ucast (t_value t) :: u32)"
    and "length out + length (len_tag t) + length (WriteVarInt (ucast (t_value t) :: u32)) < 2 ^ 32"
  shows "\<exists>mf2 child. on_len_delim r t mf = Some (mf2, Some child)
      \<and> state_is mf2 st rest tk (out @ len_tag t @ WriteVarInt (ucast (t_value t) :: u32)) err
      \<and> in_bytes child = 0 \<and> eat_next_bytes child = 0 \<and> in_bytes_limit child = unat (ucast (t_value t) :: u32)
      \<and> msg_index child = nested_msg_index r \<and> size_field child = length (out @ len_tag t)
      \<and> size_field_len child = length (WriteVarInt (ucast (t_value t) :: u32))
      \<and> out_bytes_written_at_start child = length (out @ len_tag t @ WriteVarInt (ucast (t_value t) :: u32))"
  using assms
  by (simp add: on_len_delim_def state_is_def Let_def sub32_small AppendLenDelim_def len_tag_def word_less_nat_alt
      new_stack_state_def out_written_def)

lemma on_len_delim_leaf:
  assumes "state_is mf st rest tk out err" "in_bytes st < in_bytes_limit st" "in_bytes_limit st < 2 ^ 32"
    and "unat (ucast (t_value t) :: u32) \<le> in_bytes_limit st - in_bytes st - 1"
    and "\<not> (q_allowed r \<and> nested_msg_field r \<and> 0 < unat (ucast (t_value t) :: u32))" and "f [] = []"
  shows "\<exists>mf2 st2 out2. on_len_delim r t mf = Some (mf2, None) \<and> state_is mf2 st2 rest tk out2 err
      \<and> same_frame st st2 \<and> in_bytes st2 = in_bytes st \<and> eat_next_bytes st2 = unat (ucast (t_value t) :: u32)
      \<and> (\<forall>xs. eaten_out f st2 out2 xs = out @ leaf_out f r t xs)"
  using assms
  by (auto simp: on_len_delim_def state_is_def Let_def sub32_small AppendLenDelim_def leaf_out_def len_tag_def
      word_less_nat_alt eaten_out_def same_frame_def)

lemma eaten_out_in_bytes [simp]: "eaten_out f (st\<lparr>in_bytes := n\<rparr>) out xs = eaten_out f st out xs"
  by (simp add: eaten_out_def split: FilterAction.split)

lemma token_valid_len:
  assumes "state_is mf st rest tk out err" "eat_next_bytes st = 0" "ready tk" "parse_token bs = Some (t, n)"
    and "in_bytes st + length bs \<le> in_bytes_limit st" "in_bytes_limit st < 2 ^ 32" "t_valid t"
    and "t_type t = kLengthDelimited" "r = q (msg_index st) (t_field_id t)"
  obtains mf1 tk' where "ready tk'" "state_is mf1 (st\<lparr>in_bytes := in_bytes st + (n - 1)\<rparr>) rest tk' out err"
    "filter_bytes q f (take n bs) mf = (case on_len_delim r t mf1 of None \<Rightarrow> Some (SetUnrecoverableErrorState mf1)
         | Some (mf2, ns) \<Rightarrow> finish_byte (tracked r t mf2) ns)"
  using token_valid[OF assms(1-7), where q = q and f = f] assms(8)
  unfolding assms(9) on_token_def Let_def by auto

lemma token_leaf:
  fixes q :: query
  assumes "state_is mf st rest tk out err" "eat_next_bytes st = 0" "ready tk" "parse_token bs = Some (t, n)"
    and "in_bytes st + length bs \<le> in_bytes_limit st" "in_bytes_limit st < 2 ^ 32" "t_valid t"
    and "t_type t = kLengthDelimited" "unat (t_value t) \<le> length bs - n" "f [] = []"
  defines "r \<equiv> q (msg_index st) (t_field_id t)"
  assumes "\<not> (q_allowed r \<and> nested_msg_field r \<and> 0 < unat (t_value t))"
  shows "\<exists>mf' tk' st'. filter_bytes q f (take (n + unat (t_value t)) bs) mf = pop_finished mf' \<and> ready tk'
      \<and> same_frame st st' \<and> eat_next_bytes st' = 0 \<and> in_bytes st' = in_bytes st + n + unat (t_value t)
      \<and> state_is mf' st' rest tk' (out @ leaf_out f r t (take (unat (t_value t)) (drop n bs))) err"
proof -
  define payload where "payload = take (unat (t_value t)) (drop n bs)"
  note len = token_len[OF assms(4,8)] and n = parse_token_bounds[OF assms(4)]
  have pl: "length payload = unat (t_value t)" using assms(9) by (simp add: payload_def)
  obtain mf1 tk' where v: "ready tk'" "state_is mf1 (st\<lparr>in_bytes := in_bytes st + (n - 1)\<rparr>) rest tk' out err"
    "filter_bytes q f (take n bs) mf = (case on_len_delim r t mf1 of None \<Rightarrow> Some (SetUnrecoverableErrorState mf1)
         | Some (mf2, ns) \<Rightarrow> finish_byte (tracked r t mf2) ns)"
    using token_valid_len[OF assms(1-8), of r q f] r_def by blast
  let ?st1 = "st\<lparr>in_bytes := in_bytes st + (n - 1)\<rparr>"
  have lim: "in_bytes ?st1 < in_bytes_limit ?st1" "in_bytes_limit ?st1 < 2 ^ 32"
      "unat (ucast (t_value t) :: u32) \<le> in_bytes_limit ?st1 - in_bytes ?st1 - 1"
      "\<not> (q_allowed r \<and> nested_msg_field r \<and> 0 < unat (ucast (t_value t) :: u32))"
    using assms(5,6,9,12) n len(1) by auto
  from on_len_delim_leaf[OF v(2) lim, of f] assms(10) obtain mf2 st2 out2 where o: "on_len_delim r t mf1 = Some (mf2, None)"
    "state_is (tracked r t mf2) st2 rest tk' out2 err" "same_frame ?st1 st2" "in_bytes st2 = in_bytes st + (n - 1)"
    "eat_next_bytes st2 = length payload" "\<And>xs. eaten_out f st2 out2 xs = out @ leaf_out f r t xs"
    unfolding state_is_tracked pl len(1) by auto
  have "add32 (in_bytes st + (n - 1)) 1 = in_bytes st + n" using n assms(5,6) by (simp add: add32_small)
  with finish_byte_None[OF o(2)] obtain mf3 where f3: "filter_bytes q f (take n bs) mf = pop_finished mf3"
    "state_is mf3 (st2\<lparr>in_bytes := in_bytes st + n\<rparr>) rest tk' out2 err" using v(3) o(1,4) by auto
  have "take (n + unat (t_value t)) bs = take n bs @ payload" by (simp add: payload_def take_add)
  then have "filter_bytes q f (take (n + unat (t_value t)) bs) mf = Option.bind (pop_finished mf3) (filter_bytes q f payload)"
    by (simp add: filter_bytes_append f3(1))
  moreover have "in_bytes st + n + unat (t_value t) \<le> in_bytes_limit st" using assms(5,9) n by linarith
  with filter_bytes_eat[OF f3(2), where xs = payload and q = q and f = f] obtain mf4 where
    "Option.bind (pop_finished mf3) (filter_bytes q f payload) = pop_finished mf4"
    "state_is mf4 (st2\<lparr>eat_next_bytes := 0, in_bytes := in_bytes st + n + length payload\<rparr>) rest tk' (out @ leaf_out f r t payload) err"
    using o(3,5,6) assms(5,6,9) n pl by (auto simp: same_frame_def)
  ultimately show ?thesis
    using v(1) o(3) pl unfolding payload_def[symmetric]
    by (intro exI[of _ mf4] exI[of _ tk'] exI[of _ "st2\<lparr>eat_next_bytes := 0, in_bytes := in_bytes st + n + length payload\<rparr>"])
      (auto simp: same_frame_def)
qed

text \<open>A submessage is opened.\<close>

lemma token_nested:
  fixes q :: query
  assumes "state_is mf st rest tk out err" "eat_next_bytes st = 0" "ready tk" "parse_token bs = Some (t, n)"
    and "in_bytes st + length bs \<le> in_bytes_limit st" "in_bytes_limit st < 2 ^ 32" "t_valid t"
    and "t_type t = kLengthDelimited" "unat (t_value t) \<le> length bs - n" "length out + length bs < 2 ^ 32"
  defines "r \<equiv> q (msg_index st) (t_field_id t)" and "sz \<equiv> WriteVarInt (ucast (t_value t) :: u32)"
  assumes "q_allowed r" "nested_msg_field r" "0 < unat (t_value t)"
  shows "\<exists>mf' tk' child. filter_bytes q f (take n bs) mf = Some mf' \<and> ready tk'
      \<and> state_is mf' child (st\<lparr>in_bytes := in_bytes st + n\<rparr> # rest) tk' (out @ len_tag t @ sz) err
      \<and> in_bytes child = 0 \<and> eat_next_bytes child = 0 \<and> in_bytes_limit child = unat (t_value t)
      \<and> msg_index child = nested_msg_index r \<and> size_field child = length (out @ len_tag t)
      \<and> size_field_len child = length sz \<and> out_bytes_written_at_start child = length (out @ len_tag t @ sz)"
proof -
  note len = token_len[OF assms(4,8), folded sz_def] and n = parse_token_bounds[OF assms(4)]
  obtain mf1 tk' where v: "ready tk'" "state_is mf1 (st\<lparr>in_bytes := in_bytes st + (n - 1)\<rparr>) rest tk' out err"
    "filter_bytes q f (take n bs) mf = (case on_len_delim r t mf1 of None \<Rightarrow> Some (SetUnrecoverableErrorState mf1)
         | Some (mf2, ns) \<Rightarrow> finish_byte (tracked r t mf2) ns)"
    using token_valid_len[OF assms(1-8), of r q f] r_def by blast
  let ?st1 = "st\<lparr>in_bytes := in_bytes st + (n - 1)\<rparr>"
  have lim: "in_bytes ?st1 < in_bytes_limit ?st1" "in_bytes_limit ?st1 < 2 ^ 32"
      "unat (ucast (t_value t) :: u32) \<le> in_bytes_limit ?st1 - in_bytes ?st1 - 1"
      "0 < unat (ucast (t_value t) :: u32)" "length out + length (len_tag t) + length sz < 2 ^ 32"
      "add32 (in_bytes st + (n - 1)) 1 = in_bytes st + n" "in_bytes st + n < in_bytes_limit st"
    using assms(5,6,9,10,15) n len by (auto simp: add32_small)
  from on_len_delim_nested[OF v(2) lim(1-3) assms(13,14) lim(4), folded sz_def, OF lim(5)] obtain mf2 child where o:
    "on_len_delim r t mf1 = Some (mf2, Some child)"
    "state_is (tracked r t mf2) ?st1 rest tk' (out @ len_tag t @ sz) err"
    "in_bytes child = 0 \<and> eat_next_bytes child = 0 \<and> in_bytes_limit child = unat (t_value t)
      \<and> msg_index child = nested_msg_index r \<and> size_field child = length (out @ len_tag t)
      \<and> size_field_len child = length sz \<and> out_bytes_written_at_start child = length (out @ len_tag t @ sz)"
    unfolding state_is_tracked len(1) by blast
  define mf3 where "mf3 = (tracked r t mf2)\<lparr>stack := child # st\<lparr>in_bytes := in_bytes st + n\<rparr> # rest\<rparr>"
  have "finish_byte (tracked r t mf2) (Some child) = Some mf3"
    using o(2) lim(6,7) unfolding finish_byte_def mf3_def by (simp add: state_is_def Let_def)
  moreover have "state_is mf3 child (st\<lparr>in_bytes := in_bytes st + n\<rparr> # rest) tk' (out @ len_tag t @ sz) err"
    using o(2) by (simp add: mf3_def state_is_def)
  ultimately show ?thesis using v(1,3) o(1,3) by (intro exI[of _ mf3] exI[of _ tk'] exI[of _ child]) auto
qed

subsection \<open>The error state\<close>

text \<open>Everything is swallowed from here on; \<open>k\<close> bounds the bytes swallowed so far.\<close>

definition errored :: "nat \<Rightarrow> MessageFilter \<Rightarrow> bool" where
  "errored k mf \<longleftrightarrow> (\<exists>s tk. state_is mf s [] tk [] True \<and> action s = kDrop \<and> in_bytes s \<le> k
     \<and> in_bytes s + eat_next_bytes s = kUint32Max \<and> in_bytes_limit s = kUint32Max)"

lemma errored_Set: "errored 0 (SetUnrecoverableErrorState mf)"
  by (auto simp: errored_def SetUnrecoverableErrorState_def state_is_def new_stack_state_def)

lemma errored_mono: "errored k mf \<Longrightarrow> k \<le> l \<Longrightarrow> errored l mf"
  by (fastforce simp: errored_def)

lemma errored_step:
  assumes "errored k mf" "k + 1 < kUint32Max"
  shows "\<exists>mf'. FilterOneByte q f b mf = Some mf' \<and> errored (k + 1) mf'"
proof -
  from assms(1) obtain s tk where s: "state_is mf s [] tk [] True" "action s = kDrop" "in_bytes s \<le> k"
     "in_bytes s + eat_next_bytes s = kUint32Max" "in_bytes_limit s = kUint32Max" by (auto simp: errored_def)
  then obtain e where e: "eat_next_bytes s = Suc e" using assms(2) by (cases "eat_next_bytes s") auto
  let ?s = "s\<lparr>eat_next_bytes := e, in_bytes := in_bytes s + 1\<rparr>"
  from FilterOneByte_eat[OF s(1) e, of q f b] obtain mf' out' where m: "FilterOneByte q f b mf = pop_finished mf'"
    "state_is mf' ?s [] tk out' True" "\<And>xs. length xs = e \<Longrightarrow> eaten_out f ?s out' xs = eaten_out f s [] (b # xs)"
    using s(3) assms(2) by (auto simp: add32_small kUint32Max_def)
  have "out' = []" using m(3)[of "replicate e 0"] s(2) by (simp add: eaten_out_def)
  moreover have "pop_finished mf' = Some mf'" using pop_finished_open[OF m(2)] s(3,5) assms(2) by simp
  ultimately show ?thesis using m s e by (auto simp: errored_def)
qed

lemma errored_bytes:
  "errored k mf \<Longrightarrow> k + length bs < kUint32Max \<Longrightarrow> \<exists>mf'. filter_bytes q f bs mf = Some mf' \<and> errored (k + length bs) mf'"
proof (induction bs arbitrary: k mf)
  case (Cons b bs)
  from errored_step[OF Cons.prems(1), of q f b] Cons.prems(2) obtain mf1 where
    "FilterOneByte q f b mf = Some mf1" "errored (k + 1) mf1" by auto
  then show ?case using Cons.IH[of "k + 1" mf1] Cons.prems(2) by auto
qed auto

subsection \<open>Walking a message\<close>

text \<open>The field at the head of a message, and the induction over its fields.\<close>

lemma field_induct [case_names Nil malformed ignored scalar too_long nested leaf]:
  fixes q :: query
  assumes "\<And>i. P i []"
    and "\<And>i bs. bs \<noteq> [] \<Longrightarrow> parse_token bs = None \<Longrightarrow> P i bs"
    and "\<And>i bs t n. parse_token bs = Some (t, n) \<Longrightarrow> \<not> t_valid t \<Longrightarrow> P i (drop n bs) \<Longrightarrow> P i bs"
    and "\<And>i bs t n. parse_token bs = Some (t, n) \<Longrightarrow> t_valid t \<Longrightarrow> t_type t \<noteq> kLengthDelimited \<Longrightarrow> P i (drop n bs) \<Longrightarrow> P i bs"
    and "\<And>i bs t n. parse_token bs = Some (t, n) \<Longrightarrow> t_valid t \<Longrightarrow> t_type t = kLengthDelimited \<Longrightarrow>
           length bs - n < unat (t_value t) \<Longrightarrow> P i bs"
    and "\<And>i bs t n r. parse_token bs = Some (t, n) \<Longrightarrow> t_valid t \<Longrightarrow> t_type t = kLengthDelimited \<Longrightarrow>
           unat (t_value t) \<le> length bs - n \<Longrightarrow> r = q i (t_field_id t) \<Longrightarrow>
           q_allowed r \<and> nested_msg_field r \<and> 0 < unat (t_value t) \<Longrightarrow>
           P (nested_msg_index r) (take (unat (t_value t)) (drop n bs)) \<Longrightarrow>
           P i (drop (n + unat (t_value t)) bs) \<Longrightarrow> P i bs"
    and "\<And>i bs t n r. parse_token bs = Some (t, n) \<Longrightarrow> t_valid t \<Longrightarrow> t_type t = kLengthDelimited \<Longrightarrow>
           unat (t_value t) \<le> length bs - n \<Longrightarrow> r = q i (t_field_id t) \<Longrightarrow>
           \<not> (q_allowed r \<and> nested_msg_field r \<and> 0 < unat (t_value t)) \<Longrightarrow>
           P i (drop (n + unat (t_value t)) bs) \<Longrightarrow> P i bs"
  shows "P i bs"
proof (induction bs arbitrary: i rule: length_induct)
  case (1 bs)
  show ?case
  proof (cases "bs = []")
    case False
    show ?thesis
    proof (cases "parse_token bs")
      case None
      then show ?thesis using assms(2) False by blast
    next
      case (Some tn)
      obtain t n where tn: "parse_token bs = Some (t, n)" using Some by (cases tn) auto
      have n: "0 < n" "n \<le> length bs" using parse_token_bounds[OF tn] by auto
      have IH: "length ys < length bs \<Longrightarrow> P j ys" for j ys using 1 by blast
      show ?thesis
        using assms(3)[OF tn, where i = i] assms(4)[OF tn, where i = i] assms(5)[OF tn, where i = i]
          assms(6)[OF tn, where i = i] assms(7)[OF tn, where i = i] IH[of "drop n bs"] IH[of "drop (n + unat (t_value t)) bs"]
          IH[of "take (unat (t_value t)) (drop n bs)"] n by fastforce
    qed
  qed (simp add: assms(1))
qed

lemma ref_filter_Nil [simp]: "ref_filter q f i [] = Some []"
  by (simp add: ref_filter.simps)

lemma ref_filter_malformed: "bs \<noteq> [] \<Longrightarrow> parse_token bs = None \<Longrightarrow> ref_filter q f i bs = None"
  by (simp add: ref_filter.simps[of _ _ _ bs])

lemma ref_filter_ignored:
  "parse_token bs = Some (t, n) \<Longrightarrow> \<not> t_valid t \<Longrightarrow> ref_filter q f i bs = ref_filter q f i (drop n bs)"
  using parse_token_bounds[of bs t n] by (subst ref_filter.simps) (auto simp: Let_def)

lemma ref_filter_scalar:
  "parse_token bs = Some (t, n) \<Longrightarrow> t_valid t \<Longrightarrow> t_type t \<noteq> kLengthDelimited \<Longrightarrow>
   ref_filter q f i bs = map_option (\<lambda>out. scalar_out (q i (t_field_id t)) t @ out) (ref_filter q f i (drop n bs))"
  using parse_token_bounds[of bs t n] by (subst ref_filter.simps) (auto simp: Let_def)

lemma ref_filter_too_long:
  "parse_token bs = Some (t, n) \<Longrightarrow> t_valid t \<Longrightarrow> t_type t = kLengthDelimited \<Longrightarrow>
   length bs - n < unat (t_value t) \<Longrightarrow> ref_filter q f i bs = None"
  using parse_token_bounds[of bs t n] by (subst ref_filter.simps) (auto simp: Let_def)

lemma ref_filter_nested:
  "parse_token bs = Some (t, n) \<Longrightarrow> t_valid t \<Longrightarrow> t_type t = kLengthDelimited \<Longrightarrow>
   unat (t_value t) \<le> length bs - n \<Longrightarrow> r = q i (t_field_id t) \<Longrightarrow>
   q_allowed r \<and> nested_msg_field r \<and> 0 < unat (t_value t) \<Longrightarrow>
   ref_filter q f i bs =
     (case ref_filter q f (nested_msg_index r) (take (unat (t_value t)) (drop n bs)) of None \<Rightarrow> None
      | Some sub \<Rightarrow> map_option (\<lambda>out. len_tag t @ WriteRedundantVarInt (of_nat (length sub) :: u32)
                      (length (WriteVarInt (ucast (t_value t) :: u32))) @ sub @ out)
                   (ref_filter q f i (drop (n + unat (t_value t)) bs)))"
  using parse_token_bounds[of bs t n]
  by (subst ref_filter.simps) (auto simp: Let_def add.commute split: option.split)

lemma ref_filter_leaf:
  "parse_token bs = Some (t, n) \<Longrightarrow> t_valid t \<Longrightarrow> t_type t = kLengthDelimited \<Longrightarrow>
   unat (t_value t) \<le> length bs - n \<Longrightarrow> r = q i (t_field_id t) \<Longrightarrow>
   \<not> (q_allowed r \<and> nested_msg_field r \<and> 0 < unat (t_value t)) \<Longrightarrow>
   ref_filter q f i bs = map_option (\<lambda>out. leaf_out f r t (take (unat (t_value t)) (drop n bs)) @ out)
     (ref_filter q f i (drop (n + unat (t_value t)) bs))"
  using parse_token_bounds[of bs t n]
  by (subst ref_filter.simps) (auto simp: Let_def add.commute)

lemma length_leaf_out:
  assumes "parse_token bs = Some (t, n)" "t_type t = kLengthDelimited" "\<And>xs. length (f xs) = length xs"
  shows "length (leaf_out f r t payload) \<le> n + length payload"
  using token_len(2)[OF assms(1,2)] assms(3) by (simp add: leaf_out_def)

lemma ref_filter_length:
  assumes f: "\<And>xs. length (f xs) = length xs" and "ref_filter q f i bs = Some out"
  shows "length out \<le> length bs"
  using assms(2)
proof (induction i bs arbitrary: out rule: field_induct[where q = q])
  case (ignored i bs t n)
  then show ?case
    using parse_token_bounds[OF ignored(1)] ignored(3)[of out] ref_filter_ignored[OF ignored(1,2), of q f i] by simp
next
  case (scalar i bs t n)
  then obtain o1 where "ref_filter q f i (drop n bs) = Some o1" "out = scalar_out (q i (t_field_id t)) t @ o1"
    by (auto simp: ref_filter_scalar[OF scalar(1-3)])
  then show ?case
    using scalar(4)[of o1] parse_token_bounds[OF scalar(1)] length_scalar_out[OF scalar(1), of "q i (t_field_id t)"] by auto
next
  case (nested i bs t n r)
  then obtain sub o1 where "ref_filter q f (nested_msg_index r) (take (unat (t_value t)) (drop n bs)) = Some sub"
    "ref_filter q f i (drop (n + unat (t_value t)) bs) = Some o1"
    "length out = length (len_tag t) + length (WriteVarInt (ucast (t_value t) :: u32)) + length sub + length o1"
    using ref_filter_nested[OF nested(1-4), of r q i f] by (auto split: option.splits)
  then show ?case
    using nested(4) nested(7)[of sub] nested(8)[of o1] parse_token_bounds[OF nested(1)] token_len(2)[OF nested(1,3)] by auto
next
  case (leaf i bs t n r)
  then obtain o1 where "ref_filter q f i (drop (n + unat (t_value t)) bs) = Some o1"
    "out = leaf_out f r t (take (unat (t_value t)) (drop n bs)) @ o1"
    using ref_filter_leaf[OF leaf(1-4), of r q i f] by auto
  then show ?case
    using leaf(4) leaf(7)[of o1] parse_token_bounds[OF leaf(1)]
      length_leaf_out[OF leaf(1,3) f, of r "take (unat (t_value t)) (drop n bs)"] by auto
qed (simp_all add: ref_filter_malformed ref_filter_too_long)

subsection \<open>The simulation\<close>

text \<open>What is known of the filter at a field boundary, with the bytes \<open>bs\<close> left in the innermost
  open message.\<close>

definition at_field :: "MessageFilter \<Rightarrow> StackState \<Rightarrow> StackState list \<Rightarrow> bytes \<Rightarrow> bytes \<Rightarrow> bool \<Rightarrow> bool" where
  "at_field mf st rest out bs err \<longleftrightarrow> (\<exists>tk. state_is mf st rest tk out err \<and> ready tk) \<and> eat_next_bytes st = 0
     \<and> in_bytes st + length bs = in_bytes_limit st \<and> in_bytes_limit st < kUint32Max \<and> rest \<noteq> []
     \<and> length out + length bs < 2 ^ 32"

definition field_sim :: "query \<Rightarrow> (bytes \<Rightarrow> bytes) \<Rightarrow> u32 \<Rightarrow> bytes \<Rightarrow> bool" where
  "field_sim q f i bs \<longleftrightarrow> (\<forall>mf st rest out err. at_field mf st rest out bs err \<longrightarrow> msg_index st = i \<longrightarrow>
     (case ref_filter q f i bs of
        None \<Rightarrow> \<exists>mf'. Option.bind (pop_finished mf) (filter_bytes q f bs) = Some mf' \<and> errored (length bs) mf'
      | Some o1 \<Rightarrow> \<exists>mf' st'. Option.bind (pop_finished mf) (filter_bytes q f bs) = pop_finished mf'
          \<and> same_frame st st' \<and> at_field mf' st' rest (out @ o1) [] err))"

lemma at_field_pop: "at_field mf st rest out bs err \<Longrightarrow> bs \<noteq> [] \<Longrightarrow> pop_finished mf = Some mf"
  using pop_finished_open[of mf st rest _ out err] by (cases bs) (auto simp: at_field_def)

lemma at_fieldD:
  assumes "at_field mf st rest out bs err"
  obtains tk where "state_is mf st rest tk out err" "eat_next_bytes st = 0" "ready tk"
    "in_bytes st + length bs \<le> in_bytes_limit st" "in_bytes_limit st < 2 ^ 32" "in_bytes st + length bs = in_bytes_limit st"
    "in_bytes_limit st < kUint32Max" "rest \<noteq> []" "length out + length bs < 2 ^ 32"
  using assms by (auto simp: at_field_def kUint32Max_def)

lemma field_simD:
  assumes "field_sim q f i bs" "at_field mf st rest out bs err" "msg_index st = i"
  shows "ref_filter q f i bs = None \<Longrightarrow> \<exists>mf'. Option.bind (pop_finished mf) (filter_bytes q f bs) = Some mf' \<and> errored (length bs) mf'"
    "ref_filter q f i bs = Some o1 \<Longrightarrow> \<exists>mf' st'. Option.bind (pop_finished mf) (filter_bytes q f bs) = pop_finished mf'
          \<and> same_frame st st' \<and> at_field mf' st' rest (out @ o1) [] err"
  using assms(1)[unfolded field_sim_def, rule_format, OF assms(2,3)] by simp_all

text \<open>One field, then the rest of the message.\<close>

lemma field_sim_step:
  assumes "at_field mf st rest out bs err" "0 < n" "n \<le> length bs" "field_sim q f (msg_index st) (drop n bs)"
    and "filter_bytes q f (take n bs) mf = pop_finished mf1" "at_field mf1 st1 rest (out @ o1) (drop n bs) err" "same_frame st st1"
  shows "case ref_filter q f (msg_index st) (drop n bs) of
        None \<Rightarrow> \<exists>mf'. Option.bind (pop_finished mf) (filter_bytes q f bs) = Some mf' \<and> errored (length bs) mf'
      | Some o2 \<Rightarrow> \<exists>mf' st'. Option.bind (pop_finished mf) (filter_bytes q f bs) = pop_finished mf'
          \<and> same_frame st st' \<and> at_field mf' st' rest (out @ o1 @ o2) [] err"
proof -
  have m: "msg_index st1 = msg_index st" using assms(7) by (simp add: same_frame_def)
  have "Option.bind (pop_finished mf) (filter_bytes q f bs) = Option.bind (pop_finished mf1) (filter_bytes q f (drop n bs))"
    using at_field_pop[OF assms(1)] assms(2,3,5) filter_bytes_append[of q f "take n bs" "drop n bs" mf] by (cases "bs = []") auto
  then show ?thesis
    using field_simD[OF assms(4,6) m] same_frame_trans[OF assms(7)] errored_mono[of "length (drop n bs)" _ "length bs"]
    by (auto split: option.split) blast+
qed

lemma pop_not_idle:
  assumes "state_is mf st rest tk out err" "rest \<noteq> []" "in_bytes_limit st \<le> in_bytes st" "\<not> idle tk"
  shows "\<exists>mf'. pop_finished mf = Some (SetUnrecoverableErrorState mf')"
proof -
  obtain p ps where "rest = p # ps" using assms(2) by (cases rest) auto
  then show ?thesis using assms by (subst pop_finished.simps) (auto simp: state_is_def Let_def)
qed

lemma field_sim_malformed:
  assumes "bs \<noteq> []" "parse_token bs = None"
  shows "field_sim q f i bs"
  unfolding field_sim_def ref_filter_malformed[OF assms] option.case
proof (intro allI impI)
  fix mf st rest out err
  assume a: "at_field mf st rest out bs err"
  from a obtain tk where s: "state_is mf st rest tk out err" "eat_next_bytes st = 0" "ready tk"
    "in_bytes st + length bs = in_bytes_limit st" "in_bytes_limit st < 2 ^ 32" "rest \<noteq> []" by (rule at_fieldD) blast
  obtain xs b where bs: "bs = xs @ [b]" using assms(1) by (cases bs rule: rev_cases) auto
  from Push_all_no_token[OF s(3) assms(2,1)] obtain tk' where p: "Push_all bs tk = (replicate (length bs) null_token, tk')" "\<not> idle tk'" by blast
  obtain ts tk1 where pre: "Push_all xs tk = (ts, tk1)" by (cases "Push_all xs tk") auto
  have "length ts = length xs" using pre length_Push_all[of xs tk] by simp
  then have ts: "\<forall>t \<in> set ts. \<not> t_valid t" "Push b tk1 = (null_token, tk')"
    using p(1) pre unfolding bs Push_all_append
    by (auto split: prod.splits simp: replicate_append_same[symmetric] null_token_def t_valid_def)
  have "in_bytes st + length xs < in_bytes_limit st" using s(4) bs by simp
  from filter_bytes_null[OF s(1,2) pre ts(1) this s(5), where q = q and f = f] obtain mf1 where mf1:
    "filter_bytes q f xs mf = Some mf1" "state_is mf1 (st\<lparr>in_bytes := in_bytes st + length xs\<rparr>) rest tk1 out err" by blast
  have nv: "\<not> t_valid null_token" by (simp add: null_token_def t_valid_def)
  from FilterOneByte_null[OF mf1(2) _ ts(2) nv, where q = q and f = f] obtain mf2 where mf2:
    "FilterOneByte q f b mf1 = pop_finished mf2" "state_is mf2 (st\<lparr>in_bytes := in_bytes_limit st\<rparr>) rest tk' out err"
    using s(2,4,5) bs by (auto simp: add32_small)
  from pop_not_idle[OF mf2(2) s(6) _ p(2)] obtain mf3 where "pop_finished mf2 = Some (SetUnrecoverableErrorState mf3)" by auto
  then have "filter_bytes q f bs mf = Some (SetUnrecoverableErrorState mf3)"
    using mf1(1) mf2(1) by (simp add: bs filter_bytes_append)
  then show "\<exists>mf'. Option.bind (pop_finished mf) (filter_bytes q f bs) = Some mf' \<and> errored (length bs) mf'"
    using at_field_pop[OF a assms(1)] errored_mono[OF errored_Set] by auto
qed

lemma field_sim_too_long:
  assumes "parse_token bs = Some (t, n)" "t_valid t" "t_type t = kLengthDelimited" "length bs - n < unat (t_value t)"
  shows "field_sim q f i bs"
  unfolding field_sim_def ref_filter_too_long[OF assms] option.case
proof (intro allI impI)
  fix mf st rest out err
  assume a: "at_field mf st rest out bs err"
  from a obtain tk where s: "state_is mf st rest tk out err" "eat_next_bytes st = 0" "ready tk"
    "in_bytes st + length bs \<le> in_bytes_limit st" "in_bytes_limit st < 2 ^ 32"
    "in_bytes st + length bs = in_bytes_limit st" "in_bytes_limit st < kUint32Max" by (rule at_fieldD) blast
  note n = parse_token_bounds[OF assms(1)]
  define r where "r = q (msg_index st) (t_field_id t)"
  obtain mf1 tk' where v: "state_is mf1 (st\<lparr>in_bytes := in_bytes st + (n - 1)\<rparr>) rest tk' out err"
    "filter_bytes q f (take n bs) mf = (case on_len_delim r t mf1 of None \<Rightarrow> Some (SetUnrecoverableErrorState mf1)
         | Some (mf2, ns) \<Rightarrow> finish_byte (tracked r t mf2) ns)"
    using token_valid_len[OF s(1-3) assms(1) s(4,5) assms(2,3), of r q f] r_def by blast
  have "on_len_delim r t mf1 = None"
    using s(5,6) n assms(4) token_len(1)[OF assms(1,3)] by (intro on_len_delim_too_long[OF v(1)]) auto
  then have "filter_bytes q f (take n bs) mf = Some (SetUnrecoverableErrorState mf1)" using v(2) by simp
  moreover have "0 + length (drop n bs) < kUint32Max" using s(6,7) unfolding length_drop by linarith
  then obtain mf2 where "filter_bytes q f (drop n bs) (SetUnrecoverableErrorState mf1) = Some mf2" "errored (length (drop n bs)) mf2"
    using errored_bytes[OF errored_Set, of "drop n bs" q f mf1] by auto
  moreover have "bs \<noteq> []" using n by auto
  ultimately show "\<exists>mf'. Option.bind (pop_finished mf) (filter_bytes q f bs) = Some mf' \<and> errored (length bs) mf'"
    using at_field_pop[OF a] filter_bytes_append[of q f "take n bs" "drop n bs" mf] errored_mono[of _ mf2 "length bs"] by auto
qed

text \<open>Popping a finished submessage backfills its size and charges its bytes to the parent.\<close>

lemma pop_child:
  assumes "state_is mf child (p # ps) tk (pre @ hole @ sub) err" "idle tk" "in_bytes child = in_bytes_limit child"
    and "size_field child = length pre" "size_field_len child = length hole"
    and "out_bytes_written_at_start child = length (pre @ hole)" "length (pre @ hole @ sub) < 2 ^ 32"
    and "in_bytes p + in_bytes child < 2 ^ 32"
  shows "\<exists>mf'. pop_finished mf = pop_finished mf' \<and>
     state_is mf' (p\<lparr>in_bytes := in_bytes p + in_bytes child\<rparr>) ps tk
       (pre @ WriteRedundantVarInt (of_nat (length sub) :: u32) (length hole) @ sub) err"
proof -
  have "sub32 (out_written mf) (out_bytes_written_at_start child) = length sub"
    using assms(1,6,7) by (simp add: out_written_def state_is_def sub32_small)
  then have b: "backfill child mf = pre @ WriteRedundantVarInt (of_nat (length sub) :: u32) (length hole) @ sub"
    using assms(1,4,5) by (simp add: backfill_def state_is_def)
  show ?thesis
    using assms(1-3,8)
    by (intro exI[of _ "mf\<lparr>mf_out := backfill child mf, stack := p\<lparr>in_bytes := in_bytes p + in_bytes child\<rparr> # ps\<rparr>"])
      (simp add: pop_finished.simps[of mf] state_is_def Let_def add32_small b)
qed

lemma after_child:
  assumes "at_field mf st2 (p # ps) ((pre @ hole) @ sub) [] err"
    and "size_field st2 = length pre" "size_field_len st2 = length hole" "out_bytes_written_at_start st2 = length (pre @ hole)"
    and "in_bytes p + in_bytes_limit st2 + length rs = in_bytes_limit p" "eat_next_bytes p = 0" "in_bytes_limit p < kUint32Max"
    and "ps \<noteq> []" "length (pre @ hole @ sub) + length rs < 2 ^ 32"
  shows "\<exists>mf'. pop_finished mf = pop_finished mf'
      \<and> at_field mf' (p\<lparr>in_bytes := in_bytes p + in_bytes_limit st2\<rparr>) ps
          (pre @ WriteRedundantVarInt (of_nat (length sub) :: u32) (length hole) @ sub) rs err"
proof -
  from assms(1) obtain tk where s: "state_is mf st2 (p # ps) tk (pre @ hole @ sub) err" "ready tk" "in_bytes st2 = in_bytes_limit st2"
    by (auto simp: at_field_def)
  have "in_bytes p + in_bytes st2 < 2 ^ 32" using s(3) assms(5,7) by (simp add: kUint32Max_def)
  then obtain mf' where "pop_finished mf = pop_finished mf'" "state_is mf' (p\<lparr>in_bytes := in_bytes p + in_bytes_limit st2\<rparr>) ps tk
       (pre @ WriteRedundantVarInt (of_nat (length sub) :: u32) (length hole) @ sub) err"
    using pop_child[OF s(1) _ s(3) assms(2,3,4)] s(2,3) assms(9) by (auto simp: ready_def)
  then show ?thesis using s(2) assms(5-9) by (auto simp: at_field_def)
qed

lemma field_sim_nested:
  fixes q :: query
  assumes t: "parse_token bs = Some (t, n)" "t_valid t" "t_type t = kLengthDelimited" "unat (t_value t) \<le> length bs - n"
    and r: "r = q i (t_field_id t)" "q_allowed r \<and> nested_msg_field r \<and> 0 < unat (t_value t)"
    and f: "\<And>xs. length (f xs) = length xs"
    and sub: "field_sim q f (nested_msg_index r) (take (unat (t_value t)) (drop n bs))"
    and rest: "field_sim q f i (drop (n + unat (t_value t)) bs)"
  shows "field_sim q f i bs"
  unfolding field_sim_def
proof (intro allI impI)
  fix mf st ps out err
  assume a: "at_field mf st ps out bs err" and i: "msg_index st = i"
  from a obtain tk where s: "state_is mf st ps tk out err" "eat_next_bytes st = 0" "ready tk"
    "in_bytes st + length bs \<le> in_bytes_limit st" "in_bytes_limit st < 2 ^ 32" "in_bytes st + length bs = in_bytes_limit st"
    "in_bytes_limit st < kUint32Max" "ps \<noteq> []" "length out + length bs < 2 ^ 32" by (rule at_fieldD) blast
  define payload where "payload = take (unat (t_value t)) (drop n bs)"
  define sz where "sz = WriteVarInt (ucast (t_value t) :: u32)"
  define rs where "rs = drop (n + unat (t_value t)) bs"
  note n = parse_token_bounds[OF t(1)] and len = token_len[OF t(1,3), folded sz_def]
  have pl: "length payload = unat (t_value t)" "n + length payload + length rs = length bs" "bs \<noteq> []"
      "take (n + length payload) bs = take n bs @ payload"
    using t(4) n by (auto simp: payload_def rs_def take_add)
  from token_nested[OF s(1-3) t(1) s(4,5) t(2,3,4) s(9), where q = q and f = f, folded sz_def] obtain mf1 tk' child where c:
    "filter_bytes q f (take n bs) mf = Some mf1" "ready tk'"
    "state_is mf1 child (st\<lparr>in_bytes := in_bytes st + n\<rparr> # ps) tk' (out @ len_tag t @ sz) err"
    "in_bytes child = 0" "eat_next_bytes child = 0" "in_bytes_limit child = length payload"
    "msg_index child = nested_msg_index r" "size_field child = length (out @ len_tag t)"
    "size_field_len child = length sz" "out_bytes_written_at_start child = length (out @ len_tag t @ sz)"
    using r i pl(1) by auto
  have af: "at_field mf1 child (st\<lparr>in_bytes := in_bytes st + n\<rparr> # ps) (out @ len_tag t @ sz) payload err"
    using c s(6,7,9) pl(2) len(2) by (auto simp: at_field_def)
  have p1: "pop_finished mf1 = Some mf1" using at_field_pop[OF af] r(2) pl(1) by (cases payload) auto
  have "bs = (take n bs @ payload) @ rs" using pl(1,4) by (metis append_take_drop_id rs_def)
  then have "filter_bytes q f bs mf = filter_bytes q f ((take n bs @ payload) @ rs) mf" by simp
  then have eq: "Option.bind (pop_finished mf) (filter_bytes q f bs) =
      Option.bind (Option.bind (pop_finished mf1) (filter_bytes q f payload)) (filter_bytes q f rs)"
    using at_field_pop[OF a pl(3)] p1 c(1) unfolding filter_bytes_append by simp
  show "case ref_filter q f i bs of
        None \<Rightarrow> \<exists>mf'. Option.bind (pop_finished mf) (filter_bytes q f bs) = Some mf' \<and> errored (length bs) mf'
      | Some o1 \<Rightarrow> \<exists>mf' st'. Option.bind (pop_finished mf) (filter_bytes q f bs) = pop_finished mf'
          \<and> same_frame st st' \<and> at_field mf' st' ps (out @ o1) [] err"
  proof (cases "ref_filter q f (nested_msg_index r) payload")
    case None
    then obtain mf2 where "Option.bind (pop_finished mf1) (filter_bytes q f payload) = Some mf2" "errored (length payload) mf2"
      using field_simD(1)[OF sub[folded payload_def] af c(7)] by blast
    moreover obtain mf3 where "filter_bytes q f rs mf2 = Some mf3" "errored (length payload + length rs) mf3"
      using errored_bytes[OF \<open>errored (length payload) mf2\<close>, of rs q f] s(6,7) pl(2) by auto
    ultimately show ?thesis
      using eq ref_filter_nested[OF t, of r q i f] r None errored_mono[of _ mf3 "length bs"] pl(2)
      by (simp flip: payload_def)
  next
    case (Some o1)
    have ol: "length o1 \<le> length payload" using ref_filter_length[OF f Some] .
    obtain mf2 st2 where m2: "Option.bind (pop_finished mf1) (filter_bytes q f payload) = pop_finished mf2"
      "same_frame child st2" "at_field mf2 st2 (st\<lparr>in_bytes := in_bytes st + n\<rparr> # ps) ((out @ len_tag t @ sz) @ o1) [] err"
      using field_simD(2)[OF sub[folded payload_def] af c(7) Some] by blast
    have fr: "size_field st2 = length (out @ len_tag t)" "size_field_len st2 = length sz"
      "out_bytes_written_at_start st2 = length ((out @ len_tag t) @ sz)" "in_bytes_limit st2 = length payload"
      using m2(2) c(6,8-10) by (simp_all add: same_frame_def)
    let ?o = "len_tag t @ WriteRedundantVarInt (of_nat (length o1) :: u32) (length sz) @ o1"
    obtain mf3 where m3: "pop_finished mf2 = pop_finished mf3"
      "at_field mf3 (st\<lparr>in_bytes := in_bytes st + n + length payload\<rparr>) ps (out @ ?o) rs err"
      using after_child[of mf2 st2 "st\<lparr>in_bytes := in_bytes st + n\<rparr>" ps "out @ len_tag t" sz o1 err rs] m2(3) fr ol len(2) s pl(2)
      by auto
    show ?thesis
      using field_simD[OF rest[folded rs_def] m3(2)] i eq m2(1) m3(1) ref_filter_nested[OF t, of r q i f] r Some
        errored_mono[of "length rs" _ "length bs"] pl(2)
      unfolding payload_def[symmetric] rs_def[symmetric] sz_def[symmetric]
      by (fastforce simp: same_frame_def split: option.split)
  qed
qed

text \<open>A field that is dealt with in \<open>n\<close> bytes and emits \<open>o1\<close>.\<close>

lemma field_sim_emit:
  assumes "\<And>mf st ps out err. at_field mf st ps out bs err \<Longrightarrow> msg_index st = i \<Longrightarrow>
      \<exists>mf1 st1. filter_bytes q f (take n bs) mf = pop_finished mf1 \<and> same_frame st st1 \<and> at_field mf1 st1 ps (out @ o1) (drop n bs) err"
    and "0 < n" "n \<le> length bs" "field_sim q f i (drop n bs)"
    and "ref_filter q f i bs = map_option (\<lambda>out. o1 @ out) (ref_filter q f i (drop n bs))"
  shows "field_sim q f i bs"
  unfolding field_sim_def assms(5)
proof (intro allI impI)
  fix mf st ps out err
  assume a: "at_field mf st ps out bs err" and i: "msg_index st = i"
  from assms(1)[OF this] obtain mf1 st1 where m: "filter_bytes q f (take n bs) mf = pop_finished mf1" "same_frame st st1"
    "at_field mf1 st1 ps (out @ o1) (drop n bs) err" by blast
  from field_sim_step[OF a assms(2,3) _ m(1,3,2)] assms(4) i
  show "case map_option (\<lambda>out. o1 @ out) (ref_filter q f i (drop n bs)) of
        None \<Rightarrow> \<exists>mf'. Option.bind (pop_finished mf) (filter_bytes q f bs) = Some mf' \<and> errored (length bs) mf'
      | Some o1 \<Rightarrow> \<exists>mf' st'. Option.bind (pop_finished mf) (filter_bytes q f bs) = pop_finished mf'
          \<and> same_frame st st' \<and> at_field mf' st' ps (out @ o1) [] err"
    by (cases "ref_filter q f i (drop n bs)") auto
qed

lemma field_sim_leaf:
  fixes q :: query
  assumes t: "parse_token bs = Some (t, n)" "t_valid t" "t_type t = kLengthDelimited" "unat (t_value t) \<le> length bs - n"
    and r: "r = q i (t_field_id t)" "\<not> (q_allowed r \<and> nested_msg_field r \<and> 0 < unat (t_value t))"
    and f: "\<And>xs. length (f xs) = length xs"
    and rest: "field_sim q f i (drop (n + unat (t_value t)) bs)"
  shows "field_sim q f i bs"
proof (rule field_sim_emit[OF _ _ _ rest])
  define k where "k = n + unat (t_value t)"
  define o1 where "o1 = leaf_out f r t (take (unat (t_value t)) (drop n bs))"
  note n = parse_token_bounds[OF t(1)]
  have k: "0 < k" "k \<le> length bs" using n t(4) by (auto simp: k_def)
  then show "0 < n + unat (t_value t)" "n + unat (t_value t) \<le> length bs" by (simp_all add: k_def)
  show "ref_filter q f i bs = map_option (\<lambda>out. leaf_out f r t (take (unat (t_value t)) (drop n bs)) @ out)
     (ref_filter q f i (drop (n + unat (t_value t)) bs))" using ref_filter_leaf[OF t, of r q i f] r by blast
  fix mf st ps out err
  assume a: "at_field mf st ps out bs err" and i: "msg_index st = i"
  from a obtain tk where s: "state_is mf st ps tk out err" "eat_next_bytes st = 0" "ready tk"
    "in_bytes st + length bs \<le> in_bytes_limit st" "in_bytes_limit st < 2 ^ 32" by (rule at_fieldD) blast
  have ol: "length o1 \<le> k"
    using length_leaf_out[OF t(1,3) f, of r "take (unat (t_value t)) (drop n bs)"] by (auto simp: k_def o1_def)
  have f0: "f [] = []" using f[of "[]"] by simp
  from token_leaf[OF s(1-3) t(1) s(4,5) t(2,3,4), of f q] obtain mf1 tk' st1 where m:
    "filter_bytes q f (take k bs) mf = pop_finished mf1" "ready tk'" "same_frame st st1" "eat_next_bytes st1 = 0"
    "in_bytes st1 = in_bytes st + k" "state_is mf1 st1 ps tk' (out @ o1) err"
    using r i f0 by (auto simp: k_def o1_def add.assoc)
  then have "at_field mf1 st1 ps (out @ o1) (drop k bs) err"
    using a k ol by (auto simp: at_field_def same_frame_def)
  then show "\<exists>mf1 st1. filter_bytes q f (take (n + unat (t_value t)) bs) mf = pop_finished mf1 \<and> same_frame st st1
      \<and> at_field mf1 st1 ps (out @ leaf_out f r t (take (unat (t_value t)) (drop n bs))) (drop (n + unat (t_value t)) bs) err"
    using m(1,3) unfolding k_def o1_def by blast
qed

lemma field_sim_flat:
  assumes t: "parse_token bs = Some (t, n)" "t_valid t \<Longrightarrow> t_type t \<noteq> kLengthDelimited" and rest: "field_sim q f i (drop n bs)"
  shows "field_sim q f i bs"
proof -
  note n = parse_token_bounds[OF t(1)]
  define o1 where "o1 = (if t_valid t then scalar_out (q i (t_field_id t)) t else [])"
  show ?thesis
  proof (rule field_sim_emit[OF _ _ _ rest])
    show "ref_filter q f i bs = map_option (\<lambda>out. o1 @ out) (ref_filter q f i (drop n bs))"
      using ref_filter_ignored[OF t(1), of q f i] ref_filter_scalar[OF t(1), of q f i] t(2) by (auto simp: o1_def option.map_ident)
    fix mf st ps out err
    assume a: "at_field mf st ps out bs err" and i: "msg_index st = i"
    from a obtain tk where s: "state_is mf st ps tk out err" "eat_next_bytes st = 0" "ready tk"
      "in_bytes st + length bs \<le> in_bytes_limit st" "in_bytes_limit st < 2 ^ 32" by (rule at_fieldD) blast
    have "\<exists>mf1 tk'. filter_bytes q f (take n bs) mf = pop_finished mf1 \<and> ready tk'
        \<and> state_is mf1 (st\<lparr>in_bytes := in_bytes st + n\<rparr>) ps tk' (out @ o1) err"
      using token_invalid[OF s(1-3) t(1) s(4,5), where q = q and f = f] token_scalar[OF s(1-3) t(1) s(4,5), where q = q and f = f] t(2) i
      by (auto simp: o1_def)
    then obtain mf1 tk' where m: "filter_bytes q f (take n bs) mf = pop_finished mf1" "ready tk'"
      "state_is mf1 (st\<lparr>in_bytes := in_bytes st + n\<rparr>) ps tk' (out @ o1) err" by blast
    have "length o1 \<le> n" using length_scalar_out[OF t(1)] by (simp add: o1_def)
    then have "at_field mf1 (st\<lparr>in_bytes := in_bytes st + n\<rparr>) ps (out @ o1) (drop n bs) err"
      using m(2,3) a n by (auto simp: at_field_def)
    then show "\<exists>mf1 st1. filter_bytes q f (take n bs) mf = pop_finished mf1 \<and> same_frame st st1
        \<and> at_field mf1 st1 ps (out @ o1) (drop n bs) err" using m(1) by (intro exI conjI) auto
  qed (use n in auto)
qed

lemma field_sim_all:
  assumes f: "\<And>xs. length (f xs) = length xs"
  shows "field_sim q f i bs"
proof (induction i bs rule: field_induct[where q = q])
  case (Nil i)
  have "Option.bind m (filter_bytes q f []) = m" for m by (cases m) simp_all
  then show ?case unfolding field_sim_def by simp (metis same_frame_simps(1))
next
  case (malformed i bs)
  then show ?case by (rule field_sim_malformed)
next
  case (ignored i bs t n)
  then show ?case by (intro field_sim_flat[OF ignored(1)]) auto
next
  case (scalar i bs t n)
  then show ?case by (intro field_sim_flat[OF scalar(1)]) auto
next
  case (too_long i bs t n)
  then show ?case by (rule field_sim_too_long)
next
  case (nested i bs t n r)
  then show ?case using field_sim_nested[OF nested(1-4), of r q i f] f by blast
next
  case (leaf i bs t n r)
  then show ?case using field_sim_leaf[OF leaf(1-4), of r q i f] f by blast
qed

subsection \<open>Whole messages\<close>

lemma fold_add32:
  "k + length (concat slices) < 2 ^ 32 \<Longrightarrow> fold (\<lambda>s n. add32 n (length s)) slices k = k + length (concat slices)"
  by (induction slices arbitrary: k) (simp_all add: add32_small add.assoc)

lemma at_field_start:
  assumes "length bs < kUint32Max"
  shows "at_field (start_message (length bs) mf)
      (new_stack_state\<lparr>in_bytes_limit := length bs, msg_index := root_msg_index mf\<rparr>)
      [new_stack_state\<lparr>in_bytes_limit := kUint32Max, eat_next_bytes := kUint32Max\<rparr>] [] bs False"
  using assms ready_new by (auto simp: at_field_def state_is_def start_message_def new_stack_state_def kUint32Max_def)

lemma pop_root:
  assumes "at_field mf st [s0] out [] False" "size_field st = 0" "size_field_len st = 0" "out_bytes_written_at_start st = 0"
    and "in_bytes s0 = 0" "in_bytes_limit s0 = kUint32Max" "length out < 2 ^ 32"
  shows "\<exists>mf' tk. pop_finished mf = Some mf' \<and> idle tk
      \<and> state_is mf' (s0\<lparr>in_bytes := in_bytes_limit st\<rparr>) [] tk out False"
proof -
  from assms(1) obtain tk where s: "state_is mf st [s0] tk ([] @ [] @ out) False" "ready tk" "in_bytes st = in_bytes_limit st"
    "in_bytes_limit st < kUint32Max" by (auto simp: at_field_def)
  from pop_child[OF s(1) _ s(3)] obtain mf' where m: "pop_finished mf = pop_finished mf'"
    "state_is mf' (s0\<lparr>in_bytes := in_bytes_limit st\<rparr>) [] tk out False"
    using s(2-4) assms by (auto simp: ready_def kUint32Max_def)
  moreover have "pop_finished mf' = Some mf'" using pop_finished_open[OF m(2)] s(4) assms(6) by simp
  ultimately show ?thesis using s(2) by (auto simp: ready_def)
qed

context in_place_filter
begin

lemma filter_message:
  fixes query :: query and mf :: MessageFilter
  assumes "concat slices \<noteq> []" "length (concat slices) < kUint32Max"
  defines "res \<equiv> ref_filter query maybe_filter (root_msg_index mf) (concat slices)"
  shows "\<exists>mf'. FilterMessageFragments query maybe_filter slices mf
      = Some (\<lparr>fm_data = (case res of None \<Rightarrow> [] | Some out \<Rightarrow> out), fm_error = (res = None)\<rparr>, mf')"
proof -
  let ?bs = "concat slices"
  let ?root = "new_stack_state\<lparr>in_bytes_limit := length ?bs, msg_index := root_msg_index mf\<rparr>"
  let ?s0 = "new_stack_state\<lparr>in_bytes_limit := kUint32Max, eat_next_bytes := kUint32Max\<rparr>"
  let ?mf0 = "start_message (length ?bs) mf"
  note af = at_field_start[OF assms(2), of mf]
  have total: "fold (\<lambda>s n. add32 n (length s)) slices 0 = length ?bs"
    using fold_add32[of 0 slices] assms(2) by (simp add: kUint32Max_def)
  note sim = field_simD[OF field_sim_all[OF length_maybe_filter, of query "root_msg_index mf" ?bs] af, folded res_def]
  have p0: "pop_finished ?mf0 = Some ?mf0" by (rule at_field_pop[OF af assms(1)])
  show ?thesis
  proof (cases res)
    case None
    then obtain mf' where "filter_bytes query maybe_filter ?bs ?mf0 = Some mf'" "errored (length ?bs) mf'"
      using sim(1) p0 by auto
    then show ?thesis using None by (auto simp: FilterMessageFragments_def total errored_def state_is_def)
  next
    case (Some out)
    then obtain mf1 st1 where m1: "filter_bytes query maybe_filter ?bs ?mf0 = pop_finished mf1" "same_frame ?root st1"
      "at_field mf1 st1 [?s0] out [] False" using sim(2)[of out] p0 by auto
    have ol: "length out \<le> length ?bs" using ref_filter_length[OF length_maybe_filter] Some by (simp add: res_def)
    obtain mf2 tk where "pop_finished mf1 = Some mf2" "idle tk" "state_is mf2 (?s0\<lparr>in_bytes := length ?bs\<rparr>) [] tk out False"
      using pop_root[OF m1(3)] m1(2) ol assms(2) by (auto simp: same_frame_def new_stack_state_def kUint32Max_def)
    then show ?thesis
      using Some m1(1) ol by (auto simp: FilterMessageFragments_def total state_is_def)
  qed
qed

end

text \<open>C1. On every non-empty input below 4 GiB, in whatever slices it arrives, the byte-by-byte filter
  produces exactly what the recursive reference filter produces from the whole message, with the
  loaded bytecode as the allow-list and the string rules applied to the strings to redact; it
  flags an error exactly when the reference rejects the message as malformed; no internal check
  fails.\<close>

theorem filter_equals_reference:
  fixes p :: FilterBytecodeParser and rm :: "'p regex_match" and rn :: "'p regex_next" and rules :: "'p Rule list"
  assumes "concat slices \<noteq> []" "length (concat slices) < kUint32Max"
  defines "query \<equiv> \<lambda>i f. the (Query p i f)" and "redact \<equiv> \<lambda>s. snd (MaybeFilter rm rn rules s)"
  shows "\<exists>mf'. FilterMessageFragments query redact slices mf =
     Some (case ref_filter query redact (root_msg_index mf) (concat slices) of
             None \<Rightarrow> \<lparr>fm_data = [], fm_error = True\<rparr>
           | Some out \<Rightarrow> \<lparr>fm_data = out, fm_error = False\<rparr>, mf')"
  using string_filter.filter_message[OF assms(1,2), of query rm rn rules mf] unfolding redact_def
  by (auto split: option.splits)

theorem filter_equals_reference_witness:
  "\<exists>mf'. FilterMessageFragments (\<lambda>i f. the (Query \<lparr>fwords = [2, 0, 0xFFFFFFFF], message_offset = [0, 3]\<rparr> i f))
       (\<lambda>s. snd (MaybeFilter (\<lambda>_ _. None) (\<lambda>_ _ _. None) ([] :: unit Rule list) s))
       [[0x08], [0x2A, 0x10, 0x2B]] new_message_filter
     = Some (\<lparr>fm_data = [0x08, 0x2A], fm_error = False\<rparr>, mf')"
proof -
  let ?q = "\<lambda>i f. the (Query \<lparr>fwords = [2, 0, 0xFFFFFFFF], message_offset = [0, 3]\<rparr> i f)"
  let ?f = "\<lambda>s. snd (MaybeFilter (\<lambda>_ _. None) (\<lambda>_ _ _. None) ([] :: unit Rule list) s)"
  have "ref_filter ?q ?f 0 [0x08, 0x2A, 0x10, 0x2B] = Some [0x08, 0x2A]" by code_simp
  moreover have "concat [[0x08], [0x2A, 0x10, 0x2B :: u8]] = [0x08, 0x2A, 0x10, 0x2B]" by simp
  ultimately show ?thesis
    using filter_equals_reference[of "[[0x08], [0x2A, 0x10, 0x2B]]" "\<lparr>fwords = [2, 0, 0xFFFFFFFF], message_offset = [0, 3]\<rparr>"
        "\<lambda>_ _. None" "\<lambda>_ _ _. None" "[] :: unit Rule list" new_message_filter]
    by (simp add: kUint32Max_def new_message_filter_def)
qed

end
