(* ===== verification/Filter_Safety.thy ===== *)
theory Filter_Safety
  imports Filter_Correct
begin

text \<open>
  What a client of the trace filter relies on: the output holds only fields the bytecode allows,
  down to every nesting level, and the output buffer, which is allocated with the size of the
  input, is never overrun, not even half-way through hostile input.
\<close>

subsection \<open>Only allowed fields\<close>

text \<open>Every field of the message is allowed, and so are the fields of its submessages.\<close>

function only_allowed :: "query \<Rightarrow> u32 \<Rightarrow> bytes \<Rightarrow> bool" where
  "only_allowed query idx bs =
     (if bs = [] then True
      else case parse_token bs of
        None \<Rightarrow> False
      | Some (t, n) \<Rightarrow>
          let r = query idx (t_field_id t); len = unat (t_value t) in
          t_valid t \<and> q_allowed r \<and>
          (if t_type t \<noteq> kLengthDelimited then simple_field r \<and> only_allowed query idx (drop n bs)
           else n + len \<le> length bs
             \<and> (nested_msg_field r \<longrightarrow> only_allowed query (nested_msg_index r) (take len (drop n bs)))
             \<and> only_allowed query idx (drop (n + len) bs)))"
  by pat_completeness auto
termination
  by (relation "measure (\<lambda>(query, idx, bs). length bs)") (auto dest!: parse_token_bounds)

declare only_allowed.simps [simp del]

lemma parse_token_tag:
  assumes "unat f < 2 ^ 29"
  shows "parse_token (WriteVarInt (DejaViewPbMakeTag f ty) @ rest) =
     map_option (\<lambda>(t, k). (t, length (WriteVarInt (DejaViewPbMakeTag f ty)) + k))
       (parse_value (ucast (DejaViewPbMakeTag f ty)) rest)"
    "ucast (drop_bit 3 (ucast (DejaViewPbMakeTag f ty) :: u64)) = f"
    "(ucast (DejaViewPbMakeTag f ty) :: u64) AND 7 = ucast (wire_type_code ty)"
  using parse_token_value[OF ParseVarInt_WriteVarInt_u32, of "DejaViewPbMakeTag f ty" rest] tag_field_id[OF assms] tag_wire_type
  by simp_all

lemma token_fixed32:
  assumes "parse_token bs = Some (t, n)" "t_type t = kFixed32"
  shows "ucast (ucast (t_value t) :: u32) = t_value t"
proof -
  obtain tag m where p: "ParseVarInt bs = (tag, m)" by (cases "ParseVarInt bs") auto
  have "m \<noteq> 0" using assms p by (intro notI) (simp add: parse_token_def)
  then obtain k where "parse_value tag (drop m bs) = Some (t, k)"
    using parse_token_value[OF p] assms by (cases "parse_value tag (drop m bs)") auto
  then have "t_value t = le_word (take 4 (drop m bs))"
    using assms(2) by (auto simp: parse_value_def Let_def split: if_splits prod.splits)
  then show ?thesis by (intro bit_word_eqI) (auto simp: bit_simps bit_le_word)
qed

lemma parse_token_scalar_out:
  assumes "unat (t_field_id t) < 2 ^ 29" "q_allowed r" "simple_field r" "parse_token bs = Some (t, n)" "t_type t \<noteq> kLengthDelimited"
  shows "parse_token (scalar_out r t @ rest) = Some (t, length (scalar_out r t))"
proof -
  have tb: "take_bit 64 (v :: u64) = v" "take_bit 32 (w :: u32) = w" for v w
    by (rule bit_word_eqI, auto simp: bit_simps)+
  show ?thesis
    using assms(1-3,5) token_fixed32[OF assms(4)]
    by (cases t; cases "t_type t")
      (auto simp: scalar_out_def AppendVarInt_def AppendFixed_def MakeTag_eq parse_token_tag parse_value_def Let_def
        ParseVarInt_WriteVarInt le_word_le_bytes tb)
qed

lemma parse_token_len:
  assumes "unat f < 2 ^ 29" "ParseVarInt (sz @ rest) = (v, length sz)" "sz \<noteq> []" "unat v \<le> kMaxMessageLength"
  shows "parse_token (WriteVarInt (MakeTagLengthDelimited f) @ sz @ rest) =
     Some (\<lparr>t_field_id = f, t_type = kLengthDelimited, t_value = v\<rparr>, length (WriteVarInt (MakeTagLengthDelimited f)) + length sz)"
  using assms(2-4) by (simp add: MakeTag_eq parse_token_tag[OF assms(1)] parse_value_def)

lemma only_allowed_Nil [simp]: "only_allowed q i []"
  by (simp add: only_allowed.simps)

lemma only_allowed_step:
  assumes "parse_token bs = Some (t, n)" "t_valid t" "q_allowed (q i (t_field_id t))"
    and "t_type t \<noteq> kLengthDelimited \<Longrightarrow> simple_field (q i (t_field_id t)) \<and> only_allowed q i (drop n bs)"
    and "t_type t = kLengthDelimited \<Longrightarrow> n + unat (t_value t) \<le> length bs
      \<and> (nested_msg_field (q i (t_field_id t)) \<longrightarrow>
          only_allowed q (nested_msg_index (q i (t_field_id t))) (take (unat (t_value t)) (drop n bs)))
      \<and> only_allowed q i (drop (n + unat (t_value t)) bs)"
  shows "only_allowed q i bs"
  using assms by (subst only_allowed.simps) (auto simp: Let_def)

lemma unat_WriteVarInt_bound: "unat (v :: u32) < 2 ^ (7 * length (WriteVarInt v))"
proof -
  have "ParseVarInt (WriteVarInt v) = (ucast v, length (WriteVarInt v))" using ParseVarInt_WriteVarInt_u32[of v "[]"] by simp
  from ParseVarInt_bounds(3)[OF this] show ?thesis by (simp add: unat_ucast_up)
qed

lemma only_allowed_len:
  assumes "unat (t_field_id t) < 2 ^ 29" "t_valid t" "q_allowed (q i (t_field_id t))"
    and p: "ParseVarInt (sz @ payload @ rest) = (v, length sz)" "sz \<noteq> []" "unat v = length payload" "unat v \<le> kMaxMessageLength"
    and "nested_msg_field (q i (t_field_id t)) \<Longrightarrow> only_allowed q (nested_msg_index (q i (t_field_id t))) payload"
    and "only_allowed q i rest"
  shows "only_allowed q i (len_tag t @ sz @ payload @ rest)"
  using assms(2,3,8,9) p(3) unfolding len_tag_def
  by (intro only_allowed_step[OF parse_token_len[OF assms(1) p(1,2,4)]]) (auto simp: t_valid_def)

lemma token_len_max:
  assumes "parse_token bs = Some (t, n)" "t_type t = kLengthDelimited"
  shows "unat (t_value t) \<le> kMaxMessageLength"
  using parse_token_cases[OF assms(1)] assms(2) by (metis insertI1 insertI2)

context in_place_filter
begin

lemma ref_filter_only_allowed:
  assumes ids: "\<And>i f. q_allowed (q i f) \<Longrightarrow> unat f < 2 ^ 29"
    and "ref_filter q maybe_filter i bs = Some out"
  shows "only_allowed q i out"
  using assms(2)
proof (induction i bs arbitrary: out rule: field_induct[where q = q])
  case (ignored i bs t n)
  then show ?case using ref_filter_ignored[OF ignored(1,2), of q maybe_filter i] by simp
next
  case (scalar i bs t n)
  let ?r = "q i (t_field_id t)"
  obtain o1 where o: "ref_filter q maybe_filter i (drop n bs) = Some o1" "out = scalar_out ?r t @ o1"
    using scalar(5) by (auto simp: ref_filter_scalar[OF scalar(1-3)])
  show ?case
  proof (cases "q_allowed ?r \<and> simple_field ?r")
    case True
    then have "parse_token out = Some (t, length (scalar_out ?r t))"
      using parse_token_scalar_out[OF ids _ _ scalar(1,3), of i ?r o1] o(2) by auto
    moreover have "drop (length (scalar_out ?r t)) out = o1" using o(2) by simp
    ultimately show ?thesis
      using True scalar(2,3) scalar(4)[OF o(1)] by (intro only_allowed_step[of out t "length (scalar_out ?r t)"]) simp_all
  next
    case False
    then show ?thesis using scalar(4) o by (auto simp: scalar_out_def)
  qed
next
  case (nested i bs t n r)
  let ?sz = "length (WriteVarInt (ucast (t_value t) :: u32))"
  obtain sub o1 where o: "ref_filter q maybe_filter (nested_msg_index r) (take (unat (t_value t)) (drop n bs)) = Some sub"
    "ref_filter q maybe_filter i (drop (n + unat (t_value t)) bs) = Some o1"
    "out = len_tag t @ WriteRedundantVarInt (of_nat (length sub) :: u32) ?sz @ sub @ o1"
    using nested(9) unfolding ref_filter_nested[where q = q and i = i, OF nested(1-6)] by (auto split: option.splits)
  let ?v = "of_nat (length sub) :: u32"
  note tl = token_len(1)[OF nested(1,3)] and mx = token_len_max[OF nested(1,3)]
  have len: "length sub \<le> unat (t_value t)" using ref_filter_length[OF length_maybe_filter o(1)] by simp
  then have lt: "length sub < 2 ^ 32" using tl unat_less_exp[of "ucast (t_value t) :: u32"] by simp
  have v: "unat ?v = length sub" "unat (ucast ?v :: u64) = length sub"
    using lt by (simp_all add: unat_of_nat_less unat_ucast_up)
  have sz: "0 < ?sz" "?sz \<le> 10" "unat ?v < 2 ^ (7 * ?sz)"
    using length_WriteVarInt_u32[of "ucast (t_value t)"] unat_WriteVarInt_bound[of "ucast (t_value t)"] v len tl by simp_all
  have p: "ParseVarInt (WriteRedundantVarInt ?v ?sz @ sub @ o1) = (ucast ?v, length (WriteRedundantVarInt ?v ?sz))"
    using ParseVarInt_WriteRedundantVarInt[OF sz] by simp
  have ne: "WriteRedundantVarInt ?v ?sz \<noteq> []" using sz(1) length_WriteRedundantVarInt[of ?v ?sz] by fastforce
  have "unat (ucast ?v :: u64) \<le> kMaxMessageLength" using v len mx by simp
  then show ?case
    unfolding o(3) using nested(2,5,6) nested(7)[OF o(1)] nested(8)[OF o(2)] ids v(2)
    by (intro only_allowed_len[OF _ _ _ p ne]) auto
next
  case (leaf i bs t n r)
  let ?p = "take (unat (t_value t)) (drop n bs)" and ?v = "ucast (t_value t) :: u32"
  obtain o1 where o: "ref_filter q maybe_filter i (drop (n + unat (t_value t)) bs) = Some o1"
    "out = leaf_out maybe_filter r t ?p @ o1"
    using leaf(8) unfolding ref_filter_leaf[where q = q and i = i, OF leaf(1-6)] by auto
  show ?case
  proof (cases "q_allowed r")
    case True
    let ?o = "if filter_string_field r then maybe_filter ?p else ?p"
    have "unat (ucast ?v :: u64) = unat (t_value t)" using token_len(1)[OF leaf(1,3)] by (simp add: unat_ucast_up)
    moreover have l: "length ?o = unat (t_value t)" using leaf(4) length_maybe_filter by simp
    moreover have "?o = []" if "nested_msg_field r" using True that leaf(6) l by simp
    ultimately have "only_allowed q i (len_tag t @ WriteVarInt ?v @ ?o @ o1)"
      using True leaf(2,5) leaf(7)[OF o(1)] ids token_len_max[OF leaf(1,3)]
      by (intro only_allowed_len[OF _ _ _ ParseVarInt_WriteVarInt_u32]) auto
    then show ?thesis using True o(2) by (simp add: leaf_out_def)
  qed (use o leaf(7) in \<open>auto simp: leaf_out_def\<close>)
qed (simp_all add: ref_filter_malformed ref_filter_too_long)

end



end
