(* ===== verification/Circular_Queue.thy ===== *)
theory Circular_Queue
  imports Prelude_DV "HOL-Library.Monad_Syntax"
begin

text \<open>
  The growable ring buffer of \<^verbatim>\<open>include/dejaview/ext/base/circular_queue.h\<close>. A slot of the raw
  storage is \<open>None\<close> when it holds no live object (never constructed, or destroyed); the two indexes
  are monotonic and, as the header says, are not expected to reach \<open>2\<^sup>6\<^sup>4\<close>, so they are natural
  numbers; capacities wrap like \<^verbatim>\<open>size_t\<close>. A failed \<^verbatim>\<open>DEJAVIEW_CHECK\<close> or \<^verbatim>\<open>DEJAVIEW_DCHECK\<close>, and the use
  of a slot without a live object, is \<open>None\<close>. The queue is shown to refine a list, and the contract
  its clients rely on is the locale \<open>random_access\<close>.
\<close>

unbundle bit_operations_syntax

record 'a CircularQueue =
  entries :: "'a option list"
  cq_capacity :: nat
  cq_begin :: nat
  cq_end :: nat
  generation :: u32

definition cq_size :: "'a CircularQueue \<Rightarrow> nat option" where
  "cq_size q = (if cq_end q - cq_begin q \<le> cq_capacity q then Some (cq_end q - cq_begin q) else None)"

definition cq_empty :: "'a CircularQueue \<Rightarrow> bool option" where
  "cq_empty q = do { n \<leftarrow> cq_size q; Some (n = 0) }"

definition increment_generation :: "'a CircularQueue \<Rightarrow> 'a CircularQueue" where
  "increment_generation q = q\<lparr>generation := generation q + 1\<rparr>"

text \<open>The slot of a position, and the object in it.\<close>

definition Get_slot :: "'a CircularQueue \<Rightarrow> nat \<Rightarrow> nat option" where
  "Get_slot q pos =
     (if cq_begin q \<le> pos \<and> pos < cq_end q \<and> cq_capacity q AND (cq_capacity q - 1) = 0
      then Some (pos AND (cq_capacity q - 1)) else None)"

definition cq_read :: "'a CircularQueue \<Rightarrow> nat \<Rightarrow> 'a option" where
  "cq_read q pos = do { i \<leftarrow> Get_slot q pos; entries q ! i }"

definition cq_store :: "'a CircularQueue \<Rightarrow> nat \<Rightarrow> 'a option \<Rightarrow> 'a CircularQueue option" where
  "cq_store q pos x = do { i \<leftarrow> Get_slot q pos; Some (q\<lparr>entries := (entries q)[i := x]\<rparr>) }"

subsection \<open>Capacity\<close>

text \<open>The loop that moves the elements from position \<open>i\<close> on into the new array.\<close>

function move_elements :: "'a CircularQueue \<Rightarrow> nat \<Rightarrow> 'a option list \<Rightarrow> nat \<Rightarrow> ('a option list \<times> nat) option" where
  "move_elements q i new_vec new_size =
     (if i < cq_end q then
        do { x \<leftarrow> cq_read q i; move_elements q (i + 1) (new_vec[new_size := Some x]) (new_size + 1) }
      else Some (new_vec, new_size))"
  by pat_completeness auto
termination by (relation "measure (\<lambda>(q, i, _, _). cq_end q - i)") auto

definition ChangeCapacity :: "nat \<Rightarrow> 'a CircularQueue \<Rightarrow> 'a CircularQueue option" where
  "ChangeCapacity new_capacity q =
     do {
       n \<leftarrow> cq_size q;
       if new_capacity < n then None
       else do {
         (new_vec, new_size) \<leftarrow> move_elements q (cq_begin q) (replicate new_capacity None) 0;
         Some (q\<lparr>cq_begin := 0, cq_end := new_size, cq_capacity := new_capacity, entries := new_vec\<rparr>) } }"

definition Grow :: "nat \<Rightarrow> 'a CircularQueue \<Rightarrow> 'a CircularQueue option" where
  "Grow new_capacity q =
     (let new_capacity = (if new_capacity \<noteq> 0 then new_capacity else cq_capacity q * 2 mod 2 ^ 64) in
      if new_capacity AND (new_capacity - 1) \<noteq> 0 then None
      else if new_capacity \<le> cq_capacity q then None
      else ChangeCapacity new_capacity q)"

definition raw_queue :: "'a CircularQueue" where
  "raw_queue = \<lparr>entries = [], cq_capacity = 0, cq_begin = 0, cq_end = 0, generation = 0\<rparr>"

definition new_CircularQueue :: "nat \<Rightarrow> 'a CircularQueue option" where
  "new_CircularQueue initial_capacity = Grow initial_capacity raw_queue"

definition shrink_to_fit :: "'a CircularQueue \<Rightarrow> 'a CircularQueue option" where
  "shrink_to_fit q =
     do {
       n \<leftarrow> cq_size q;
       if cq_capacity q div 2 < n \<or> cq_capacity q \<le> 4096 then Some q
       else ChangeCapacity (cq_capacity q div 2) q }"

subsection \<open>Elements\<close>

definition emplace_back :: "'a \<Rightarrow> 'a CircularQueue \<Rightarrow> 'a CircularQueue option" where
  "emplace_back x q =
     do {
       let q = increment_generation q;
       n \<leftarrow> cq_size q;
       q \<leftarrow> (if cq_capacity q \<le> n then Grow 0 q else Some q);
       cq_store (q\<lparr>cq_end := cq_end q + 1\<rparr>) (cq_end q) (Some x) }"

fun erase_loop :: "nat \<Rightarrow> 'a CircularQueue \<Rightarrow> 'a CircularQueue option" where
  "erase_loop 0 q = Some q"
| "erase_loop (Suc n) q =
     (if cq_begin q < cq_end q then
        do {
          _ \<leftarrow> cq_read q (cq_begin q);
          q \<leftarrow> cq_store q (cq_begin q) None;
          erase_loop n (q\<lparr>cq_begin := cq_begin q + 1\<rparr>) }
      else Some q)"

definition erase_front :: "nat \<Rightarrow> 'a CircularQueue \<Rightarrow> 'a CircularQueue option" where
  "erase_front n q = erase_loop n (increment_generation q)"

definition pop_front :: "'a CircularQueue \<Rightarrow> 'a CircularQueue option" where
  "pop_front q = erase_front 1 q"

definition clear :: "'a CircularQueue \<Rightarrow> 'a CircularQueue option" where
  "clear q = do { n \<leftarrow> cq_size q; erase_front n q }"

definition cq_at :: "'a CircularQueue \<Rightarrow> nat \<Rightarrow> 'a option" where
  "cq_at q idx = do { n \<leftarrow> cq_size q; if idx < n then cq_read q (cq_begin q + idx) else None }"

subsection \<open>Iterators\<close>

record Iterator =
  it_pos :: nat
  it_generation :: u32

definition begin_it :: "'a CircularQueue \<Rightarrow> Iterator" where
  "begin_it q = \<lparr>it_pos = cq_begin q, it_generation = generation q\<rparr>"

definition end_it :: "'a CircularQueue \<Rightarrow> Iterator" where
  "end_it q = \<lparr>it_pos = cq_end q, it_generation = generation q\<rparr>"

definition it_deref :: "'a CircularQueue \<Rightarrow> Iterator \<Rightarrow> 'a option" where
  "it_deref q it = (if it_generation it = generation q then cq_read q (it_pos it) else None)"

text \<open>A negative position would wrap to one far above the end, which the check refuses.\<close>

definition it_add :: "'a CircularQueue \<Rightarrow> int \<Rightarrow> Iterator \<Rightarrow> Iterator option" where
  "it_add q offset it =
     (let pos = int (it_pos it) + offset in
      if 0 \<le> pos \<and> nat pos \<le> cq_end q then Some (it\<lparr>it_pos := nat pos\<rparr>) else None)"

definition it_diff :: "Iterator \<Rightarrow> Iterator \<Rightarrow> int" where
  "it_diff lhs rhs = int (it_pos lhs) - int (it_pos rhs)"

definition cq_front :: "'a CircularQueue \<Rightarrow> 'a option" where
  "cq_front q = it_deref q (begin_it q)"

definition cq_back :: "'a CircularQueue \<Rightarrow> 'a option" where
  "cq_back q = do { it \<leftarrow> it_add q (- 1) (end_it q); it_deref q it }"

subsection \<open>Copy and move\<close>

function copy_elements :: "'a CircularQueue \<Rightarrow> nat \<Rightarrow> 'a CircularQueue \<Rightarrow> 'a CircularQueue option" where
  "copy_elements other i q =
     (if i < cq_end other then do { x \<leftarrow> cq_read other i; q \<leftarrow> emplace_back x q; copy_elements other (i + 1) q }
      else Some q)"
  by pat_completeness auto
termination by (relation "measure (\<lambda>(other, i, _). cq_end other - i)") auto

definition copy_CircularQueue :: "'a CircularQueue \<Rightarrow> 'a CircularQueue option" where
  "copy_CircularQueue other =
     do {
       q \<leftarrow> Grow (cq_capacity other) raw_queue;
       q \<leftarrow> copy_elements other (cq_begin other) q;
       n \<leftarrow> cq_size q;
       m \<leftarrow> cq_size other;
       if n = m then Some q else None }"

text \<open>The new queue and the queue moved from.\<close>

definition move_CircularQueue :: "'a CircularQueue \<Rightarrow> ('a CircularQueue \<times> 'a CircularQueue) option" where
  "move_CircularQueue other =
     do {
       fresh \<leftarrow> new_CircularQueue 1024;
       Some (increment_generation (other\<lparr>generation := 0\<rparr>), fresh) }"

declare move_elements.simps [simp del] copy_elements.simps [simp del]

subsection \<open>The list a queue holds\<close>

definition cq_inv :: "'a CircularQueue \<Rightarrow> bool" where
  "cq_inv q \<longleftrightarrow> (\<exists>k < 64. cq_capacity q = 2 ^ k) \<and> length (entries q) = cq_capacity q
     \<and> cq_begin q \<le> cq_end q \<and> cq_end q - cq_begin q \<le> cq_capacity q
     \<and> (\<forall>p. cq_begin q \<le> p \<longrightarrow> p < cq_end q \<longrightarrow> entries q ! (p mod cq_capacity q) \<noteq> None)"

definition contents :: "'a CircularQueue \<Rightarrow> 'a list" where
  "contents q = map (\<lambda>p. the (entries q ! (p mod cq_capacity q))) [cq_begin q..<cq_end q]"

lemma length_contents [simp]: "length (contents q) = cq_end q - cq_begin q"
  by (simp add: contents_def)

lemma nat_and_mask: "(n :: nat) AND (2 ^ k - 1) = n mod 2 ^ k"
  by (simp add: take_bit_eq_mask mask_eq_exp_minus_1 flip: take_bit_eq_mod)

lemma power_of_two_check [simp]: "(2 ^ k :: nat) AND (2 ^ k - 1) = 0"
  by (simp only: nat_and_mask mod_self)

lemmas power_of_two_check_Suc [simp] = power_of_two_check[unfolded One_nat_def]

lemma cq_inv_size: "cq_inv q \<Longrightarrow> cq_size q = Some (length (contents q))"
  by (simp add: cq_inv_def cq_size_def)

lemma cq_inv_slot:
  assumes "cq_inv q" "cq_begin q \<le> p" "p < cq_end q"
  shows "Get_slot q p = Some (p mod cq_capacity q)"
  using assms power_of_two_check nat_and_mask by (auto simp: cq_inv_def Get_slot_def)

lemma cq_inv_read:
  assumes "cq_inv q" "cq_begin q \<le> p" "p < cq_end q"
  shows "cq_read q p = Some (contents q ! (p - cq_begin q))"
proof -
  have "entries q ! (p mod cq_capacity q) \<noteq> None" using assms by (simp add: cq_inv_def)
  then show ?thesis using assms by (auto simp: cq_read_def cq_inv_slot contents_def)
qed

lemma list_update_window:
  "n < length vec \<Longrightarrow> take (Suc n) (vec[n := y]) @ zs @ drop (Suc n + m) (vec[n := y]) = take n vec @ y # zs @ drop (n + Suc m) vec"
  by (simp add: take_Suc_conv_app_nth)

lemma move_elements_contents:
  assumes "cq_inv q" "cq_begin q \<le> i" "i \<le> cq_end q" "n + (cq_end q - i) \<le> length vec"
  shows "move_elements q i vec n
    = Some (take n vec @ map Some (drop (i - cq_begin q) (contents q)) @ drop (n + (cq_end q - i)) vec, n + (cq_end q - i))"
  using assms(2-)
proof (induction "cq_end q - i" arbitrary: i vec n)
  case 0
  then show ?case by (simp add: move_elements.simps[of _ i])
next
  case (Suc m)
  have i: "i < cq_end q" "cq_end q - i = Suc (cq_end q - (i + 1))" using Suc.hyps(2) by auto
  have d: "drop (i - cq_begin q) (contents q) = contents q ! (i - cq_begin q) # drop (i + 1 - cq_begin q) (contents q)"
    using i Suc.prems by (subst Cons_nth_drop_Suc [symmetric]) (auto simp: Suc_diff_le)
  have "move_elements q i vec n = move_elements q (i + 1) (vec[n := Some (contents q ! (i - cq_begin q))]) (n + 1)"
    using cq_inv_read[OF assms(1), of i] i(1) Suc.prems by (simp add: move_elements.simps[of _ i])
  then show ?case
    using Suc.hyps(1)[of "i + 1" "n + 1" "vec[n := Some (contents q ! (i - cq_begin q))]"] Suc.hyps(2) Suc.prems i d
      list_update_window[of n vec "Some (contents q ! (i - cq_begin q))" "map Some (drop (i + 1 - cq_begin q) (contents q))" "cq_end q - (i + 1)"]
    by simp
qed

lemma ChangeCapacity_ok:
  assumes "cq_inv q" "k < 64" "length (contents q) \<le> 2 ^ k"
  shows "\<exists>q'. ChangeCapacity (2 ^ k) q = Some q' \<and> cq_inv q' \<and> contents q' = contents q \<and> cq_capacity q' = 2 ^ k
      \<and> generation q' = generation q"
proof -
  let ?n = "cq_end q - cq_begin q" and ?vec = "map Some (contents q) @ replicate (2 ^ k - length (contents q)) None"
  have be: "cq_begin q \<le> cq_end q" using assms(1) by (simp add: cq_inv_def)
  let ?q = "q\<lparr>cq_begin := 0, cq_end := ?n, cq_capacity := 2 ^ k, entries := ?vec\<rparr>"
  have "ChangeCapacity (2 ^ k) q = Some ?q"
    using move_elements_contents[OF assms(1) order_refl be, of 0 "replicate (2 ^ k) None"] cq_inv_size[OF assms(1)] assms(3)
    by (simp add: ChangeCapacity_def)
  moreover have "cq_inv ?q"
    using assms(2,3) by (auto simp: cq_inv_def nth_append)
  moreover have "contents ?q = contents q"
    using assms(3) by (intro nth_equalityI) (auto simp: contents_def nth_append)
  ultimately show ?thesis by auto
qed

lemma Grow_ok:
  assumes "cq_inv q" "cq_capacity q < 2 ^ 63"
  shows "\<exists>q'. Grow 0 q = Some q' \<and> cq_inv q' \<and> contents q' = contents q \<and> cq_capacity q' = 2 * cq_capacity q
      \<and> generation q' = generation q"
proof -
  obtain k where k: "cq_capacity q = 2 ^ k" "k < 64" using assms(1) by (auto simp: cq_inv_def)
  then have "k < 63" using assms(2) power_less_imp_less_exp[of "2 :: nat" k 63] by simp
  have c: "cq_capacity q * 2 mod 2 ^ 64 = 2 ^ Suc k" using assms(2) k(1) by simp
  have "length (contents q) \<le> 2 ^ Suc k" using assms(1) k(1) by (simp add: cq_inv_def)
  from ChangeCapacity_ok[OF assms(1) _ this] \<open>k < 63\<close> show ?thesis
    using power_of_two_check[of "Suc k"] unfolding Grow_def c Let_def using k(1) by auto
qed

lemma new_CircularQueue_ok:
  assumes "k < 64"
  shows "\<exists>q. new_CircularQueue (2 ^ k) = Some q \<and> cq_inv q \<and> contents q = [] \<and> cq_capacity q = 2 ^ k"
  using assms by (auto simp: new_CircularQueue_def Grow_def ChangeCapacity_def raw_queue_def cq_size_def move_elements.simps
      cq_inv_def contents_def Let_def)

lemma mod_eq_window:
  fixes a b m :: nat
  assumes "a \<le> p" "p < b" "b - a < m"
  shows "p mod m \<noteq> b mod m"
proof
  assume "p mod m = b mod m"
  then have "(b - p) mod m = 0" using assms by (metis mod_eq_dvd_iff_nat dvd_eq_mod_eq_0 less_imp_le)
  then show False using assms by auto
qed

lemma cq_inv_generation [simp]:
  "cq_inv (q\<lparr>generation := g\<rparr>) = cq_inv q" "contents (q\<lparr>generation := g\<rparr>) = contents q"
  "cq_inv (increment_generation q) = cq_inv q" "contents (increment_generation q) = contents q"
  "cq_capacity (increment_generation q) = cq_capacity q" "cq_begin (increment_generation q) = cq_begin q"
  "cq_end (increment_generation q) = cq_end q"
  by (simp_all add: cq_inv_def contents_def increment_generation_def)

lemma push_slot:
  assumes "cq_inv q" "length (contents q) < cq_capacity q"
  shows "\<exists>q'. cq_store (q\<lparr>cq_end := cq_end q + 1\<rparr>) (cq_end q) (Some x) = Some q' \<and> cq_inv q'
      \<and> contents q' = contents q @ [x] \<and> cq_capacity q' = cq_capacity q"
proof -
  let ?c = "cq_capacity q" and ?e = "cq_end q"
  let ?q = "q\<lparr>cq_end := ?e + 1, entries := (entries q)[?e mod ?c := Some x]\<rparr>"
  obtain k where k: "?c = 2 ^ k" "k < 64" using assms(1) by (auto simp: cq_inv_def)
  have be: "cq_begin q \<le> ?e" "length (entries q) = ?c" using assms(1) by (auto simp: cq_inv_def)
  have ne: "p mod ?c \<noteq> ?e mod ?c" if "cq_begin q \<le> p" "p < ?e" for p
    using mod_eq_window[OF that] assms(2) by simp
  then have upd: "(entries q)[?e mod ?c := y] ! (p mod ?c) = entries q ! (p mod ?c)" if "cq_begin q \<le> p" "p < ?e" for p y
    using that by (metis nth_list_update_neq)
  have e: "?e mod ?c < ?c" using k by simp
  have "Get_slot (q\<lparr>cq_end := ?e + 1\<rparr>) ?e = Some (?e mod ?c)"
    using be(1) k(1) nat_and_mask[of ?e k] by (simp add: Get_slot_def)
  then have "cq_store (q\<lparr>cq_end := ?e + 1\<rparr>) ?e (Some x) = Some ?q" by (simp add: cq_store_def)
  moreover have "cq_inv ?q"
    using assms be e upd by (auto simp: cq_inv_def less_Suc_eq)
  moreover have "contents ?q = contents q @ [x]"
    using be e by (auto simp: contents_def upd intro!: map_cong)
  ultimately show ?thesis by auto
qed

lemma emplace_back_ok:
  assumes "cq_inv q" "cq_capacity q < 2 ^ 63"
  shows "\<exists>q'. emplace_back x q = Some q' \<and> cq_inv q' \<and> contents q' = contents q @ [x]
      \<and> cq_capacity q' = (if length (contents q) = cq_capacity q then 2 * cq_capacity q else cq_capacity q)"
proof (cases "length (contents q) = cq_capacity q")
  case True
  from Grow_ok[of "increment_generation q"] assms obtain q1 where q1: "Grow 0 (increment_generation q) = Some q1" "cq_inv q1"
    "contents q1 = contents q" "cq_capacity q1 = 2 * cq_capacity q" by auto
  moreover have "0 < cq_capacity q" using assms(1) by (auto simp: cq_inv_def)
  ultimately show ?thesis
    using push_slot[of q1 x] cq_inv_size[of "increment_generation q"] assms(1) True by (simp add: emplace_back_def Let_def)
next
  case False
  then have "length (contents q) < cq_capacity q" using assms(1) by (auto simp: cq_inv_def)
  then show ?thesis
    using push_slot[of "increment_generation q" x] cq_inv_size[of "increment_generation q"] assms(1) False
    by (simp add: emplace_back_def Let_def)
qed

lemma cq_store_ok:
  assumes "cq_inv q" "i < length (contents q)"
  shows "\<exists>q'. cq_store q (cq_begin q + i) (Some x) = Some q' \<and> cq_inv q' \<and> contents q' = (contents q)[i := x]
     \<and> cq_capacity q' = cq_capacity q \<and> generation q' = generation q"
proof -
  let ?c = "cq_capacity q" and ?p = "cq_begin q + i"
  have c: "cq_begin q \<le> cq_end q" "cq_end q - cq_begin q \<le> ?c" "length (entries q) = ?c" "0 < ?c"
    using assms(1) by (auto simp: cq_inv_def)
  have ne: "p mod ?c \<noteq> ?p mod ?c" if "cq_begin q \<le> p" "p < cq_end q" "p \<noteq> ?p" for p
  proof (cases "p < ?p")
    case True
    then show ?thesis using mod_eq_window[OF that(1) True, of ?c] c assms(2) by simp
  next
    case False
    then show ?thesis using mod_eq_window[of ?p ?p p ?c] that c(2) by (simp add: eq_commute[of "p mod ?c"])
  qed
  have upd: "(entries q)[?p mod ?c := y] ! (p mod ?c) = (if p = ?p then y else entries q ! (p mod ?c))"
    if "cq_begin q \<le> p" "p < cq_end q" for p y using ne[OF that] c by (cases "p = ?p") (simp_all add: nth_list_update)
  let ?q = "q\<lparr>entries := (entries q)[?p mod ?c := Some x]\<rparr>"
  have "cq_store q ?p (Some x) = Some ?q" using assms by (simp add: cq_store_def cq_inv_slot)
  moreover have "cq_inv ?q" using assms(1) upd by (auto simp: cq_inv_def)
  moreover have "contents ?q = (contents q)[i := x]"
    using assms(2) upd by (intro nth_equalityI) (auto simp: contents_def nth_list_update)
  ultimately show ?thesis by auto
qed

lemma erase_one:
  assumes "cq_inv q" "cq_begin q < cq_end q"
  shows "\<exists>q'. cq_store q (cq_begin q) None = Some q' \<and> cq_begin q' = cq_begin q \<and> cq_inv (q'\<lparr>cq_begin := cq_begin q + 1\<rparr>)
     \<and> contents (q'\<lparr>cq_begin := cq_begin q + 1\<rparr>) = tl (contents q) \<and> cq_capacity q' = cq_capacity q"
proof -
  let ?c = "cq_capacity q" and ?b = "cq_begin q"
  have ne: "p mod ?c \<noteq> ?b mod ?c" if "?b < p" "p < cq_end q" for p
  proof -
    have "cq_end q - ?b \<le> ?c" using assms(1) by (simp add: cq_inv_def)
    then have "p - ?b < ?c" using that by linarith
    then show ?thesis using mod_eq_window[OF order_refl that(1), of ?c] by simp
  qed
  then have upd: "(entries q)[?b mod ?c := y] ! (p mod ?c) = entries q ! (p mod ?c)" if "?b < p" "p < cq_end q" for p y
    using that by (metis nth_list_update_neq)
  show ?thesis
    using assms upd by (auto simp: Suc_le_eq cq_store_def cq_inv_slot cq_inv_def contents_def upt_conv_Cons[OF assms(2)] intro!: map_cong)
qed

lemma erase_loop_ok:
  "cq_inv q \<Longrightarrow> \<exists>q'. erase_loop n q = Some q' \<and> cq_inv q' \<and> contents q' = drop n (contents q) \<and> cq_capacity q' = cq_capacity q"
proof (induction n arbitrary: q)
  case (Suc n)
  show ?case
  proof (cases "cq_begin q < cq_end q")
    case True
    from erase_one[OF Suc.prems True] obtain q1 where "cq_store q (cq_begin q) None = Some q1" "cq_begin q1 = cq_begin q"
      "cq_inv (q1\<lparr>cq_begin := cq_begin q + 1\<rparr>)" "contents (q1\<lparr>cq_begin := cq_begin q + 1\<rparr>) = tl (contents q)"
      "cq_capacity q1 = cq_capacity q" by blast
    then show ?thesis using Suc.IH[of "q1\<lparr>cq_begin := cq_begin q + 1\<rparr>"] True cq_inv_read[OF Suc.prems, of "cq_begin q"]
      by (auto simp: drop_Suc)
  next
    case False
    then show ?thesis using Suc.prems by (simp add: contents_def)
  qed
qed simp

lemma erase_front_ok:
  assumes "cq_inv q"
  shows "\<exists>q'. erase_front n q = Some q' \<and> cq_inv q' \<and> contents q' = drop n (contents q) \<and> cq_capacity q' = cq_capacity q"
  using erase_loop_ok[of "increment_generation q" n] assms by (simp add: erase_front_def)

lemma shrink_to_fit_ok:
  assumes "cq_inv q"
  shows "\<exists>q'. shrink_to_fit q = Some q' \<and> cq_inv q' \<and> contents q' = contents q \<and> cq_capacity q' \<le> cq_capacity q"
proof (cases "cq_capacity q div 2 < length (contents q) \<or> cq_capacity q \<le> 4096")
  case True
  then show ?thesis using assms cq_inv_size[OF assms] by (auto simp: shrink_to_fit_def)
next
  case False
  obtain k where k: "cq_capacity q = 2 ^ k" "k < 64" using assms by (auto simp: cq_inv_def)
  then obtain j where "k = Suc j" using False by (cases k) auto
  then have "cq_capacity q div 2 = 2 ^ j" "j < 64" using k by auto
  then show ?thesis
    using ChangeCapacity_ok[OF assms, of j] False cq_inv_size[OF assms] by (auto simp: shrink_to_fit_def)
qed

lemma copy_elements_ok:
  assumes "cq_inv other" "cq_inv q" "cq_begin other \<le> i" "i \<le> cq_end other"
    and "length (contents q) + (cq_end other - i) \<le> cq_capacity q" "cq_capacity q < 2 ^ 63"
  shows "\<exists>q'. copy_elements other i q = Some q' \<and> cq_inv q'
      \<and> contents q' = contents q @ drop (i - cq_begin other) (contents other) \<and> cq_capacity q' = cq_capacity q"
  using assms(2-)
proof (induction "cq_end other - i" arbitrary: i q)
  case 0
  then show ?case by (simp add: copy_elements.simps)
next
  case (Suc m)
  let ?x = "contents other ! (i - cq_begin other)"
  have i: "i < cq_end other" using Suc.hyps(2) by simp
  then have "length (contents q) < cq_capacity q" using Suc.prems(4) by linarith
  with emplace_back_ok[OF Suc.prems(1,5), of ?x] obtain q1 where q1: "emplace_back ?x q = Some q1" "cq_inv q1"
    "contents q1 = contents q @ [?x]" "cq_capacity q1 = cq_capacity q" by auto
  have d: "drop (i - cq_begin other) (contents other) = ?x # drop (i + 1 - cq_begin other) (contents other)"
    using i Suc.prems by (subst Cons_nth_drop_Suc [symmetric]) (auto simp: Suc_diff_le)
  have "length (contents q1) + (cq_end other - (i + 1)) \<le> cq_capacity q1"
    unfolding q1(3,4) using Suc.prems(4) i by simp
  with Suc.hyps(1)[of "i + 1" q1] Suc.hyps(2) Suc.prems i q1 show ?case
    by (simp add: copy_elements.simps[of _ i] cq_inv_read[OF assms(1)] d)
qed

lemma copy_CircularQueue_ok:
  assumes "cq_inv q" "cq_capacity q < 2 ^ 63"
  shows "\<exists>q'. copy_CircularQueue q = Some q' \<and> cq_inv q' \<and> contents q' = contents q \<and> cq_capacity q' = cq_capacity q"
proof -
  obtain k where "cq_capacity q = 2 ^ k" "k < 64" "cq_begin q \<le> cq_end q" "cq_end q - cq_begin q \<le> cq_capacity q"
    using assms(1) by (auto simp: cq_inv_def)
  moreover from this new_CircularQueue_ok[of k] obtain q0 :: "'a CircularQueue" where "Grow (cq_capacity q) raw_queue = Some q0"
    "cq_inv q0" "contents q0 = []" "cq_capacity q0 = cq_capacity q" by (auto simp: new_CircularQueue_def)
  moreover from this copy_elements_ok[OF assms(1), of q0 "cq_begin q"] calculation assms(2) obtain q' where
    "copy_elements q (cq_begin q) q0 = Some q'" "cq_inv q'" "contents q' = contents q" "cq_capacity q' = cq_capacity q" by auto
  ultimately show ?thesis
    using cq_inv_size[OF assms(1)] cq_inv_size[of q'] by (auto simp: copy_CircularQueue_def)
qed

subsection \<open>The contract of the clients\<close>

text \<open>A container whose positions from \<open>lo\<close> to \<open>hi\<close> hold the elements of a list. Searching such a
  container with the binary search of \<^verbatim>\<open>std::upper_bound\<close> finds the first element above the value when
  the predicate partitions the list.\<close>

function upper_bound :: "(nat \<Rightarrow> 'a option) \<Rightarrow> ('a \<Rightarrow> bool) \<Rightarrow> nat \<Rightarrow> nat \<Rightarrow> nat option" where
  "upper_bound get after first count =
     (if count = 0 then Some first
      else let step = count div 2 in
        do { x \<leftarrow> get (first + step);
             if after x then upper_bound get after first step
             else upper_bound get after (first + step + 1) (count - (step + 1)) })"
  by pat_completeness auto
termination by (relation "measure (\<lambda>(_, _, _, count). count)") auto

declare upper_bound.simps [simp del]

locale random_access =
  fixes invar :: "'q \<Rightarrow> bool" and lo hi :: "'q \<Rightarrow> nat" and get :: "'q \<Rightarrow> nat \<Rightarrow> 'a option" and elems :: "'q \<Rightarrow> 'a list"
  assumes elems_length: "invar q \<Longrightarrow> hi q = lo q + length (elems q)"
    and get_elem: "invar q \<Longrightarrow> i < length (elems q) \<Longrightarrow> get q (lo q + i) = Some (elems q ! i)"
begin

lemma upper_bound_range:
  assumes "invar q" "a + n \<le> length (elems q)"
    and "\<And>i j. i \<le> j \<Longrightarrow> j < length (elems q) \<Longrightarrow> P (elems q ! i) \<Longrightarrow> P (elems q ! j)"
    and "\<And>i. i < a \<Longrightarrow> \<not> P (elems q ! i)" "\<And>i. a + n \<le> i \<Longrightarrow> i < length (elems q) \<Longrightarrow> P (elems q ! i)"
  shows "\<exists>r \<le> length (elems q). upper_bound (get q) P (lo q + a) n = Some (lo q + r)
     \<and> (\<forall>i < r. \<not> P (elems q ! i)) \<and> (\<forall>i. r \<le> i \<longrightarrow> i < length (elems q) \<longrightarrow> P (elems q ! i))"
  using assms(2,4,5)
proof (induction n arbitrary: a rule: less_induct)
  case (less n)
  show ?case
  proof (cases "n = 0")
    case False
    let ?s = "n div 2" and ?x = "elems q ! (a + n div 2)"
    have s: "?s < n" "a + ?s < length (elems q)" using False less.prems(1) by linarith+
    have g: "get q (lo q + a + ?s) = Some ?x" using get_elem[OF assms(1) s(2)] by (simp add: add.assoc)
    show ?thesis
    proof (cases "P ?x")
      case True
      then have "P (elems q ! i)" if "a + ?s \<le> i" "i < length (elems q)" for i using assms(3) that by blast
      then show ?thesis using less.IH[OF s(1), of a] less.prems(2) True s g False
        by (auto simp: upper_bound.simps[of _ _ _ n] Let_def)
    next
      case F: False
      then have "\<not> P (elems q ! i)" if "i < a + ?s + 1" for i using assms(3)[of i "a + ?s"] that s(2) by auto
      moreover have "n - (?s + 1) < n" "a + ?s + 1 + (n - (?s + 1)) = a + n" using s(1) by linarith+
      ultimately show ?thesis using less.IH[of "n - (?s + 1)" "a + ?s + 1"] less.prems(1,3) F g False
        by (auto simp: upper_bound.simps[of _ _ _ n] Let_def add.assoc)
    qed
  qed (use less.prems in \<open>auto simp: upper_bound.simps\<close>)
qed

lemma upper_bound_all:
  assumes "invar q" "\<And>i j. i \<le> j \<Longrightarrow> j < length (elems q) \<Longrightarrow> P (elems q ! i) \<Longrightarrow> P (elems q ! j)"
  obtains r where "r \<le> length (elems q)" "upper_bound (get q) P (lo q) (hi q - lo q) = Some (lo q + r)"
    "\<And>i. i < r \<Longrightarrow> \<not> P (elems q ! i)" "\<And>i. r \<le> i \<Longrightarrow> i < length (elems q) \<Longrightarrow> P (elems q ! i)"
  using upper_bound_range[of q 0 "length (elems q)" P] assms elems_length[OF assms(1)] by auto

end

interpretation cq: random_access cq_inv cq_begin cq_end cq_read contents
proof
  fix q :: "'a CircularQueue" and i
  assume "cq_inv q"
  then show "cq_end q = cq_begin q + length (contents q)" by (simp add: cq_inv_def)
  assume "i < length (contents q)"
  then show "cq_read q (cq_begin q + i) = Some (contents q ! i)" using cq_inv_read[OF \<open>cq_inv q\<close>, of "cq_begin q + i"] by simp
qed

subsection \<open>Refinement of a list\<close>

datatype 'a queue_op = EmplaceBack 'a | EraseFront nat | Clear | ShrinkToFit | CopyAssign

fun run_op :: "'a queue_op \<Rightarrow> 'a CircularQueue \<Rightarrow> 'a CircularQueue option" where
  "run_op (EmplaceBack x) q = emplace_back x q"
| "run_op (EraseFront n) q = erase_front n q"
| "run_op Clear q = clear q"
| "run_op ShrinkToFit q = shrink_to_fit q"
| "run_op CopyAssign q = copy_CircularQueue q"

fun run_ops :: "'a queue_op list \<Rightarrow> 'a CircularQueue \<Rightarrow> 'a CircularQueue option" where
  "run_ops [] q = Some q"
| "run_ops (op # ops) q = do { q \<leftarrow> run_op op q; run_ops ops q }"

fun list_op :: "'a queue_op \<Rightarrow> 'a list \<Rightarrow> 'a list" where
  "list_op (EmplaceBack x) xs = xs @ [x]"
| "list_op (EraseFront n) xs = drop n xs"
| "list_op Clear xs = []"
| "list_op ShrinkToFit xs = xs"
| "list_op CopyAssign xs = xs"

definition pushes :: "'a queue_op list \<Rightarrow> nat" where
  "pushes ops = length (filter (\<lambda>op. \<exists>x. op = EmplaceBack x) ops)"

lemma run_op_ok:
  assumes "cq_inv q" "cq_capacity q < 2 ^ 63" "cq_capacity q \<le> 1024 + 2 * m" "length (contents q) \<le> m"
  shows "\<exists>q'. run_op op q = Some q' \<and> cq_inv q' \<and> contents q' = list_op op (contents q)
      \<and> cq_capacity q' \<le> 1024 + 2 * (m + pushes [op]) \<and> length (contents q') \<le> m + pushes [op]"
proof (cases op)
  case (EmplaceBack x)
  then show ?thesis using emplace_back_ok[OF assms(1,2), of x] assms(3,4) by (auto simp: pushes_def simp del: length_contents)
next
  case (EraseFront n)
  then show ?thesis using erase_front_ok[OF assms(1), of n] assms(3,4) by (auto simp: pushes_def simp del: length_contents)
next
  case Clear
  then show ?thesis
    using erase_front_ok[OF assms(1), of "length (contents q)"] cq_inv_size[OF assms(1)] assms(3,4) by (auto simp: clear_def pushes_def simp del: length_contents)
next
  case ShrinkToFit
  then show ?thesis using shrink_to_fit_ok[OF assms(1)] assms(3,4) by (auto simp: pushes_def simp del: length_contents)
next
  case CopyAssign
  then show ?thesis using copy_CircularQueue_ok[OF assms(1,2)] assms(3,4) by (auto simp: pushes_def simp del: length_contents)
qed

lemma run_ops_ok:
  "cq_inv q \<Longrightarrow> cq_capacity q \<le> 1024 + 2 * m \<Longrightarrow> length (contents q) \<le> m \<Longrightarrow> m + pushes ops < 2 ^ 61 \<Longrightarrow>
   \<exists>q'. run_ops ops q = Some q' \<and> cq_inv q' \<and> contents q' = fold list_op ops (contents q)"
proof (induction ops arbitrary: q m)
  case (Cons op ops)
  have p: "pushes (op # ops) = pushes [op] + pushes ops" by (simp add: pushes_def)
  have "cq_capacity q < 2 ^ 63" using Cons.prems(2,4) by simp
  from run_op_ok[OF Cons.prems(1) this Cons.prems(2,3), of op] obtain q1 where q1: "run_op op q = Some q1" "cq_inv q1"
    "contents q1 = list_op op (contents q)" "cq_capacity q1 \<le> 1024 + 2 * (m + pushes [op])"
    "length (contents q1) \<le> m + pushes [op]" by blast
  have "m + pushes [op] + pushes ops < 2 ^ 61" using Cons.prems(4) p by simp
  from Cons.IH[OF q1(2,4,5) this] show ?case using q1(1,3) by auto
qed simp

lemma observers_ok:
  assumes "cq_inv q"
  shows "cq_size q = Some (length (contents q))" "cq_empty q = Some (contents q = [])"
    "i < length (contents q) \<Longrightarrow> cq_at q i = Some (contents q ! i)"
    "contents q \<noteq> [] \<Longrightarrow> cq_front q = Some (hd (contents q))"
    "contents q \<noteq> [] \<Longrightarrow> cq_back q = Some (last (contents q))"
proof -
  show s: "cq_size q = Some (length (contents q))" by (rule cq_inv_size[OF assms])
  show "cq_empty q = Some (contents q = [])" by (simp add: cq_empty_def s flip: length_0_conv)
  show "cq_at q i = Some (contents q ! i)" if "i < length (contents q)"
    using that cq.get_elem[OF assms] s by (simp add: cq_at_def)
  show "cq_front q = Some (hd (contents q))" if "contents q \<noteq> []"
    using that cq.get_elem[OF assms, of 0] by (simp add: cq_front_def it_deref_def begin_it_def hd_conv_nth flip: length_greater_0_conv)
  show "cq_back q = Some (last (contents q))" if "contents q \<noteq> []"
  proof -
    have n: "cq_begin q < cq_end q" using that by (auto simp: contents_def)
    then have "it_add q (- 1) (end_it q) = Some \<lparr>it_pos = cq_end q - 1, it_generation = generation q\<rparr>"
      by (simp add: it_add_def end_it_def nat_diff_distrib)
    moreover have "contents q ! (cq_end q - 1 - cq_begin q) = last (contents q)" using that by (simp add: last_conv_nth)
    ultimately show ?thesis
      using cq_inv_read[OF assms, of "cq_end q - 1"] n by (simp add: cq_back_def it_deref_def)
  qed
qed

text \<open>C5. A queue behaves like a list: after any sequence of pushes, pops, clears, shrinks and copies, with
  however many reallocations and wrap-arounds on the way, no check fails, every slot read holds a
  live object, and the queue's size, front, back and indexed elements are those of the list the
  operations build.\<close>

theorem circular_queue_refines_list:
  assumes "pushes ops < 2 ^ 61"
  defines "xs \<equiv> fold list_op ops []"
  shows "\<exists>q. new_CircularQueue 1024 \<bind> run_ops ops = Some q \<and> contents q = xs
     \<and> cq_size q = Some (length xs) \<and> cq_empty q = Some (xs = [])
     \<and> (\<forall>i < length xs. cq_at q i = Some (xs ! i))
     \<and> (xs \<noteq> [] \<longrightarrow> cq_front q = Some (hd xs))
     \<and> (xs \<noteq> [] \<longrightarrow> cq_back q = Some (last xs))"
proof -
  obtain q0 :: "'a CircularQueue" where q0: "new_CircularQueue 1024 = Some q0" "cq_inv q0" "contents q0 = []" "cq_capacity q0 = 1024"
    using new_CircularQueue_ok[of 10] by auto
  with run_ops_ok[of q0 0 ops] assms(1) obtain q where q: "run_ops ops q0 = Some q" "cq_inv q" "contents q = xs"
    by (auto simp: xs_def simp del: length_contents)
  then show ?thesis using q0(1) observers_ok[OF q(2)] by (intro exI[of _ q]) simp
qed

theorem circular_queue_refines_list_witness:
  "\<exists>q. new_CircularQueue 1024 \<bind> run_ops [EmplaceBack (7 :: nat), EmplaceBack 8, EraseFront 1, EmplaceBack 9, CopyAssign] = Some q
     \<and> cq_size q = Some 2 \<and> cq_at q 1 = Some 9 \<and> cq_front q = Some 8"
  using circular_queue_refines_list[of "[EmplaceBack (7 :: nat), EmplaceBack 8, EraseFront 1, EmplaceBack 9, CopyAssign]"]
  by (auto simp: pushes_def)

declare length_contents [simp del]

end
