(* ===== verification/Blob_Reader.thy ===== *)
theory Blob_Reader
  imports Circular_Queue
begin

text \<open>
  The buffering reader of \<^verbatim>\<open>src/trace_processor/util/trace_blob_view_reader.h\<close> and \<^verbatim>\<open>.cc\<close>, which stitches
  together pieces of data that span several trace chunks, over the circular queue of its entries.
  A \<^verbatim>\<open>TraceBlobView\<close> is the bytes it views, at most \<open>2\<^sup>3\<^sup>2 - 1\<close> of them; file offsets are \<^verbatim>\<open>size_t\<close> and
  wrap. \<open>None\<close> is a failed check or a dereferenced end iterator; the \<^verbatim>\<open>std::nullopt\<close> and
  \<^verbatim>\<open>false\<close> results of the code are values.
\<close>

definition slice_off :: "nat \<Rightarrow> nat \<Rightarrow> bytes \<Rightarrow> bytes option" where
  "slice_off off len view = (if add64 off len \<le> length view then Some (take (len mod 2 ^ 32) (drop off view)) else None)"

text \<open>The view of a whole blob keeps 32 bits of its size.\<close>

definition whole_blob :: "bytes \<Rightarrow> bytes" where
  "whole_blob blob = take (length blob mod 2 ^ 32) blob"

record Entry =
  start_offset :: nat
  e_data :: bytes

definition e_end_offset :: "Entry \<Rightarrow> nat" where
  "e_end_offset e = add64 (start_offset e) (length (e_data e))"

record TraceBlobViewReader =
  r_data :: "Entry CircularQueue"
  r_end_offset :: nat

definition new_reader :: "TraceBlobViewReader option" where
  "new_reader = do { q \<leftarrow> new_CircularQueue 1024; Some \<lparr>r_data = q, r_end_offset = 0\<rparr> }"

definition r_start_offset :: "TraceBlobViewReader \<Rightarrow> nat option" where
  "r_start_offset r =
     do {
       e \<leftarrow> cq_empty (r_data r);
       if e then Some (r_end_offset r) else do { x \<leftarrow> cq_front (r_data r); Some (start_offset x) } }"

definition avail :: "TraceBlobViewReader \<Rightarrow> nat option" where
  "avail r = do { s \<leftarrow> r_start_offset r; Some (sub64 (r_end_offset r) s) }"

subsection \<open>Adding and dropping data\<close>

definition PushBack :: "bytes \<Rightarrow> TraceBlobViewReader \<Rightarrow> TraceBlobViewReader option" where
  "PushBack data r =
     (if length data = 0 then Some r
      else do {
        q \<leftarrow> emplace_back \<lparr>start_offset = r_end_offset r, e_data = data\<rparr> (r_data r);
        Some (r\<lparr>r_data := q, r_end_offset := add64 (r_end_offset r) (length data)\<rparr>) })"

lemma pop_front_shrinks:
  assumes "cq_empty q = Some False" "pop_front q = Some q'"
  shows "cq_end q' - cq_begin q' < cq_end q - cq_begin q"
  using assms
  by (auto simp: cq_empty_def cq_size_def pop_front_def erase_front_def cq_store_def increment_generation_def bind_eq_Some_conv
      split: if_splits)

function pop_loop :: "nat \<Rightarrow> Entry CircularQueue \<Rightarrow> nat \<Rightarrow> (bool \<times> Entry CircularQueue) option" where
  "pop_loop target_offset q end_offset =
     (case cq_empty q of
        None \<Rightarrow> None
      | Some True \<Rightarrow> Some (target_offset = end_offset, q)
      | Some False \<Rightarrow>
          do {
            entry \<leftarrow> cq_front q;
            if target_offset = start_offset entry then Some (True, q)
            else
              let bytes_to_pop = sub64 target_offset (start_offset entry) in
              if bytes_to_pop < length (e_data entry) then
                do {
                  d \<leftarrow> slice_off bytes_to_pop (length (e_data entry) - bytes_to_pop) (e_data entry);
                  q \<leftarrow> cq_store q (cq_begin q)
                        (Some \<lparr>start_offset = add64 (start_offset entry) bytes_to_pop, e_data = d\<rparr>);
                  Some (True, q) }
              else case pop_front q of None \<Rightarrow> None | Some q' \<Rightarrow> pop_loop target_offset q' end_offset })"
  by pat_completeness auto
termination
  by (relation "measure (\<lambda>(_, q, _). cq_end q - cq_begin q)") (auto dest: pop_front_shrinks)

definition PopFrontUntil :: "nat \<Rightarrow> TraceBlobViewReader \<Rightarrow> (bool \<times> TraceBlobViewReader) option" where
  "PopFrontUntil target_offset r =
     do {
       s \<leftarrow> r_start_offset r;
       if target_offset < s then None
       else do {
         (ok, q) \<leftarrow> pop_loop target_offset (r_data r) (r_end_offset r);
         Some (ok, r\<lparr>r_data := q\<rparr>) } }"

definition PopFrontBytes :: "nat \<Rightarrow> TraceBlobViewReader \<Rightarrow> (bool \<times> TraceBlobViewReader) option" where
  "PopFrontBytes bytes r = do { s \<leftarrow> r_start_offset r; PopFrontUntil (add64 s bytes) r }"

subsection \<open>Slicing\<close>

function copy_blocks :: "Entry CircularQueue \<Rightarrow> nat \<Rightarrow> nat \<Rightarrow> bytes option" where
  "copy_blocks q it remaining =
     (if remaining = 0 then Some []
      else case cq_read q it of
        None \<Rightarrow> None
      | Some e \<Rightarrow>
          let len = min remaining (length (e_data e)) in
          do { rest \<leftarrow> copy_blocks q (it + 1) (remaining - len); Some (take len (e_data e) @ rest) })"
  by pat_completeness auto
termination
  by (relation "measure (\<lambda>(q, it, _). cq_end q - it)")
    (auto simp: cq_read_def Get_slot_def bind_eq_Some_conv split: if_splits)

definition SliceOff :: "nat \<Rightarrow> nat \<Rightarrow> TraceBlobViewReader \<Rightarrow> bytes option option" where
  "SliceOff offset len r =
     (if len = 0 then Some (Some [])
      else do {
        s \<leftarrow> r_start_offset r;
        if offset < s then None
        else do {
          empty \<leftarrow> cq_empty (r_data r);
          fast \<leftarrow> (if empty then Some False
                   else do { e \<leftarrow> cq_front (r_data r); Some (add64 offset len \<le> e_end_offset e) });
          if fast then
            do { e \<leftarrow> cq_front (r_data r);
                 v \<leftarrow> slice_off (sub64 offset (start_offset e)) len (e_data e);
                 Some (Some v) }
          else if empty \<or> r_end_offset r < add64 offset len then Some None
          else do {
            rit \<leftarrow> upper_bound (cq_read (r_data r)) (\<lambda>rhs. offset < e_end_offset rhs)
                     (cq_begin (r_data r)) (cq_end (r_data r) - cq_begin (r_data r));
            if rit = cq_end (r_data r) then None
            else do {
              e \<leftarrow> cq_read (r_data r) rit;
              let rel_off = sub64 offset (start_offset e);
              if add64 rel_off len \<le> length (e_data e) then
                do { v \<leftarrow> slice_off rel_off len (e_data e); Some (Some v) }
              else do {
                rest \<leftarrow> copy_blocks (r_data r) (rit + 1) (len - (length (e_data e) - rel_off));
                Some (Some (whole_blob (drop rel_off (e_data e) @ rest))) } } } } })"

subsection \<open>Iterators\<close>

record ReaderIterator =
  ri_iter :: Iterator
  file_offset :: nat
  ri_end_offset :: nat

definition GetIterator :: "TraceBlobViewReader \<Rightarrow> ReaderIterator option" where
  "GetIterator r =
     do { s \<leftarrow> r_start_offset r;
          Some \<lparr>ri_iter = begin_it (r_data r), file_offset = s, ri_end_offset = r_end_offset r\<rparr> }"

definition ri_valid :: "ReaderIterator \<Rightarrow> bool" where
  "ri_valid it \<longleftrightarrow> file_offset it \<noteq> ri_end_offset it"

definition ri_deref :: "TraceBlobViewReader \<Rightarrow> ReaderIterator \<Rightarrow> u8 option" where
  "ri_deref r it =
     do { e \<leftarrow> it_deref (r_data r) (ri_iter it);
          if file_offset it < e_end_offset e then Some (e_data e ! sub64 (file_offset it) (start_offset e)) else None }"

text \<open>The \<^verbatim>\<open>do ++iter_ while\<close> loop.\<close>

function advance_blocks :: "Entry CircularQueue \<Rightarrow> nat \<Rightarrow> Iterator \<Rightarrow> Iterator option" where
  "advance_blocks q off it =
     (case it_add q 1 it of
        None \<Rightarrow> None
      | Some it' \<Rightarrow>
          (case it_deref q it' of
             None \<Rightarrow> None
           | Some e \<Rightarrow> if e_end_offset e \<le> off then advance_blocks q off it' else Some it'))"
  by pat_completeness auto
termination
  by (relation "measure (\<lambda>(q, _, it). cq_end q - it_pos it)")
    (auto simp: it_add_def it_deref_def cq_read_def Get_slot_def Let_def bind_eq_Some_conv split: if_splits)

definition MaybeAdvance :: "TraceBlobViewReader \<Rightarrow> nat \<Rightarrow> ReaderIterator \<Rightarrow> (bool \<times> ReaderIterator) option" where
  "MaybeAdvance r delta it =
     (let off = add64 (file_offset it) delta; it' = it\<lparr>file_offset := off\<rparr> in
      do {
        e \<leftarrow> it_deref (r_data r) (ri_iter it);
        if off < e_end_offset e then Some (True, it')
        else if off = ri_end_offset it then Some (True, it')
        else if ri_end_offset it < off then Some (False, it)
        else do { iter \<leftarrow> advance_blocks (r_data r) off (ri_iter it); Some (True, it'\<lparr>ri_iter := iter\<rparr>) } })"

text \<open>The loop advances \<^verbatim>\<open>iter_\<close> itself, also when it finds nothing.\<close>

function find_loop :: "Entry CircularQueue \<Rightarrow> u8 \<Rightarrow> nat \<Rightarrow> ReaderIterator \<Rightarrow> (bool \<times> ReaderIterator) option" where
  "find_loop q chr off it =
     (if off < ri_end_offset it then
        case it_deref q (ri_iter it) of
          None \<Rightarrow> None
        | Some e \<Rightarrow>
            let iter_off = sub64 off (start_offset e) in
            (case memchr chr (drop iter_off (e_data e)) of
               Some p \<Rightarrow> Some (True, it\<lparr>file_offset := add64 (start_offset e) (iter_off + p)\<rparr>)
             | None \<Rightarrow>
                 (case it_add q 1 (ri_iter it) of
                    None \<Rightarrow> None
                  | Some iter \<Rightarrow> find_loop q chr (e_end_offset e) (it\<lparr>ri_iter := iter\<rparr>)))
      else Some (False, it))"
  by pat_completeness auto
termination
  by (relation "measure (\<lambda>(q, _, _, it). cq_end q - it_pos (ri_iter it))")
    (auto simp: it_add_def it_deref_def cq_read_def Get_slot_def Let_def bind_eq_Some_conv split: if_splits)

definition MaybeFindAndAdvanceInner :: "TraceBlobViewReader \<Rightarrow> u8 \<Rightarrow> ReaderIterator \<Rightarrow> (bool \<times> ReaderIterator) option" where
  "MaybeFindAndAdvanceInner r chr it = find_loop (r_data r) chr (file_offset it) it"

definition MaybeFindAndAdvance :: "TraceBlobViewReader \<Rightarrow> u8 \<Rightarrow> ReaderIterator \<Rightarrow> (bytes option \<times> ReaderIterator) option" where
  "MaybeFindAndAdvance r chr it =
     do {
       (found, it') \<leftarrow> MaybeFindAndAdvanceInner r chr it;
       if \<not> found then Some (None, it')
       else do {
         tbv \<leftarrow> SliceOff (file_offset it) (sub64 (file_offset it') (file_offset it)) r;
         if tbv = None then None
         else do {
           (ok, it'') \<leftarrow> MaybeAdvance r 1 it';
           if ok then Some (tbv, it'') else None } } }"

declare pop_loop.simps [simp del] copy_blocks.simps [simp del] advance_blocks.simps [simp del] find_loop.simps [simp del]

subsection \<open>The stream a reader buffers\<close>

text \<open>The blocks of a queue tile the stream \<open>s\<close> from offset \<open>o\<close> to its end.\<close>

fun tiles :: "bytes \<Rightarrow> nat \<Rightarrow> Entry list \<Rightarrow> bool" where
  "tiles s off [] \<longleftrightarrow> off = length s"
| "tiles s off (e # es) \<longleftrightarrow> start_offset e = off \<and> e_data e \<noteq> [] \<and> length (e_data e) < 2 ^ 32
     \<and> off + length (e_data e) \<le> length s \<and> e_data e = take (length (e_data e)) (drop off s)
     \<and> tiles s (off + length (e_data e)) es"

definition reader_inv :: "bytes \<Rightarrow> nat \<Rightarrow> nat \<Rightarrow> TraceBlobViewReader \<Rightarrow> bool" where
  "reader_inv s off n r \<longleftrightarrow> cq_inv (r_data r) \<and> tiles s off (contents (r_data r)) \<and> r_end_offset r = length s
     \<and> length s < 2 ^ 64 \<and> cq_capacity (r_data r) \<le> 1024 + 2 * n \<and> length (contents (r_data r)) \<le> n"

lemma tiles_bound: "tiles s off es \<Longrightarrow> off \<le> length s"
  by (induction es arbitrary: off) force+

lemma tiles_done: "tiles s (length s) es \<Longrightarrow> es = []"
  by (cases es) auto

lemma tiles_append: "tiles s off es \<Longrightarrow> d \<noteq> [] \<Longrightarrow> length d < 2 ^ 32 \<Longrightarrow>
   tiles (s @ d) off (es @ [\<lparr>start_offset = length s, e_data = d\<rparr>])"
  by (induction es arbitrary: off) (auto simp: min_def)

lemma tiles_drop: "tiles s off es \<Longrightarrow> i < length es \<Longrightarrow> tiles s (start_offset (es ! i)) (drop i es)"
proof (induction es arbitrary: off i)
  case (Cons e es)
  then show ?case by (cases i) auto
qed simp

lemma tiles_end:
  assumes "tiles s off (e # es)" "length s < 2 ^ 64"
  shows "e_end_offset e = off + length (e_data e)"
  using assms by (auto simp: e_end_offset_def intro!: add64_small)

lemma tiles_start: "tiles s off es \<Longrightarrow> i < length es \<Longrightarrow> off \<le> start_offset (es ! i)"
proof (induction es arbitrary: off i)
  case (Cons e es)
  then show ?case by (cases i) (fastforce dest: add_leD1)+
qed simp

lemma tiles_nth:
  assumes "tiles s off es" "length s < 2 ^ 64" "i < length es"
  shows "e_end_offset (es ! i) = start_offset (es ! i) + length (e_data (es ! i))" "e_data (es ! i) \<noteq> []"
    "e_end_offset (es ! i) \<le> length s" "tiles s (e_end_offset (es ! i)) (drop (Suc i) es)" "length (e_data (es ! i)) < 2 ^ 32"
    "e_data (es ! i) = take (length (e_data (es ! i))) (drop (start_offset (es ! i)) s)"
proof -
  have "tiles s (start_offset (es ! i)) (es ! i # drop (Suc i) es)"
    using tiles_drop[OF assms(1,3)] assms(3) by (simp add: Cons_nth_drop_Suc)
  from this tiles_end[OF this assms(2)] show
    "e_end_offset (es ! i) = start_offset (es ! i) + length (e_data (es ! i))" "e_data (es ! i) \<noteq> []"
    "e_end_offset (es ! i) \<le> length s" "tiles s (e_end_offset (es ! i)) (drop (Suc i) es)" "length (e_data (es ! i)) < 2 ^ 32"
    "e_data (es ! i) = take (length (e_data (es ! i))) (drop (start_offset (es ! i)) s)" by simp_all
qed

lemma tiles_ends_mono:
  assumes "tiles s off es" "length s < 2 ^ 64" "i \<le> j" "j < length es"
  shows "e_end_offset (es ! i) \<le> e_end_offset (es ! j)" "i < j \<Longrightarrow> e_end_offset (es ! i) \<le> start_offset (es ! j)"
proof -
  have i: "i < length es" using assms(3,4) by simp
  show lt: "e_end_offset (es ! i) \<le> start_offset (es ! j)" if "i < j"
    using tiles_start[OF tiles_nth(4)[OF assms(1,2) i], of "j - Suc i"] that assms(4) by simp
  show "e_end_offset (es ! i) \<le> e_end_offset (es ! j)"
    using lt tiles_nth(1)[OF assms(1,2,4)] assms(3) by (cases "i = j") auto
qed

lemma PushBack_ok:
  assumes "reader_inv s off n r" "length d < 2 ^ 32" "length s + length d < 2 ^ 64" "n < 2 ^ 61"
  shows "\<exists>r'. PushBack d r = Some r' \<and> reader_inv (s @ d) off (Suc n) r'"
proof (cases "d = []")
  case True
  then show ?thesis using assms(1) by (auto simp: PushBack_def reader_inv_def)
next
  case False
  note inv = assms(1)[unfolded reader_inv_def]
  have "cq_capacity (r_data r) < 2 ^ 63" using inv assms(4) by simp
  with emplace_back_ok[of "r_data r" "\<lparr>start_offset = length s, e_data = d\<rparr>"] inv obtain q where
    "emplace_back \<lparr>start_offset = length s, e_data = d\<rparr> (r_data r) = Some q" "cq_inv q"
    "contents q = contents (r_data r) @ [\<lparr>start_offset = length s, e_data = d\<rparr>]"
    "cq_capacity q = (if length (contents (r_data r)) = cq_capacity (r_data r) then 2 * cq_capacity (r_data r) else cq_capacity (r_data r))"
    by (auto)
  then show ?thesis
    using inv False assms(2,3) tiles_append[of s off "contents (r_data r)" d] add64_small[of "length s" "length d"]
    by (auto simp: PushBack_def reader_inv_def)
qed

lemma reader_start:
  assumes "reader_inv s off n r"
  shows "r_start_offset r = Some off" "avail r = Some (length s - off)"
proof -
  note inv = assms[unfolded reader_inv_def]
  show *: "r_start_offset r = Some off"
    using inv observers_ok(2,4)[of "r_data r"] by (cases "contents (r_data r)") (auto simp: r_start_offset_def)
  show "avail r = Some (length s - off)"
    using * inv tiles_bound[of s off] by (auto simp: avail_def sub64_small)
qed

lemma slice_off_ok: "off + len \<le> length v \<Longrightarrow> length v < 2 ^ 32 \<Longrightarrow> slice_off off len v = Some (take len (drop off v))"
  by (simp add: slice_off_def add64_small)

lemma tiles_trim:
  assumes "tiles s off (e # es)" "off \<le> t" "t < off + length (e_data e)"
  shows "tiles s t (\<lparr>start_offset = t, e_data = drop (t - off) (e_data e)\<rparr> # es)"
proof -
  have "drop (t - off) (e_data e) = drop (t - off) (take (length (e_data e)) (drop off s))" using assms(1) by simp
  also have "\<dots> = take (length (e_data e) - (t - off)) (drop t s)" using assms(2) by (simp add: drop_take)
  finally show ?thesis using assms by (auto simp: add.commute)
qed

lemma pop_loop_ok:
  assumes "cq_inv q" "tiles s off (contents q)" "off \<le> t" "t < 2 ^ 64" "length s < 2 ^ 64"
  shows "\<exists>q'. pop_loop t q (length s) = Some (t \<le> length s, q') \<and> cq_inv q' \<and> tiles s (min t (length s)) (contents q')
     \<and> cq_capacity q' = cq_capacity q \<and> length (contents q') \<le> length (contents q)"
  using assms(1-3)
proof (induction "length (contents q)" arbitrary: q off rule: less_induct)
  case less
  note empty = observers_ok(2)[OF less.prems(1)]
  show ?case
  proof (cases "contents q")
    case Nil
    then show ?thesis using less.prems empty by (auto simp: pop_loop.simps)
  next
    case (Cons e es)
    note e = less.prems(2)[unfolded Cons] and en = tiles_end[OF less.prems(2)[unfolded Cons] assms(5)]
    have st: "start_offset e = off" "length (e_data e) < 2 ^ 32" using e by auto
    have fr: "cq_front q = Some e" using observers_ok(4)[OF less.prems(1)] Cons by simp
    have sub: "sub64 t off = t - off" "add64 off (t - off) = t"
      using less.prems(3) assms(4) by (simp_all add: sub64_small add64_small)
    show ?thesis
    proof (cases "t < off + length (e_data e)")
      case True
      let ?e = "\<lparr>start_offset = t, e_data = drop (t - off) (e_data e)\<rparr>"
      have b: "t \<le> length s" using True e by simp
      from cq_store_ok[OF less.prems(1), of 0 ?e] obtain q' where q': "cq_store q (cq_begin q) (Some ?e) = Some q'" "cq_inv q'"
        "contents q' = ?e # es" "cq_capacity q' = cq_capacity q" using Cons by (auto)
      have "pop_loop t q (length s) = Some (True, if t = off then q else q')"
        using q'(1) True less.prems(3) slice_off_ok[of "t - off" "length (e_data e) - (t - off)" "e_data e"] st sub b
        by (subst pop_loop.simps) (auto simp: empty Cons fr Let_def)
      then show ?thesis
        using less.prems q' b Cons tiles_trim[OF e less.prems(3) True] by (auto)
    next
      case False
      from erase_front_ok[OF less.prems(1), of 1] obtain q' where q': "pop_front q = Some q'" "cq_inv q'" "contents q' = es"
        "cq_capacity q' = cq_capacity q" using Cons by (auto simp: pop_front_def)
      have "pop_loop t q (length s) = pop_loop t q' (length s)"
        using q'(1) False st sub e by (subst pop_loop.simps) (auto simp: empty Cons fr Let_def)
      moreover have "tiles s (off + length (e_data e)) (contents q')" using e q'(3) by simp
      moreover have "length (contents q') < length (contents q)" using q'(3) Cons by simp
      ultimately show ?thesis using less.hyps[of q' "off + length (e_data e)"] q'(2,4) False by auto
    qed
  qed
qed

lemma PopFrontUntil_ok:
  assumes "reader_inv s off n r" "off \<le> t" "t < 2 ^ 64"
  shows "\<exists>r'. PopFrontUntil t r = Some (t \<le> length s, r') \<and> reader_inv s (min t (length s)) n r'"
  using pop_loop_ok[of "r_data r" s off t] assms reader_start(1)[OF assms(1)]
  by (auto simp: PopFrontUntil_def reader_inv_def)

lemma copy_blocks_0: "copy_blocks q it 0 = Some []"
  by (subst copy_blocks.simps) simp

lemma copy_blocks_ok:
  assumes "cq_inv q" "tiles s off (drop i (contents q))" "off + len \<le> length s"
  shows "copy_blocks q (cq_begin q + i) len = Some (take len (drop off s))"
  using assms(2-)
proof (induction "length (contents q) - i" arbitrary: i off len)
  case 0
  then have "len = 0" by simp
  then show ?case by (simp add: copy_blocks_0)
next
  case (Suc m)
  have i: "i < length (contents q)" using Suc.hyps(2) by simp
  define e where "e = contents q ! i"
  have es: "tiles s off (e # drop (Suc i) (contents q))" using Suc.prems(1) i by (simp add: Cons_nth_drop_Suc e_def)
  have rd: "cq_read q (cq_begin q + i) = Some e" using cq.get_elem[OF assms(1) i] by (simp add: e_def)
  show ?case
  proof (cases "len = 0")
    case False
    let ?k = "min len (length (e_data e))"
    have d: "e_data e = take (length (e_data e)) (drop off s)" "tiles s (off + length (e_data e)) (drop (Suc i) (contents q))"
      using es by auto
    have t: "take ?k (e_data e) = take ?k (drop off s)" by (subst d(1)) (simp add: min_def)
    have rest: "copy_blocks q (cq_begin q + Suc i) (len - ?k) = Some (take (len - ?k) (drop (off + ?k) s))"
    proof (cases "len \<le> length (e_data e)")
      case True
      then show ?thesis by (simp add: copy_blocks_0)
    next
      case F: False
      then show ?thesis using Suc.hyps(1)[of "Suc i" "off + length (e_data e)" "len - length (e_data e)"] Suc.hyps(2) d(2) Suc.prems(2)
        by (simp add: min_def)
    qed
    have "take len (drop off s) = take ?k (drop off s) @ take (len - ?k) (drop (off + ?k) s)"
      using take_add[of ?k "len - ?k" "drop off s"] by (simp add: min_def add.commute split: if_splits)
    then show ?thesis using False rest t rd by (subst copy_blocks.simps) (simp add: Let_def)
  qed (simp add: copy_blocks_0)
qed

lemma block_slice:
  assumes "tiles s off es" "length s < 2 ^ 64" "i < length es" "start_offset (es ! i) \<le> p" "p + len \<le> e_end_offset (es ! i)"
  shows "slice_off (sub64 p (start_offset (es ! i))) len (e_data (es ! i)) = Some (take len (drop p s))"
proof -
  note n = tiles_nth[OF assms(1-3)]
  let ?e = "es ! i"
  have p: "p < 2 ^ 64" using assms(2,5) n(3) by linarith
  have le: "p - start_offset ?e + len \<le> length (e_data ?e)" using assms(4,5) n(1) by linarith
  have "take len (drop (p - start_offset ?e) (e_data ?e)) = take len (drop (p - start_offset ?e) (take (length (e_data ?e)) (drop (start_offset ?e) s)))"
    using n(6) by simp
  also have "\<dots> = take len (drop p s)" using assms(4) le by (simp add: drop_take min_def)
  finally show ?thesis using slice_off_ok[OF le n(5)] sub64_small[OF assms(4) p] by simp
qed

lemma SliceOff_ok:
  assumes "reader_inv s off n r" "off \<le> p" "p + len < 2 ^ 64" "len < 2 ^ 32"
  shows "SliceOff p len r = Some (if len = 0 \<or> p + len \<le> length s then Some (take len (drop p s)) else None)"
proof (cases "len = 0 \<or> contents (r_data r) = []")
  case True
  then show ?thesis
    using assms reader_start(1)[OF assms(1)] observers_ok(2)[of "r_data r"]
    by (auto simp: SliceOff_def reader_inv_def)
next
  case False
  let ?q = "r_data r" and ?es = "contents (r_data r)"
  have inv: "cq_inv ?q" "tiles s off ?es" "r_end_offset r = length s" "length s < 2 ^ 64"
    using assms(1) by (auto simp: reader_inv_def)
  have ne: "0 < length ?es" "0 < len" using False by auto
  have front: "cq_empty ?q = Some False" "cq_front ?q = Some (?es ! 0)"
    using False observers_ok(2,4)[OF inv(1)] by (auto simp: hd_conv_nth)
  have s0: "start_offset (?es ! 0) = off" using inv(2) ne(1) by (cases ?es) auto
  have a: "add64 p len = p + len" using assms(3) by (simp add: add64_small)
  show ?thesis
  proof (cases "p + len \<le> e_end_offset (?es ! 0) \<or> length s < p + len")
    case True
    then show ?thesis
      using block_slice[OF inv(2,4) ne(1), of p len] tiles_nth(3)[OF inv(2,4) ne(1)] s0 assms(2) inv(3) False
      by (auto simp: SliceOff_def reader_start(1)[OF assms(1)] front a)
  next
    case slow: False
    let ?P = "\<lambda>e. p < e_end_offset e"
    have mono: "?P (?es ! j)" if "i \<le> j" "j < length ?es" "?P (?es ! i)" for i j
      using tiles_ends_mono(1)[OF inv(2,4) that(1,2)] that(3) by linarith
    obtain k where
      k: "k \<le> length ?es" "upper_bound (cq_read ?q) ?P (cq_begin ?q) (cq_end ?q - cq_begin ?q) = Some (cq_begin ?q + k)"
        "\<And>i. i < k \<Longrightarrow> \<not> ?P (?es ! i)" "\<And>i. k \<le> i \<Longrightarrow> i < length ?es \<Longrightarrow> ?P (?es ! i)"
      by (rule cq.upper_bound_all[OF inv(1), of ?P, OF mono]) blast+
    have klt: "k < length ?es"
    proof (rule ccontr)
      assume "\<not> k < length ?es"
      then have "length ?es - 1 < k" using ne(1) k(1) by linarith
      then have "e_end_offset (?es ! (length ?es - 1)) \<le> p" using k(3) not_less by blast
      moreover have "e_end_offset (?es ! (length ?es - 1)) = length s"
        using tiles_nth(4)[OF inv(2,4), of "length ?es - 1"] ne(1) by simp
      ultimately show False using slow ne(2) by linarith
    qed
    have "k \<noteq> 0 \<Longrightarrow> e_end_offset (?es ! (k - 1)) \<le> p" using k(3)[of "k - 1"] by simp
    moreover have dk: "drop k ?es = ?es ! k # drop (Suc k) ?es" using klt by (simp add: Cons_nth_drop_Suc)
    ultimately have st: "start_offset (?es ! k) \<le> p"
      using tiles_nth(4)[OF inv(2,4), of "k - 1"] klt s0 assms(2) by (cases "k = 0") auto
    note n = tiles_nth[OF inv(2,4) klt] and rd = cq.get_elem[OF inv(1) klt]
    have nend: "cq_begin ?q + k \<noteq> cq_end ?q" using cq.elems_length[OF inv(1)] klt by simp
    have pk: "p < e_end_offset (?es ! k)" using k(4)[OF order_refl klt] .
    have rel: "sub64 p (start_offset (?es ! k)) = p - start_offset (?es ! k)" using st assms(3) by (simp add: sub64_small)
    have rel2: "add64 (p - start_offset (?es ! k)) len = p - start_offset (?es ! k) + len" using assms(3) by (simp add: add64_small)
    show ?thesis
    proof (cases "p + len \<le> e_end_offset (?es ! k)")
      case True
      then show ?thesis
        using block_slice[OF inv(2,4) klt st True] slow n(1) st False inv(3) nend assms(2)
        by (auto simp: SliceOff_def reader_start(1)[OF assms(1)] front a k(2) rd rel rel2 Let_def)
    next
      case multi: False
      let ?m = "e_end_offset (?es ! k) - p"
      have "drop (p - start_offset (?es ! k)) (e_data (?es ! k))
          = drop (p - start_offset (?es ! k)) (take (length (e_data (?es ! k))) (drop (start_offset (?es ! k)) s))" using n(6) by simp
      also have "\<dots> = take ?m (drop p s)" using st n(1) by (simp add: drop_take add.commute)
      finally have h: "drop (p - start_offset (?es ! k)) (e_data (?es ! k)) = take ?m (drop p s)" .
      have lm: "length (e_data (?es ! k)) - (p - start_offset (?es ! k)) = ?m" using n(1) st by simp
      have "copy_blocks ?q (cq_begin ?q + Suc k) (len - ?m) = Some (take (len - ?m) (drop (e_end_offset (?es ! k)) s))"
        using copy_blocks_ok[OF inv(1) n(4), of "len - ?m"] slow multi pk by simp
      moreover have "take ?m (drop p s) @ take (len - ?m) (drop (e_end_offset (?es ! k)) s) = take len (drop p s)"
        using take_add[of ?m "len - ?m" "drop p s"] multi pk by simp
      ultimately have cp: "copy_blocks ?q (Suc (cq_begin ?q + k)) (len - ?m)
          = Some (take (len - ?m) (drop (e_end_offset (?es ! k)) s))"
        "whole_blob (take ?m (drop p s) @ take (len - ?m) (drop (e_end_offset (?es ! k)) s)) = take len (drop p s)"
        using slow assms(4) by (simp_all add: whole_blob_def min_def)
      have gt: "\<not> p - start_offset (?es ! k) + len \<le> length (e_data (?es ! k))" using multi n(1) st by simp
      show ?thesis
        using slow gt False inv(3) nend assms(2) cp
        by (simp add: SliceOff_def reader_start(1)[OF assms(1)] front a k(2) rd rel rel2 Let_def h lm)
    qed
  qed
qed

text \<open>Sequences of operations, and the stream and start offset they leave.\<close>

datatype reader_op = Push_data bytes | Pop_until nat

fun run_reader :: "reader_op list \<Rightarrow> TraceBlobViewReader \<Rightarrow> TraceBlobViewReader option" where
  "run_reader [] r = Some r"
| "run_reader (Push_data d # ops) r = do { r \<leftarrow> PushBack d r; run_reader ops r }"
| "run_reader (Pop_until t # ops) r = do { (_, r) \<leftarrow> PopFrontUntil t r; run_reader ops r }"

fun stream_of :: "reader_op list \<Rightarrow> bytes \<times> nat \<Rightarrow> bytes \<times> nat" where
  "stream_of [] so = so"
| "stream_of (Push_data d # ops) (s, off) = stream_of ops (s @ d, off)"
| "stream_of (Pop_until t # ops) (s, off) = stream_of ops (s, min t (length s))"

fun reader_ops_ok :: "reader_op list \<Rightarrow> bytes \<times> nat \<Rightarrow> bool" where
  "reader_ops_ok [] so \<longleftrightarrow> True"
| "reader_ops_ok (Push_data d # ops) (s, off) \<longleftrightarrow>
     length d < 2 ^ 32 \<and> length s + length d < 2 ^ 64 \<and> reader_ops_ok ops (s @ d, off)"
| "reader_ops_ok (Pop_until t # ops) (s, off) \<longleftrightarrow> off \<le> t \<and> t < 2 ^ 64 \<and> reader_ops_ok ops (s, min t (length s))"

lemma reader_inv_mono: "reader_inv s off n r \<Longrightarrow> n \<le> m \<Longrightarrow> reader_inv s off m r"
  by (auto simp: reader_inv_def)

lemma run_reader_ok:
  "reader_inv s off n r \<Longrightarrow> reader_ops_ok ops (s, off) \<Longrightarrow> n + length ops < 2 ^ 61 \<Longrightarrow> stream_of ops (s, off) = (s', off') \<Longrightarrow>
   \<exists>r'. run_reader ops r = Some r' \<and> reader_inv s' off' (n + length ops) r'"
proof (induction ops arbitrary: s off n r)
  case (Cons op ops)
  show ?case
  proof (cases op)
    case (Push_data d)
    with PushBack_ok[OF Cons.prems(1), of d] Cons.prems obtain r1 where "PushBack d r = Some r1" "reader_inv (s @ d) off (Suc n) r1" by auto
    then show ?thesis using Cons.IH[of "s @ d" off "Suc n" r1] Cons.prems Push_data by auto
  next
    case (Pop_until t)
    with PopFrontUntil_ok[OF Cons.prems(1), of t] Cons.prems obtain r1 where
      "PopFrontUntil t r = Some (t \<le> length s, r1)" "reader_inv s (min t (length s)) n r1" by auto
    then show ?thesis using Cons.IH[of s "min t (length s)" "Suc n" r1] reader_inv_mono[of s _ n r1 "Suc n"] Cons.prems Pop_until by auto
  qed
qed simp

lemma new_reader_ok: "\<exists>r. new_reader = Some r \<and> reader_inv [] 0 0 r"
proof -
  obtain q :: "Entry CircularQueue" where "new_CircularQueue 1024 = Some q" "cq_inv q" "contents q = []" "cq_capacity q = 1024"
    using new_CircularQueue_ok[of 10] by auto
  then show ?thesis by (simp add: new_reader_def reader_inv_def)
qed

text \<open>C12. After any pushes and pops, a slice of the reader is exactly those bytes of the stream, whether
  they lie in one chunk or span several, and \<^verbatim>\<open>std::nullopt\<close> exactly when they have not all arrived;
  the start offset and the number of available bytes are those of the stream, and no check fails.\<close>

theorem blob_reader_correct:
  assumes "reader_ops_ok ops ([], 0)" "length ops < 2 ^ 61" "stream_of ops ([], 0) = (s, off)"
  shows "\<exists>r. new_reader \<bind> run_reader ops = Some r \<and> r_start_offset r = Some off \<and> avail r = Some (length s - off)
     \<and> (\<forall>p len. off \<le> p \<longrightarrow> p + len < 2 ^ 64 \<longrightarrow> len < 2 ^ 32 \<longrightarrow>
          SliceOff p len r = Some (if len = 0 \<or> p + len \<le> length s then Some (take len (drop p s)) else None))"
proof -
  obtain r0 where r0: "new_reader = Some r0" "reader_inv [] 0 0 r0" using new_reader_ok by blast
  from run_reader_ok[OF r0(2) assms(1)] assms(2,3) obtain r where r: "run_reader ops r0 = Some r" "reader_inv s off (length ops) r"
    by auto
  then show ?thesis using reader_start[OF r(2)] SliceOff_ok[OF r(2)] unfolding r0(1)
    by (intro exI[of _ r] conjI allI impI) simp_all
qed

theorem blob_reader_correct_witness:
  "\<exists>r. new_reader \<bind> run_reader [Push_data [1, 2, 3], Push_data [4], Pop_until 1, Push_data [5, 6]] = Some r
     \<and> SliceOff 2 3 r = Some (Some [3, 4, 5]) \<and> SliceOff 5 2 r = Some None"
proof -
  let ?ops = "[Push_data [1, 2, 3], Push_data [4], Pop_until 1, Push_data [5, 6]]"
  have "reader_ops_ok ?ops ([], 0)" "length ?ops < 2 ^ 61" "stream_of ?ops ([], 0) = ([1, 2, 3, 4, 5, 6], 1)" by simp_all
  from blob_reader_correct[OF this] obtain r where r: "new_reader \<bind> run_reader ?ops = Some r"
    "\<And>p len. 1 \<le> p \<Longrightarrow> p + len < 2 ^ 64 \<Longrightarrow> len < 2 ^ 32 \<Longrightarrow> SliceOff p len r
       = Some (if len = 0 \<or> p + len \<le> length [1, 2, 3, 4, 5, 6 :: u8] then Some (take len (drop p [1, 2, 3, 4, 5, 6])) else None)"
    by blast
  show ?thesis using r(1) r(2)[of 2 3] r(2)[of 5 2] by (intro exI[of _ r]) (simp add: numeral_3_eq_3)
qed

subsection \<open>Where an iterator stands\<close>

definition block_iter :: "TraceBlobViewReader \<Rightarrow> nat \<Rightarrow> Iterator" where
  "block_iter r i = \<lparr>it_pos = cq_begin (r_data r) + i, it_generation = generation (r_data r)\<rparr>"

text \<open>At offset \<open>p\<close>, in block \<open>i\<close>; at the end of the data the block may be any earlier one.\<close>

definition it_at :: "bytes \<Rightarrow> TraceBlobViewReader \<Rightarrow> nat \<Rightarrow> nat \<Rightarrow> ReaderIterator \<Rightarrow> bool" where
  "it_at s r i p it \<longleftrightarrow> it = \<lparr>ri_iter = block_iter r i, file_offset = p, ri_end_offset = length s\<rparr>
     \<and> i < length (contents (r_data r)) \<and> start_offset (contents (r_data r) ! i) \<le> p \<and> p \<le> length s
     \<and> (p < length s \<longrightarrow> p < e_end_offset (contents (r_data r) ! i))"

lemma block_iter_deref:
  assumes "cq_inv (r_data r)" "i < length (contents (r_data r))"
  shows "it_deref (r_data r) (block_iter r i) = Some (contents (r_data r) ! i)"
  using cq.get_elem[OF assms] by (simp add: it_deref_def block_iter_def)

lemma block_iter_end: "cq_inv (r_data r) \<Longrightarrow> it_deref (r_data r) (block_iter r (length (contents (r_data r)))) = None"
  using cq.elems_length[of "r_data r"] by (simp add: it_deref_def block_iter_def cq_read_def Get_slot_def)

lemma block_iter_next:
  assumes "cq_inv (r_data r)" "i < length (contents (r_data r))"
  shows "it_add (r_data r) 1 (block_iter r i) = Some (block_iter r (Suc i))"
  using cq.elems_length[OF assms(1)] assms(2) by (simp add: it_add_def block_iter_def nat_add_distrib)

lemma it_at_deref:
  assumes "reader_inv s off n r" "it_at s r i p it" "p < length s"
  shows "ri_deref r it = Some (s ! p)"
proof -
  let ?e = "contents (r_data r) ! i"
  note inv = assms(1)[unfolded reader_inv_def] and at = assms(2)[unfolded it_at_def]
  have t: "tiles s off (contents (r_data r))" "length s < 2 ^ 64" "i < length (contents (r_data r))" using inv at by auto
  note n = tiles_nth[OF t]
  have p: "start_offset ?e \<le> p" "p < e_end_offset ?e" using at assms(3) by auto
  have "e_data ?e ! (p - start_offset ?e) = take (length (e_data ?e)) (drop (start_offset ?e) s) ! (p - start_offset ?e)"
    using n(6) by simp
  also have "\<dots> = s ! p" using p n(1,3) by simp
  finally show ?thesis
    using at inv block_iter_deref[of r i] p t(2) assms(3) by (simp add: ri_deref_def sub64_small)
qed

lemma next_block_start:
  assumes "tiles s off es" "length s < 2 ^ 64" "i < length es" "e_end_offset (es ! i) < length s"
  shows "Suc i < length es" "start_offset (es ! Suc i) = e_end_offset (es ! i)"
proof -
  have t: "tiles s (e_end_offset (es ! i)) (drop (Suc i) es)" by (rule tiles_nth(4)[OF assms(1-3)])
  show l: "Suc i < length es" using t assms(4) by (intro not_le_imp_less notI) simp
  have "drop (Suc i) es = es ! Suc i # drop (Suc (Suc i)) es" using l by (simp add: Cons_nth_drop_Suc)
  then show "start_offset (es ! Suc i) = e_end_offset (es ! i)" using t by simp
qed

lemma advance_blocks_ok:
  assumes "reader_inv s off n r" "i < length (contents (r_data r))" "e_end_offset (contents (r_data r) ! i) \<le> p" "p < length s"
  shows "\<exists>j < length (contents (r_data r)). advance_blocks (r_data r) p (block_iter r i) = Some (block_iter r j)
     \<and> start_offset (contents (r_data r) ! j) \<le> p \<and> p < e_end_offset (contents (r_data r) ! j)"
  using assms(2-3)
proof (induction "length (contents (r_data r)) - i" arbitrary: i)
  case (Suc m)
  let ?es = "contents (r_data r)"
  have inv: "cq_inv (r_data r)" "tiles s off ?es" "length s < 2 ^ 64" using assms(1) by (auto simp: reader_inv_def)
  have "e_end_offset (?es ! i) < length s" using Suc.prems(2) assms(4) by simp
  note nx = next_block_start[OF inv(2,3) Suc.prems(1) this]
  have u: "advance_blocks (r_data r) p (block_iter r i) = (if e_end_offset (?es ! Suc i) \<le> p
      then advance_blocks (r_data r) p (block_iter r (Suc i)) else Some (block_iter r (Suc i)))"
    by (subst advance_blocks.simps) (simp add: block_iter_next[OF inv(1) Suc.prems(1)] block_iter_deref[OF inv(1) nx(1)])
  show ?case
  proof (cases "e_end_offset (?es ! Suc i) \<le> p")
    case True
    then show ?thesis using Suc.hyps(1)[of "Suc i"] Suc.hyps(2) nx(1) u by simp
  next
    case False
    then show ?thesis using u nx Suc.prems(2) by auto
  qed
qed simp

lemma MaybeAdvance_ok:
  assumes "reader_inv s off n r" "it_at s r i p it" "p + d < 2 ^ 64"
  shows "\<exists>j it'. MaybeAdvance r d it = Some (p + d \<le> length s, if p + d \<le> length s then it' else it)
     \<and> (p + d \<le> length s \<longrightarrow> it_at s r j (p + d) it')"
proof -
  let ?es = "contents (r_data r)"
  have inv: "cq_inv (r_data r)" "tiles s off ?es" "length s < 2 ^ 64" using assms(1) by (auto simp: reader_inv_def)
  have at: "it = \<lparr>ri_iter = block_iter r i, file_offset = p, ri_end_offset = length s\<rparr>" "i < length ?es"
    "start_offset (?es ! i) \<le> p" using assms(2) by (auto simp: it_at_def)
  note dr = block_iter_deref[OF inv(1) at(2)] and a = add64_small[OF assms(3)]
  consider "p + d < e_end_offset (?es ! i) \<or> length s \<le> p + d" | "e_end_offset (?es ! i) \<le> p + d" "p + d < length s" by linarith
  then show ?thesis
  proof cases
    case 1
    then show ?thesis
      using at dr a tiles_nth(3)[OF inv(2,3) at(2)]
      by (intro exI[of _ i] exI[of _ "it\<lparr>file_offset := p + d\<rparr>"]) (auto simp: MaybeAdvance_def it_at_def Let_def)
  next
    case 2
    from advance_blocks_ok[OF assms(1) at(2) 2] obtain j where j: "j < length ?es"
      "advance_blocks (r_data r) (p + d) (block_iter r i) = Some (block_iter r j)"
      "start_offset (?es ! j) \<le> p + d" "p + d < e_end_offset (?es ! j)" by blast
    then show ?thesis
      using 2 at dr a by (intro exI[of _ j] exI[of _ "it\<lparr>file_offset := p + d, ri_iter := block_iter r j\<rparr>"])
        (auto simp: MaybeAdvance_def it_at_def Let_def)
  qed
qed

lemma takeWhile_shorter: "c \<in> set xs \<Longrightarrow> length (takeWhile (\<lambda>x. x \<noteq> c) xs) < length xs"
  by (induction xs) auto

lemma memchr_split:
  assumes "memchr c xs = Some k"
  shows "length (takeWhile (\<lambda>x. x \<noteq> c) (xs @ ys)) = k"
proof -
  note m = memchr_SomeD[OF assms]
  have "takeWhile (\<lambda>x. x \<noteq> c) (take k xs @ drop k xs @ ys) = take k xs"
    using m by (subst takeWhile_append2) (auto simp: Cons_nth_drop_Suc[symmetric])
  then show ?thesis using m by (simp flip: append_assoc)
qed

lemma find_loop_ok:
  assumes "reader_inv s off n r" "i < length (contents (r_data r))" "start_offset (contents (r_data r) ! i) \<le> p"
    and "p < e_end_offset (contents (r_data r) ! i)"
    and "it = \<lparr>ri_iter = block_iter r i, file_offset = p0, ri_end_offset = length s\<rparr>"
  shows "if c \<in> set (drop p s)
     then \<exists>j it'. find_loop (r_data r) c p it = Some (True, it')
       \<and> it_at s r j (p + length (takeWhile (\<lambda>x. x \<noteq> c) (drop p s))) it'
     else find_loop (r_data r) c p it = Some (False, it\<lparr>ri_iter := block_iter r (length (contents (r_data r)))\<rparr>)"
  using assms(2-)
proof (induction "length (contents (r_data r)) - i" arbitrary: i p it)
  case (Suc m)
  let ?es = "contents (r_data r)" and ?q = "r_data r"
  let ?e = "?es ! i"
  have inv: "cq_inv ?q" "tiles s off ?es" "length s < 2 ^ 64" using assms(1) by (auto simp: reader_inv_def)
  note nt = tiles_nth[OF inv(2,3) Suc.prems(1)] and dr = block_iter_deref[OF inv(1) Suc.prems(1)]
    and nx = block_iter_next[OF inv(1) Suc.prems(1)]
  have p: "p < length s" using Suc.prems(3) nt(3) by simp
  define blk where "blk = take (e_end_offset ?e - p) (drop p s)"
  have rel: "sub64 p (start_offset ?e) = p - start_offset ?e" using Suc.prems(2) p inv(3) by (simp add: sub64_small)
  have "drop (p - start_offset ?e) (e_data ?e) = drop (p - start_offset ?e) (take (length (e_data ?e)) (drop (start_offset ?e) s))"
    using nt(6) by simp
  also have "\<dots> = blk" using Suc.prems(2) nt(1) by (simp add: blk_def drop_take add.commute)
  finally have blk: "drop (p - start_offset ?e) (e_data ?e) = blk" .
  have sp: "drop p s = blk @ drop (e_end_offset ?e) s" "length blk = e_end_offset ?e - p"
    using Suc.prems(3) nt(3) append_take_drop_id[of "e_end_offset ?e - p" "drop p s"] by (auto simp: blk_def)
  have u: "find_loop ?q c p it = (case memchr c blk of
        Some k \<Rightarrow> Some (True, it\<lparr>file_offset := add64 (start_offset ?e) (p - start_offset ?e + k)\<rparr>)
      | None \<Rightarrow> find_loop ?q c (e_end_offset ?e) (it\<lparr>ri_iter := block_iter r (Suc i)\<rparr>))"
    using p Suc.prems(4) by (subst find_loop.simps) (cases "memchr c blk"; simp add: dr rel blk nx Let_def del: memchr_None_iff)
  show ?case
  proof (cases "memchr c blk")
    case (Some k)
    note k = memchr_SomeD[OF Some]
    have "start_offset ?e + (p - start_offset ?e + k) = p + k" "p + k < 2 ^ 64"
      using k sp(2) Suc.prems(2) nt(3) inv(3) by linarith+
    then have "add64 (start_offset ?e) (p - start_offset ?e + k) = p + k" by (simp only: add64_small)
    moreover have "length (takeWhile (\<lambda>x. x \<noteq> c) (drop p s)) = k" unfolding sp(1) by (rule memchr_split[OF Some])
    moreover have "c \<in> set (drop p s)" using k by (auto simp: sp(1))
    moreover have "p + k < e_end_offset ?e" using k sp(2) by linarith
    ultimately show ?thesis
      using u Some Suc.prems nt(3) by (auto simp: it_at_def intro!: exI[of _ i])
  next
    case None
    then have c: "c \<notin> set blk" by simp
    show ?thesis
    proof (cases "e_end_offset ?e < length s")
      case False
      then have e: "e_end_offset ?e = length s" using nt(3) by simp
      then have "drop (Suc i) ?es = []" using tiles_done[of s "drop (Suc i) ?es"] nt(4) by simp
      then have "Suc i = length ?es" using Suc.prems(1) by simp
      then show ?thesis using u None c sp(1) e Suc.prems(4) by (simp add: find_loop.simps[of _ _ "length s"])
    next
      case True
      note nb = next_block_start[OF inv(2,3) Suc.prems(1) True]
      have "e_end_offset ?e < e_end_offset (?es ! Suc i)" using tiles_nth(1,2)[OF inv(2,3) nb(1)] nb(2) by simp
      moreover have "p + length (takeWhile (\<lambda>x. x \<noteq> c) (drop p s))
          = e_end_offset ?e + length (takeWhile (\<lambda>x. x \<noteq> c) (drop (e_end_offset ?e) s))"
        unfolding sp(1) using c sp(2) Suc.prems(3) by (subst takeWhile_append2) auto
      moreover have "c \<in> set (drop p s) \<longleftrightarrow> c \<in> set (drop (e_end_offset ?e) s)" using c by (simp add: sp(1))
      moreover have "m = length ?es - Suc i" using Suc.hyps(2) by simp
      ultimately show ?thesis
        using Suc.hyps(1)[of "Suc i" "e_end_offset ?e" "it\<lparr>ri_iter := block_iter r (Suc i)\<rparr>"] nb u None Suc.prems(4)
        by (simp split: if_splits)
    qed
  qed
qed simp

lemma MaybeFindAndAdvance_found:
  assumes "reader_inv s off n r" "it_at s r i p it" "off \<le> p" "c \<in> set (drop p s)" "length s < p + 2 ^ 32"
  defines "k \<equiv> length (takeWhile (\<lambda>x. x \<noteq> c) (drop p s))"
  shows "\<exists>j it'. MaybeFindAndAdvance r c it = Some (Some (take k (drop p s)), it') \<and> it_at s r j (p + k + 1) it' \<and> p + k < length s"
proof -
  have inv: "length s < 2 ^ 64" using assms(1) by (simp add: reader_inv_def)
  have p: "p < length s" using assms(4) by (intro not_le_imp_less notI) simp
  have "k < length (drop p s)" unfolding k_def by (rule takeWhile_shorter[OF assms(4)])
  then have k: "p + k < length s" by simp
  from find_loop_ok[OF assms(1), of i p it p c] assms(2,4) p obtain j it1 where f: "find_loop (r_data r) c p it = Some (True, it1)"
    "it_at s r j (p + k) it1" by (auto simp: it_at_def k_def)
  have o: "file_offset it = p" "file_offset it1 = p + k" using assms(2) f(2) by (auto simp: it_at_def)
  have "SliceOff p k r = Some (Some (take k (drop p s)))"
    using SliceOff_ok[OF assms(1,3), of k] k inv assms(5) by simp
  moreover have "sub64 (p + k) p = k" using k inv by (simp add: sub64_small)
  moreover obtain j' it2 where "MaybeAdvance r 1 it1 = Some (True, it2)" "it_at s r j' (p + k + 1) it2"
    using MaybeAdvance_ok[OF assms(1) f(2), of 1] k inv by auto
  ultimately show ?thesis using f(1) o k by (auto simp: MaybeFindAndAdvance_def MaybeFindAndAdvanceInner_def)
qed

subsection \<open>Reading lines\<close>

text \<open>How the line-based trace readers use the iterator: as many lines as there are, then stop.\<close>

fun read_lines :: "nat \<Rightarrow> TraceBlobViewReader \<Rightarrow> u8 \<Rightarrow> ReaderIterator \<Rightarrow> (bytes list \<times> ReaderIterator) option" where
  "read_lines 0 r c it = None"
| "read_lines (Suc fuel) r c it =
     do {
       (line, it) \<leftarrow> MaybeFindAndAdvance r c it;
       case line of
         None \<Rightarrow> Some ([], it)
       | Some l \<Rightarrow> do { (ls, it) \<leftarrow> read_lines fuel r c it; Some (l # ls, it) } }"

function complete_lines :: "u8 \<Rightarrow> bytes \<Rightarrow> bytes list" where
  "complete_lines c bs =
     (if c \<in> set bs then
        let l = takeWhile (\<lambda>x. x \<noteq> c) bs in l # complete_lines c (drop (length l + 1) bs)
      else [])"
  by pat_completeness auto
termination by (relation "measure (\<lambda>(c, bs). length bs)") (auto dest: length_pos_if_in_set)

declare complete_lines.simps [simp del]

lemma MaybeFindAndAdvance_none:
  assumes "reader_inv s off n r" "it_at s r i p it" "c \<notin> set (drop p s)"
  shows "MaybeFindAndAdvance r c it
    = Some (None, if p < length s then it\<lparr>ri_iter := block_iter r (length (contents (r_data r)))\<rparr> else it)"
proof (cases "p < length s")
  case True
  then show ?thesis
    using find_loop_ok[OF assms(1), of i p it p c] assms(2,3)
    by (auto simp: it_at_def MaybeFindAndAdvance_def MaybeFindAndAdvanceInner_def)
next
  case False
  then show ?thesis
    using assms(2) by (auto simp: it_at_def MaybeFindAndAdvance_def MaybeFindAndAdvanceInner_def find_loop.simps[of _ _ "length s"])
qed

lemma read_lines_ok:
  assumes "reader_inv s off n r" "it_at s r i p it" "off \<le> p" "length s < p + 2 ^ 32" "length (complete_lines c (drop p s)) < fuel"
  shows "\<exists>it'. read_lines fuel r c it = Some (complete_lines c (drop p s), it')"
  using assms(2-)
proof (induction fuel arbitrary: i p it)
  case (Suc fuel)
  show ?case
  proof (cases "c \<in> set (drop p s)")
    case True
    let ?k = "length (takeWhile (\<lambda>x. x \<noteq> c) (drop p s))"
    from MaybeFindAndAdvance_found[OF assms(1) Suc.prems(1,2) True Suc.prems(3)] obtain j it' where
      f: "MaybeFindAndAdvance r c it = Some (Some (take ?k (drop p s)), it')" "it_at s r j (p + ?k + 1) it'" by blast
    have "take ?k (drop p s) = takeWhile (\<lambda>x. x \<noteq> c) (drop p s)" by (rule takeWhile_eq_take[symmetric])
    then have l: "complete_lines c (drop p s) = take ?k (drop p s) # complete_lines c (drop (p + ?k + 1) s)"
      using True by (simp add: complete_lines.simps[of c "drop p s"] Let_def add_ac)
    have "length (complete_lines c (drop (p + ?k + 1) s)) < fuel" using Suc.prems(4) l by simp
    with Suc.IH[OF f(2)] Suc.prems(2,3) obtain it'' where "read_lines fuel r c it' = Some (complete_lines c (drop (p + ?k + 1) s), it'')"
      by auto
    then show ?thesis using f(1) l by simp
  next
    case False
    then show ?thesis
      using MaybeFindAndAdvance_none[OF assms(1) Suc.prems(1) False] by (simp add: complete_lines.simps[of c "drop p s"])
  qed
qed simp

lemma GetIterator_ok:
  assumes "reader_inv s off n r" "off < length s"
  shows "\<exists>it. GetIterator r = Some it \<and> it_at s r 0 off it"
proof -
  have inv: "tiles s off (contents (r_data r))" "r_end_offset r = length s" "length s < 2 ^ 64"
    using assms(1) by (auto simp: reader_inv_def)
  then obtain e es where e: "contents (r_data r) = e # es" using assms(2) by (cases "contents (r_data r)") auto
  then show ?thesis
    using inv assms(2) reader_start(1)[OF assms(1)] tiles_nth(1,2)[OF inv(1,3), of 0]
    by (auto simp: GetIterator_def it_at_def begin_it_def block_iter_def)
qed

text \<open>Iterating over the buffered data line by line, with lines cut anywhere by chunk boundaries,
  yields exactly the complete lines of the stream, in order, and stops at the last incomplete one.
  Fuel of one more than the number of lines is enough.\<close>

theorem reader_lines_correct:
  assumes "reader_ops_ok ops ([], 0)" "length ops < 2 ^ 61" "stream_of ops ([], 0) = (s, off)"
    and "off < length s" "length s < off + 2 ^ 32"
  shows "\<exists>r it it'. new_reader \<bind> run_reader ops = Some r \<and> GetIterator r = Some it
     \<and> read_lines (Suc (length (complete_lines c (drop off s)))) r c it = Some (complete_lines c (drop off s), it')"
proof -
  obtain r0 where r0: "new_reader = Some r0" "reader_inv [] 0 0 r0" using new_reader_ok by blast
  from run_reader_ok[OF r0(2) assms(1)] assms(2,3) obtain r where r: "run_reader ops r0 = Some r" "reader_inv s off (length ops) r"
    by auto
  from GetIterator_ok[OF r(2) assms(4)] obtain it where it: "GetIterator r = Some it" "it_at s r 0 off it" by blast
  show ?thesis
    using read_lines_ok[OF r(2) it(2) order_refl assms(5) lessI] r(1) it(1) unfolding r0(1) by auto
qed

theorem reader_lines_correct_witness:
  "\<exists>r it it'. new_reader \<bind> run_reader [Push_data [65, 66], Push_data [10, 67, 10, 68]] = Some r \<and> GetIterator r = Some it
     \<and> read_lines 3 r 10 it = Some ([[65, 66], [67]], it')"
proof -
  let ?ops = "[Push_data [65, 66], Push_data [10, 67, 10, 68]]"
  have "reader_ops_ok ?ops ([], 0)" "length ?ops < 2 ^ 61" "stream_of ?ops ([], 0) = ([65, 66, 10, 67, 10, 68], 0)"
    "0 < length [65, 66, 10, 67, 10, 68 :: u8]" "length [65, 66, 10, 67, 10, 68 :: u8] < 0 + 2 ^ 32" by simp_all
  moreover have "complete_lines 10 (drop 0 [65, 66, 10, 67, 10, 68]) = [[65, 66], [67]]" by code_simp
  ultimately show ?thesis using reader_lines_correct[of ?ops "[65, 66, 10, 67, 10, 68]" 0 10] by (simp add: numeral_3_eq_3)
qed

text \<open>A search that finds nothing is documented to leave the iterator unchanged; the code leaves it
  pointing one past the last block, so the byte it stands on can no longer be read and the next
  \<^verbatim>\<open>MaybeAdvance\<close> dereferences the end of the queue.\<close>

theorem failed_find_breaks_iterator:
  assumes "reader_inv s off n r" "it_at s r i p it" "p < length s" "c \<notin> set (drop p s)"
  shows "\<exists>it'. MaybeFindAndAdvance r c it = Some (None, it') \<and> ri_deref r it = Some (s ! p)
     \<and> file_offset it' = p \<and> ri_deref r it' = None \<and> MaybeAdvance r d it' = None"
proof -
  have "cq_inv (r_data r)" using assms(1) by (simp add: reader_inv_def)
  from block_iter_end[OF this] show ?thesis
    using MaybeFindAndAdvance_none[OF assms(1,2,4)] it_at_deref[OF assms(1-3)] assms(2,3)
    by (auto simp: ri_deref_def MaybeAdvance_def Let_def it_at_def)
qed

theorem failed_find_breaks_iterator_witness:
  "\<exists>r it it'. new_reader \<bind> run_reader [Push_data [65, 66]] = Some r \<and> GetIterator r = Some it
     \<and> MaybeFindAndAdvance r 10 it = Some (None, it') \<and> ri_deref r it = Some 65 \<and> ri_deref r it' = None"
proof -
  obtain r0 where r0: "new_reader = Some r0" "reader_inv [] 0 0 r0" using new_reader_ok by blast
  from run_reader_ok[OF r0(2), of "[Push_data [65, 66]]" "[65, 66]" 0] obtain r where
    r: "run_reader [Push_data [65, 66]] r0 = Some r" "reader_inv [65, 66] 0 1 r" by auto
  from GetIterator_ok[OF r(2)] obtain it where "GetIterator r = Some it" "it_at [65, 66] r 0 0 it" by auto
  then show ?thesis
    using failed_find_breaks_iterator[OF r(2), of 0 0 it 10] r(1) unfolding r0(1) by auto
qed

end
