(* ===== verification/Flat_Hash_Map.thy ===== *)
theory Flat_Hash_Map
  imports Base_Utils "HOL-Library.Monad_Syntax"
begin

text \<open>
  The open-addressing hash map of \<^verbatim>\<open>include/dejaview/ext/base/flat_hash_map.h\<close>. The template arguments are
  a record of parameters. Key and value slots of the raw arrays are \<open>None\<close> while no object lives in
  them; sizes and capacities are \<^verbatim>\<open>size_t\<close>, with the wrap-around written out where they are multiplied.
  \<open>None\<close> as the result of an operation is a failed \<^verbatim>\<open>DEJAVIEW_CHECK\<close>. \<^verbatim>\<open>Insert\<close> and
  \<^verbatim>\<open>MaybeGrowAndRehash\<close> call each other and \<^verbatim>\<open>Insert\<close> retries in a loop, hence the fuel; two rounds
  are shown to be enough. The contract of a probing scheme is the locale \<open>probe_sequence\<close>.
\<close>

unbundle bit_operations_syntax

subsection \<open>Probing\<close>

definition LinearProbe_Calc :: "u64 \<Rightarrow> nat \<Rightarrow> nat \<Rightarrow> nat" where
  "LinearProbe_Calc key_hash step capacity = unat ((key_hash + of_nat step) AND (of_nat capacity - 1))"

definition QuadraticProbe_Calc :: "u64 \<Rightarrow> nat \<Rightarrow> nat \<Rightarrow> nat" where
  "QuadraticProbe_Calc key_hash step capacity =
     unat ((key_hash + 2 * of_nat step * of_nat step + of_nat step) AND (of_nat capacity - 1))"

definition QuadraticHalfProbe_Calc :: "u64 \<Rightarrow> nat \<Rightarrow> nat \<Rightarrow> nat" where
  "QuadraticHalfProbe_Calc key_hash step capacity =
     unat ((key_hash + (of_nat step * of_nat step + of_nat step) div 2) AND (of_nat capacity - 1))"

subsection \<open>State\<close>

text \<open>\<open>entry_size\<close> is \<^verbatim>\<open>sizeof(Key) + sizeof(Value)\<close>.\<close>

record 'k map_params =
  hasher :: "'k \<Rightarrow> u64"
  Probe :: "u64 \<Rightarrow> nat \<Rightarrow> nat \<Rightarrow> nat"
  AppendOnly :: bool
  entry_size :: nat

record ('k, 'v) FlatHashMap =
  fcapacity :: nat
  fsize :: nat
  max_probe_length :: nat
  load_limit :: nat
  load_limit_percent :: nat
  tags :: "u8 list"
  keys :: "'k option list"
  vals :: "'v option list"

definition kFreeSlot :: u8 where "kFreeSlot = 0"
definition kTombstone :: u8 where "kTombstone = 1"
definition kDefaultLoadLimitPct :: nat where "kDefaultLoadLimitPct = 75"

definition HashToTag :: "u64 \<Rightarrow> u8" where
  "HashToTag full_hash =
     (let tag = ucast (drop_bit 56 full_hash) in if tag \<le> kTombstone then tag + 2 else tag)"

definition Reset_map :: "nat \<Rightarrow> ('k, 'v) FlatHashMap \<Rightarrow> ('k, 'v) FlatHashMap" where
  "Reset_map n m =
     m\<lparr>fcapacity := n, max_probe_length := 0, fsize := 0,
       load_limit := min (n * load_limit_percent m mod 2 ^ 64 div 100) n,
       tags := replicate n kFreeSlot, keys := replicate n None, vals := replicate n None\<rparr>"

definition new_FlatHashMap :: "nat \<Rightarrow> nat \<Rightarrow> ('k, 'v) FlatHashMap" where
  "new_FlatHashMap initial_capacity load_limit_pct =
     (let m = \<lparr>fcapacity = 0, fsize = 0, max_probe_length = 0, load_limit = 0, load_limit_percent = load_limit_pct,
               tags = [], keys = [], vals = []\<rparr>
      in if 0 < initial_capacity then Reset_map initial_capacity m else m)"

text \<open>The new map and the map moved from.\<close>

definition move_FlatHashMap :: "('k, 'v) FlatHashMap \<Rightarrow> ('k, 'v) FlatHashMap \<times> ('k, 'v) FlatHashMap" where
  "move_FlatHashMap other = (other, new_FlatHashMap 0 kDefaultLoadLimitPct)"

subsection \<open>Lookup\<close>

text \<open>The inner loop of \<^verbatim>\<open>Insert\<close>: the key's slot, or a slot to insert at and the probe length.\<close>

datatype probe_result = KeyAt nat | NoKey "nat option" nat

function probe_loop ::
  "'k map_params \<Rightarrow> ('k, 'v) FlatHashMap \<Rightarrow> 'k \<Rightarrow> nat option \<Rightarrow> nat \<Rightarrow> probe_result" where
  "probe_loop P m key insertion_slot probe_len =
     (if probe_len < fcapacity m then
        let idx = Probe P (hasher P key) probe_len (fcapacity m);
            tag_idx = tags m ! idx in
        if tag_idx = kFreeSlot then
          NoKey (if AppendOnly P \<or> insertion_slot = None then Some idx else insertion_slot) (probe_len + 1)
        else if \<not> AppendOnly P \<and> tag_idx = kTombstone then probe_loop P m key (Some idx) (probe_len + 1)
        else if tag_idx = HashToTag (hasher P key) \<and> keys m ! idx = Some key then KeyAt idx
        else probe_loop P m key insertion_slot (probe_len + 1)
      else NoKey insertion_slot probe_len)"
  by pat_completeness auto
termination by (relation "measure (\<lambda>(P, m, key, slot, n). fcapacity m - n)") auto

function find_loop_map :: "'k map_params \<Rightarrow> ('k, 'v) FlatHashMap \<Rightarrow> 'k \<Rightarrow> nat \<Rightarrow> nat option" where
  "find_loop_map P m key i =
     (if i < max_probe_length m then
        let idx = Probe P (hasher P key) i (fcapacity m); tag_idx = tags m ! idx in
        if tag_idx = kFreeSlot then None
        else if tag_idx = HashToTag (hasher P key) \<and> keys m ! idx = Some key then Some idx
        else find_loop_map P m key (i + 1)
      else None)"
  by pat_completeness auto
termination by (relation "measure (\<lambda>(P, m, key, i). max_probe_length m - i)") auto

definition FindInternal :: "'k map_params \<Rightarrow> 'k \<Rightarrow> ('k, 'v) FlatHashMap \<Rightarrow> nat option" where
  "FindInternal P key m = find_loop_map P m key 0"

definition Find :: "'k map_params \<Rightarrow> 'k \<Rightarrow> ('k, 'v) FlatHashMap \<Rightarrow> 'v option" where
  "Find P key m = do { idx \<leftarrow> FindInternal P key m; vals m ! idx }"

subsection \<open>Insertion\<close>

definition place :: "'k map_params \<Rightarrow> 'k \<Rightarrow> 'v \<Rightarrow> nat \<Rightarrow> nat \<Rightarrow> ('k, 'v) FlatHashMap \<Rightarrow> ('k, 'v) FlatHashMap" where
  "place P key value slot probe_len m =
     m\<lparr>keys := (keys m)[slot := Some key], vals := (vals m)[slot := Some value],
       tags := (tags m)[slot := HashToTag (hasher P key)],
       max_probe_length := max (max_probe_length m) probe_len, fsize := fsize m + 1\<rparr>"

definition grown_capacity :: "'k map_params \<Rightarrow> bool \<Rightarrow> nat \<Rightarrow> nat" where
  "grown_capacity P grow old_capacity =
     (let old_size_bytes = old_capacity * entry_size P mod 2 ^ 64;
          grow_factor = (if old_size_bytes < 1024 * 1024 then 8 else 2) in
      if grow then max (old_capacity * grow_factor mod 2 ^ 64) 1024 else old_capacity)"

text \<open>The loop over the old slots from index \<open>i\<close> on; \<open>ins\<close> is \<^verbatim>\<open>Insert\<close>.\<close>

function reinsert ::
  "('k \<Rightarrow> 'v \<Rightarrow> ('k, 'v) FlatHashMap \<Rightarrow> ((nat \<times> bool) \<times> ('k, 'v) FlatHashMap) option)
   \<Rightarrow> ('k, 'v) FlatHashMap \<Rightarrow> nat \<Rightarrow> nat \<Rightarrow> ('k, 'v) FlatHashMap \<Rightarrow> (nat \<times> ('k, 'v) FlatHashMap) option" where
  "reinsert ins old i new_size m =
     (if i < fcapacity old then
        if tags old ! i \<noteq> kFreeSlot \<and> tags old ! i \<noteq> kTombstone then
          do {
            k \<leftarrow> keys old ! i;
            v \<leftarrow> vals old ! i;
            (_, m) \<leftarrow> ins k v m;
            reinsert ins old (i + 1) (new_size + 1) m }
        else reinsert ins old (i + 1) new_size m
      else Some (new_size, m))"
  by pat_completeness auto
termination by (relation "measure (\<lambda>(_, old, i, _, _). fcapacity old - i)") auto

definition rehash_with ::
  "('k \<Rightarrow> 'v \<Rightarrow> ('k, 'v) FlatHashMap \<Rightarrow> ((nat \<times> bool) \<times> ('k, 'v) FlatHashMap) option)
   \<Rightarrow> 'k map_params \<Rightarrow> bool \<Rightarrow> ('k, 'v) FlatHashMap \<Rightarrow> ('k, 'v) FlatHashMap option" where
  "rehash_with ins P grow m =
     (let new_capacity = grown_capacity P grow (fcapacity m) in
      if new_capacity < fcapacity m then None
      else do {
        (new_size, m') \<leftarrow> reinsert ins m 0 0 (Reset_map new_capacity m);
        Some (m'\<lparr>fsize := new_size\<rparr>) })"

text \<open>The index of the value and whether it was inserted.\<close>

fun Insert :: "nat \<Rightarrow> 'k map_params \<Rightarrow> 'k \<Rightarrow> 'v \<Rightarrow> ('k, 'v) FlatHashMap \<Rightarrow> ((nat \<times> bool) \<times> ('k, 'v) FlatHashMap) option" where
  "Insert 0 P key value m = None"
| "Insert (Suc fuel) P key value m =
     (case probe_loop P m key None 0 of
        KeyAt idx \<Rightarrow> Some ((idx, False), m)
      | NoKey insertion_slot probe_len \<Rightarrow>
          if load_limit m \<le> fsize m then
            do { m' \<leftarrow> rehash_with (Insert fuel P) P True m; Insert fuel P key value m' }
          else case insertion_slot of
            None \<Rightarrow> None
          | Some slot \<Rightarrow>
              if slot < fcapacity m then Some ((slot, True), place P key value slot probe_len m) else None)"

definition MaybeGrowAndRehash :: "'k map_params \<Rightarrow> bool \<Rightarrow> ('k, 'v) FlatHashMap \<Rightarrow> ('k, 'v) FlatHashMap option" where
  "MaybeGrowAndRehash P grow m = rehash_with (Insert 2 P) P grow m"

text \<open>\<^verbatim>\<open>operator[]\<close> inserts a default value and yields the value found or inserted.\<close>

definition index_op :: "'k map_params \<Rightarrow> 'k \<Rightarrow> 'v \<Rightarrow> ('k, 'v) FlatHashMap \<Rightarrow> ('v \<times> ('k, 'v) FlatHashMap) option" where
  "index_op P key dflt m =
     do { ((idx, _), m') \<leftarrow> Insert 2 P key dflt m; v \<leftarrow> vals m' ! idx; Some (v, m') }"

subsection \<open>Removal\<close>

definition EraseInternal :: "nat \<Rightarrow> ('k, 'v) FlatHashMap \<Rightarrow> ('k, 'v) FlatHashMap" where
  "EraseInternal idx m =
     m\<lparr>tags := (tags m)[idx := kTombstone], keys := (keys m)[idx := None], vals := (vals m)[idx := None],
       fsize := fsize m - 1\<rparr>"

definition Erase :: "'k map_params \<Rightarrow> 'k \<Rightarrow> ('k, 'v) FlatHashMap \<Rightarrow> (bool \<times> ('k, 'v) FlatHashMap) option" where
  "Erase P key m =
     (if AppendOnly P then None
      else case FindInternal P key m of
        None \<Rightarrow> Some (False, m)
      | Some idx \<Rightarrow> Some (True, EraseInternal idx m))"

definition erase_live :: "nat \<Rightarrow> ('k, 'v) FlatHashMap \<Rightarrow> ('k, 'v) FlatHashMap" where
  "erase_live i m = (if tags m ! i \<noteq> kFreeSlot \<and> tags m ! i \<noteq> kTombstone then EraseInternal i m else m)"

definition Clear_map :: "'k map_params \<Rightarrow> ('k, 'v) FlatHashMap \<Rightarrow> ('k, 'v) FlatHashMap option" where
  "Clear_map P m =
     (if fcapacity m = 0 then Some m
      else MaybeGrowAndRehash P False (fold erase_live [0..<fcapacity m] m))"

subsection \<open>Iteration\<close>

function FindNextNonFree :: "'k map_params \<Rightarrow> ('k, 'v) FlatHashMap \<Rightarrow> nat \<Rightarrow> nat option" where
  "FindNextNonFree P m idx =
     (if idx < fcapacity m then
        if tags m ! idx \<noteq> kFreeSlot \<and> (AppendOnly P \<or> tags m ! idx \<noteq> kTombstone) then Some idx
        else FindNextNonFree P m (idx + 1)
      else None)"
  by pat_completeness auto
termination by (relation "measure (\<lambda>(_, m, idx). fcapacity m - idx)") auto

declare FindNextNonFree.simps [simp del]

lemma FindNextNonFree_ge: "FindNextNonFree P m idx = Some j \<Longrightarrow> idx \<le> j \<and> j < fcapacity m"
proof (induction P m idx rule: FindNextNonFree.induct)
  case (1 P m idx)
  then show ?case by (subst (asm) FindNextNonFree.simps) (fastforce split: if_splits)
qed

text \<open>\<^verbatim>\<open>for (auto it = map.GetIterator(); it; ++it)\<close>: the pairs from slot \<open>idx\<close> on.\<close>

function iterate :: "'k map_params \<Rightarrow> ('k, 'v) FlatHashMap \<Rightarrow> nat \<Rightarrow> ('k option \<times> 'v option) list" where
  "iterate P m idx =
     (case FindNextNonFree P m idx of
        None \<Rightarrow> []
      | Some j \<Rightarrow> (keys m ! j, vals m ! j) # iterate P m (j + 1))"
  by pat_completeness auto
termination
  by (relation "measure (\<lambda>(_, m, idx). fcapacity m - idx)") (auto dest!: FindNextNonFree_ge)

declare probe_loop.simps [simp del] find_loop_map.simps [simp del] reinsert.simps [simp del] iterate.simps [simp del]

subsection \<open>Probing schemes visit every slot\<close>

locale probe_sequence =
  fixes calc :: "u64 \<Rightarrow> nat \<Rightarrow> nat \<Rightarrow> nat"
  assumes calc_range: "j \<le> 32 \<Longrightarrow> calc h s (2 ^ j) < 2 ^ j"
    and calc_inj: "j \<le> 32 \<Longrightarrow> s < 2 ^ j \<Longrightarrow> t < 2 ^ j \<Longrightarrow> calc h s (2 ^ j) = calc h t (2 ^ j) \<Longrightarrow> s = t"
begin

lemma calc_surj:
  assumes "j \<le> 32" "i < 2 ^ j"
  shows "\<exists>s < 2 ^ j. calc h s (2 ^ j) = i"
proof -
  let ?f = "\<lambda>s. calc h s (2 ^ j)"
  have inj: "inj_on ?f {..<2 ^ j}" using calc_inj[OF assms(1)] by (auto intro: inj_onI)
  have "?f ` {..<2 ^ j} \<subseteq> {..<2 ^ j}" using calc_range[OF assms(1)] by auto
  then have "?f ` {..<2 ^ j} = {..<2 ^ j}" using inj by (intro endo_inj_surj) auto
  then show ?thesis using assms(2) by (metis (no_types, lifting) imageE lessThan_iff)
qed

end

lemma unat_mask_mod:
  assumes "j \<le> 32"
  shows "unat ((x :: u64) AND (of_nat (2 ^ j) - 1)) = unat x mod 2 ^ j"
proof -
  have "of_nat (2 ^ j) - 1 = (mask j :: u64)" by (simp add: mask_eq_exp_minus_1)
  then show ?thesis by (simp add: unsigned_take_bit_eq flip: take_bit_eq_mask take_bit_eq_mod)
qed

lemma probe_mod:
  assumes "j \<le> 32"
  shows "LinearProbe_Calc h s (2 ^ j) = (unat h + s) mod 2 ^ j"
    "QuadraticProbe_Calc h s (2 ^ j) = (unat h + (2 * s * s + s)) mod 2 ^ j"
    "s < 2 ^ 32 \<Longrightarrow> QuadraticHalfProbe_Calc h s (2 ^ j) = (unat h + (s * s + s) div 2) mod 2 ^ j"
proof -
  have "(2 :: nat) ^ j dvd 2 ^ 64" using assms by (intro le_imp_power_dvd) simp
  then have red: "unat (h + of_nat n) mod 2 ^ j = (unat h + n) mod 2 ^ j" for n
    using mod_mod_cancel[of "2 ^ j" "2 ^ 64" "unat h + n"] by (simp add: unat_word_ariths unat_of_nat mod_add_right_eq)
  show "LinearProbe_Calc h s (2 ^ j) = (unat h + s) mod 2 ^ j"
    unfolding LinearProbe_Calc_def unat_mask_mod[OF assms] by (rule red)
  show "QuadraticProbe_Calc h s (2 ^ j) = (unat h + (2 * s * s + s)) mod 2 ^ j"
    using red[of "2 * s * s + s"] unfolding QuadraticProbe_Calc_def unat_mask_mod[OF assms] by (simp add: add.assoc)
  show "QuadraticHalfProbe_Calc h s (2 ^ j) = (unat h + (s * s + s) div 2) mod 2 ^ j" if "s < 2 ^ 32"
  proof -
    have "s * s + s \<le> (2 ^ 32 - 1) * (2 ^ 32 - 1) + (2 ^ 32 - 1)" using that by (intro add_mono mult_mono) auto
    then have lt: "s * s + s < 2 ^ 64" by simp
    then have "unat (of_nat ((s * s + s) div 2) :: u64) = (s * s + s) div 2" by (intro unat_of_nat_less) simp
    moreover have "unat (of_nat (s * s + s) :: u64) = s * s + s" using lt by (intro unat_of_nat_less) simp
    ultimately have "(of_nat s * of_nat s + of_nat s) div 2 = (of_nat ((s * s + s) div 2) :: u64)"
      by (simp add: word_unat_eq_iff unat_div_distrib)
    then show ?thesis using red[of "(s * s + s) div 2"] unfolding QuadraticHalfProbe_Calc_def unat_mask_mod[OF assms] by simp
  qed
qed

text \<open>A product of a number below \<open>2\<^sup>j\<close> in size and an odd one is a multiple of \<open>2\<^sup>j\<close> only if it is zero.\<close>

lemma mult_odd_dvd_power:
  fixes a b :: int
  assumes "2 ^ j dvd a * b" "odd b"
  shows "2 ^ j dvd a"
  using assms coprime_dvd_mult_left_iff[of "2 ^ j" b a] by (simp add: coprime_left_2_iff_odd)

lemma mod_eq_int_dvd: "(a :: nat) mod m = b mod m \<Longrightarrow> int m dvd int a - int b"
  by (metis mod_eq_dvd_iff zmod_int)

lemma small_dvd_zero: "(m :: int) dvd x \<Longrightarrow> \<bar>x\<bar> < m \<Longrightarrow> x = 0"
  using zdvd_imp_le[of m "\<bar>x\<bar>"] by fastforce

lemma int_less_power_2: "n < 2 ^ j \<Longrightarrow> int n < 2 ^ j"
  by (metis of_nat_less_iff of_nat_numeral of_nat_power)

lemma small_multiple_eq:
  assumes "(2 :: int) ^ j dvd int s - int t" "s < 2 ^ j" "t < 2 ^ j"
  shows "s = t"
proof -
  have "\<bar>int s - int t\<bar> < 2 ^ j" using assms(2,3)[THEN int_less_power_2] by linarith
  from small_dvd_zero[OF assms(1) this] show ?thesis by simp
qed

lemma linear_probe_inj:
  assumes "j \<le> 32" "s < 2 ^ j" "t < 2 ^ j" "LinearProbe_Calc h s (2 ^ j) = LinearProbe_Calc h t (2 ^ j)"
  shows "s = t"
proof (rule small_multiple_eq[OF _ assms(2,3)])
  show "(2 :: int) ^ j dvd int s - int t"
    using mod_eq_int_dvd[OF assms(4)[unfolded probe_mod(1)[OF assms(1)]]] by simp
qed

lemma quadratic_probe_inj:
  assumes "j \<le> 32" "s < 2 ^ j" "t < 2 ^ j" "QuadraticProbe_Calc h s (2 ^ j) = QuadraticProbe_Calc h t (2 ^ j)"
  shows "s = t"
proof (rule small_multiple_eq[OF _ assms(2,3)])
  have "int (unat h + (2 * s * s + s)) - int (unat h + (2 * t * t + t)) = (int s - int t) * (2 * (int s + int t) + 1)"
    by (simp add: algebra_simps)
  with mod_eq_int_dvd[OF assms(4)[unfolded probe_mod(2)[OF assms(1)]]]
  have "2 ^ j dvd (int s - int t) * (2 * (int s + int t) + 1)" by simp
  then show "(2 :: int) ^ j dvd int s - int t" by (rule mult_odd_dvd_power) simp
qed

lemma half_probe_inj:
  assumes "j \<le> 32" "s < 2 ^ j" "t < 2 ^ j" "QuadraticHalfProbe_Calc h s (2 ^ j) = QuadraticHalfProbe_Calc h t (2 ^ j)"
  shows "s = t"
proof -
  have b: "s < 2 ^ 32" "t < 2 ^ 32" using assms(1-3) power_increasing[of j 32 "2 :: nat"] by linarith+
  define x y where "x = int s - int t" and "y = int s + int t + 1"
  have "int (2 ^ j) dvd int (unat h + (s * s + s) div 2) - int (unat h + (t * t + t) div 2)"
    using assms b by (intro mod_eq_int_dvd) (simp add: probe_mod)
  then have "2 * 2 ^ j dvd 2 * (int ((s * s + s) div 2) - int ((t * t + t) div 2))" by (intro mult_dvd_mono) simp_all
  moreover have "2 * int ((n * n + n) div 2) = int (n * n + n)" for n
  proof -
    have "2 * ((n * n + n) div 2) = n * n + n" by (rule dvd_mult_div_cancel) simp
    then show ?thesis by (metis of_nat_mult of_nat_numeral)
  qed
  ultimately have d: "2 ^ Suc j dvd x * y" by (simp add: x_def y_def algebra_simps)
  have "odd x \<longleftrightarrow> even y" by (auto simp: x_def y_def)
  then have "2 ^ Suc j dvd x \<or> 2 ^ Suc j dvd y"
    using d mult_odd_dvd_power[of "Suc j" x y] mult_odd_dvd_power[of "Suc j" y x] by (auto simp: mult.commute)
  moreover have "\<bar>x\<bar> < 2 ^ Suc j" "\<bar>y\<bar> < 2 ^ Suc j" "0 < y"
    unfolding x_def y_def power_Suc using assms(2,3)[THEN int_less_power_2] by linarith+
  ultimately show "s = t" using small_dvd_zero[of "2 ^ Suc j"] by (fastforce simp: x_def)
qed

interpretation linear: probe_sequence LinearProbe_Calc
  by unfold_locales (simp add: probe_mod(1), rule linear_probe_inj)

interpretation quadratic: probe_sequence QuadraticProbe_Calc
  by unfold_locales (simp add: probe_mod(2), rule quadratic_probe_inj)

lemma half_probe_range: "j \<le> 32 \<Longrightarrow> QuadraticHalfProbe_Calc h s (2 ^ j) < 2 ^ j"
  unfolding QuadraticHalfProbe_Calc_def by (subst unat_mask_mod) simp_all

interpretation half: probe_sequence QuadraticHalfProbe_Calc
  by unfold_locales (rule half_probe_range, assumption, rule half_probe_inj)

subsection \<open>The map a table represents\<close>

definition live :: "('k, 'v) FlatHashMap \<Rightarrow> nat \<Rightarrow> bool" where
  "live m i \<longleftrightarrow> i < fcapacity m \<and> tags m ! i \<noteq> kFreeSlot \<and> tags m ! i \<noteq> kTombstone"

text \<open>Slot \<open>i\<close> is on the probe path of hash \<open>h\<close> at a step below \<open>n\<close>, with no free slot before it.\<close>

definition on_path :: "'k map_params \<Rightarrow> ('k, 'v) FlatHashMap \<Rightarrow> u64 \<Rightarrow> nat \<Rightarrow> nat \<Rightarrow> bool" where
  "on_path P m h n i \<longleftrightarrow> (\<exists>s < n. Probe P h s (fcapacity m) = i \<and> (\<forall>t < s. tags m ! Probe P h t (fcapacity m) \<noteq> kFreeSlot))"

definition hm_inv :: "'k map_params \<Rightarrow> ('k, 'v) FlatHashMap \<Rightarrow> bool" where
  "hm_inv P m \<longleftrightarrow>
     (fcapacity m = 0 \<or> (\<exists>j \<le> 32. fcapacity m = 2 ^ j))
     \<and> length (tags m) = fcapacity m \<and> length (keys m) = fcapacity m \<and> length (vals m) = fcapacity m
     \<and> load_limit m = min (fcapacity m * load_limit_percent m div 100) (fcapacity m)
     \<and> 0 < load_limit_percent m \<and> load_limit_percent m < 2 ^ 31
     \<and> fsize m \<le> load_limit m \<and> fsize m = card {i. live m i} \<and> max_probe_length m \<le> fcapacity m
     \<and> (AppendOnly P \<longrightarrow> (\<forall>i < fcapacity m. tags m ! i \<noteq> kTombstone))
     \<and> (\<forall>i. live m i \<longrightarrow> (\<exists>k v. keys m ! i = Some k \<and> vals m ! i = Some v \<and> tags m ! i = HashToTag (hasher P k)
            \<and> on_path P m (hasher P k) (max_probe_length m) i))
     \<and> (\<forall>i j. live m i \<longrightarrow> live m j \<longrightarrow> keys m ! i = keys m ! j \<longrightarrow> i = j)"

definition represents :: "'k map_params \<Rightarrow> ('k, 'v) FlatHashMap \<Rightarrow> ('k \<rightharpoonup> 'v) \<Rightarrow> bool" where
  "represents P m f \<longleftrightarrow> hm_inv P m
     \<and> (\<forall>k v. f k = Some v \<longleftrightarrow> (\<exists>i. live m i \<and> keys m ! i = Some k \<and> vals m ! i = Some v))"

lemma HashToTag_live: "HashToTag h \<noteq> kFreeSlot" "HashToTag h \<noteq> kTombstone"
proof -
  define t :: u8 where "t = ucast (drop_bit 56 h)"
  have "t + 2 \<noteq> 0" "t + 2 \<noteq> 1" if "t \<le> 1"
  proof -
    have "t = 0 \<or> t = 1" using that by (auto simp: word_le_nat_alt word_unat_eq_iff le_Suc_eq)
    then show "t + 2 \<noteq> 0" "t + 2 \<noteq> 1" by auto
  qed
  then show "HashToTag h \<noteq> kFreeSlot" "HashToTag h \<noteq> kTombstone"
    by (auto simp: HashToTag_def kFreeSlot_def kTombstone_def Let_def simp flip: t_def)
qed

lemma hm_liveE:
  assumes "hm_inv P m" "live m i"
  obtains k v where "keys m ! i = Some k" "vals m ! i = Some v" "tags m ! i = HashToTag (hasher P k)"
    "on_path P m (hasher P k) (max_probe_length m) i"
  using assms unfolding hm_inv_def by blast

lemma hm_inv_unique: "hm_inv P m \<Longrightarrow> live m i \<Longrightarrow> live m j \<Longrightarrow> keys m ! i = keys m ! j \<Longrightarrow> i = j"
  unfolding hm_inv_def by blast

lemma hm_inv_sizes:
  assumes "hm_inv P m"
  shows "length (tags m) = fcapacity m" "length (keys m) = fcapacity m" "length (vals m) = fcapacity m"
    "max_probe_length m \<le> fcapacity m" "fsize m \<le> load_limit m" "load_limit m \<le> fcapacity m" "fsize m = card {i. live m i}"
  using assms by (auto simp: hm_inv_def)

lemma finite_live [simp]: "finite {i. live m i}"
  by (rule finite_subset[of _ "{..<fcapacity m}"]) (auto simp: live_def)

lemma place_simps [simp]:
  "fcapacity (place P key w slot n m) = fcapacity m" "load_limit (place P key w slot n m) = load_limit m"
  "load_limit_percent (place P key w slot n m) = load_limit_percent m" "fsize (place P key w slot n m) = fsize m + 1"
  "max_probe_length (place P key w slot n m) = max (max_probe_length m) n"
  "length (tags (place P key w slot n m)) = length (tags m)" "length (keys (place P key w slot n m)) = length (keys m)"
  "length (vals (place P key w slot n m)) = length (vals m)"
  by (simp_all add: place_def)

lemma live_place:
  assumes "hm_inv P m" "slot < fcapacity m"
  shows "live (place P key w slot n m) i \<longleftrightarrow> live m i \<or> i = slot"
  using assms hm_inv_sizes[OF assms(1)] HashToTag_live by (auto simp: live_def place_def nth_list_update)

lemma on_path_place:
  assumes "hm_inv P m" "slot < fcapacity m" "on_path P m h k i" "k \<le> k'"
  shows "on_path P (place P key w slot n m) h k' i"
proof -
  obtain s where s: "s < k" "Probe P h s (fcapacity m) = i" "\<forall>t < s. tags m ! Probe P h t (fcapacity m) \<noteq> kFreeSlot"
    using assms(3) by (auto simp: on_path_def)
  have "(tags m)[slot := HashToTag (hasher P key)] ! j \<noteq> kFreeSlot" if "tags m ! j \<noteq> kFreeSlot" for j
    using that HashToTag_live assms(2) hm_inv_sizes(1)[OF assms(1)] by (cases "j = slot") auto
  then show ?thesis using s assms(4) unfolding on_path_def place_def by (intro exI[of _ s]) auto
qed

lemma place_correct:
  assumes "represents P m f" "f key = None" "slot < fcapacity m" "\<not> live m slot" "on_path P m (hasher P key) n slot"
    and "n \<le> fcapacity m" "fsize m < load_limit m"
  shows "represents P (place P key w slot n m) (f(key \<mapsto> w))"
proof -
  let ?m = "place P key w slot n m"
  have inv: "hm_inv P m" using assms(1) by (simp add: represents_def)
  note sz = hm_inv_sizes[OF inv] and lv = live_place[OF inv assms(3), of key w n]
  have nokey: "keys m ! i \<noteq> Some key" if l: "live m i" for i
  proof
    assume k: "keys m ! i = Some key"
    obtain v where "vals m ! i = Some v" using hm_liveE[OF inv l] by metis
    then have "f key = Some v" using assms(1) k l by (auto simp: represents_def)
    then show False using assms(2) by simp
  qed
  have new: "keys ?m ! slot = Some key" "vals ?m ! slot = Some w" "tags ?m ! slot = HashToTag (hasher P key)"
    using assms(3) sz by (simp_all add: place_def)
  have old: "keys ?m ! i = keys m ! i" "vals ?m ! i = vals m ! i" "tags ?m ! i = tags m ! i" if "i \<noteq> slot" for i
    using that by (simp_all add: place_def)
  have ns: "i \<noteq> slot" if "live m i" for i using that assms(4) by blast
  have set: "{i. live ?m i} = insert slot {i. live m i}" using lv by auto
  have "fsize ?m = card {i. live ?m i}" using set sz(7) assms(4) by (simp add: place_def)
  moreover have "\<exists>k v. keys ?m ! i = Some k \<and> vals ?m ! i = Some v \<and> tags ?m ! i = HashToTag (hasher P k)
        \<and> on_path P ?m (hasher P k) (max_probe_length ?m) i" if l: "live ?m i" for i
  proof (cases "i = slot")
    case True
    then show ?thesis using new on_path_place[OF inv assms(3,5), of "max_probe_length ?m" key w n] by simp
  next
    case False
    then have "live m i" using l lv by simp
    from hm_liveE[OF inv this] obtain k v where "keys m ! i = Some k" "vals m ! i = Some v" "tags m ! i = HashToTag (hasher P k)"
      "on_path P m (hasher P k) (max_probe_length m) i" by metis
    then show ?thesis
      using old[OF False] on_path_place[OF inv assms(3), of "hasher P k" "max_probe_length m" i "max_probe_length ?m" key w n] by simp
  qed
  moreover have "i = j" if "live ?m i" "live ?m j" "keys ?m ! i = keys ?m ! j" for i j
    using that lv nokey hm_inv_unique[OF inv, of i j] new(1) old(1) by metis
  moreover have "tags ?m ! i \<noteq> kTombstone" if "AppendOnly P" "i < fcapacity m" for i
  proof -
    have "tags m ! i \<noteq> kTombstone" using inv that unfolding hm_inv_def by blast
    then show ?thesis using new(3) old(3)[of i] HashToTag_live(2) by (cases "i = slot") simp_all
  qed
  ultimately have "hm_inv P ?m"
    using inv assms(6,7) unfolding hm_inv_def place_simps by simp
  moreover have "(f(key \<mapsto> w)) k = Some v \<longleftrightarrow> (\<exists>i. live ?m i \<and> keys ?m ! i = Some k \<and> vals ?m ! i = Some v)" for k v
  proof (cases "k = key")
    case True
    then show ?thesis using lv new old(1) nokey ns by (metis fun_upd_same option.inject)
  next
    case False
    then have "f k = Some v \<longleftrightarrow> (\<exists>i. live m i \<and> keys m ! i = Some k \<and> vals m ! i = Some v)"
      using assms(1) by (simp add: represents_def)
    then show ?thesis using False lv new(1) old ns by (metis fun_upd_other option.inject)
  qed
  ultimately show ?thesis by (simp add: represents_def)
qed

lemma Reset_map_correct:
  assumes "n = 0 \<or> (\<exists>j \<le> 32. n = 2 ^ j)" "0 < load_limit_percent m" "load_limit_percent m < 2 ^ 31"
  shows "represents P (Reset_map n m) Map.empty"
proof -
  have "n \<le> 2 ^ 32" using assms(1) power_increasing[of _ 32 "2 :: nat"] by auto
  then have "n * load_limit_percent m \<le> 2 ^ 32 * 2 ^ 31" using assms(3) by (intro mult_mono) auto
  then have "n * load_limit_percent m mod 2 ^ 64 = n * load_limit_percent m" by simp
  moreover have "\<not> live (Reset_map n m) i" for i by (simp add: live_def Reset_map_def)
  ultimately show ?thesis
    using assms by (auto simp: represents_def hm_inv_def Reset_map_def kFreeSlot_def kTombstone_def)
qed

lemma max_power_2: "max (2 ^ a) (2 ^ b) = (2 :: nat) ^ max a b"
  by (simp add: max_def)

lemma grown_capacity_ok:
  assumes "c = 0 \<or> (\<exists>j \<le> 31. c = 2 ^ j)" "0 < entry_size P" "entry_size P < 2 ^ 32"
  shows "\<exists>j \<le> 32. grown_capacity P True c = 2 ^ j" "1024 \<le> grown_capacity P True c" "2 * c \<le> grown_capacity P True c"
    "grown_capacity P True c \<le> max (2 ^ 23) (2 * c)"
proof -
  have "\<exists>j \<le> 32. grown_capacity P True c = 2 ^ j \<and> 10 \<le> j \<and> 2 * c \<le> 2 ^ j \<and> (2 ^ j \<le> (2 :: nat) ^ 23 \<or> 2 ^ j = 2 * c)"
  proof (cases "c = 0")
    case True
    then show ?thesis by (intro exI[of _ 10]) (simp add: grown_capacity_def)
  next
    case False
    then obtain j where j: "j \<le> 31" "c = 2 ^ j" using assms(1) by auto
    have "c \<le> 2 ^ 31" using j power_increasing[of j 31 "2 :: nat"] by simp
    then have "c * entry_size P \<le> 2 ^ 31 * 2 ^ 32" using assms(3) by (intro mult_mono) auto
    then have nw: "c * entry_size P mod 2 ^ 64 = c * entry_size P" by simp
    show ?thesis
    proof (cases "c * entry_size P < 1024 * 1024")
      case True
      have "c * 1 \<le> c * entry_size P" using assms(2) by (intro mult_le_mono2) simp
      then have "c < 1024 * 1024" using True by linarith
      then have "(2 :: nat) ^ j < 2 ^ 20" using j(2) by simp
      then have j20: "j < 20" by (rule power_less_imp_less_exp[rotated]) simp
      have "c * 8 = 2 ^ (j + 3)" using j by (simp add: power_add)
      moreover have "(2 :: nat) ^ (j + 3) < 2 ^ 64" using j20 by (intro power_strict_increasing) auto
      ultimately have "grown_capacity P True c = 2 ^ max (j + 3) 10"
        using True nw max_power_2[of "j + 3" 10] by (simp add: grown_capacity_def Let_def)
      moreover have "(2 :: nat) ^ max (j + 3) 10 \<le> 2 ^ 23" using j20 by (intro power_increasing) auto
      moreover have "2 * c \<le> 2 ^ max (j + 3) 10"
        using j(2) power_increasing[of "Suc j" "max (j + 3) 10" "2 :: nat"] by simp
      ultimately show ?thesis using j20 by (intro exI[of _ "max (j + 3) 10"]) auto
    next
      case False
      have "(2 :: nat) ^ Suc j < 2 ^ 64" using j by (intro power_strict_increasing) auto
      then have g: "grown_capacity P True c = 2 ^ max (Suc j) 10"
        using False nw j(2) max_power_2[of "Suc j" 10] by (simp add: grown_capacity_def Let_def mult.commute)
      show ?thesis
      proof (cases "Suc j \<le> 10")
        case True
        then show ?thesis using g j(2) power_increasing[of "Suc j" 10 "2 :: nat"] by (intro exI[of _ 10]) (auto simp: max_def)
      next
        case F: False
        then show ?thesis using g j by (intro exI[of _ "Suc j"]) auto
      qed
    qed
  qed
  then show "\<exists>j \<le> 32. grown_capacity P True c = 2 ^ j" "1024 \<le> grown_capacity P True c" "2 * c \<le> grown_capacity P True c"
    "grown_capacity P True c \<le> max (2 ^ 23) (2 * c)"
    using power_increasing[of 10 _ "2 :: nat"] by fastforce+
qed

lemma live_EraseInternal:
  assumes "hm_inv P m" "idx < fcapacity m"
  shows "live (EraseInternal idx m) i \<longleftrightarrow> live m i \<and> i \<noteq> idx"
  using assms hm_inv_sizes(1)[OF assms(1)] by (auto simp: live_def EraseInternal_def nth_list_update)

lemma EraseInternal_correct:
  assumes "represents P m f" "\<not> AppendOnly P" "live m idx" "keys m ! idx = Some key"
  shows "represents P (EraseInternal idx m) (f(key := None))"
proof -
  let ?m = "EraseInternal idx m"
  have inv: "hm_inv P m" using assms(1) by (simp add: represents_def)
  have idx: "idx < fcapacity m" using assms(3) by (simp add: live_def)
  note sz = hm_inv_sizes[OF inv] and lv = live_EraseInternal[OF inv idx]
  have old: "keys ?m ! i = keys m ! i" "vals ?m ! i = vals m ! i" "tags ?m ! i = tags m ! i" if "i \<noteq> idx" for i
    using that by (simp_all add: EraseInternal_def)
  have fields: "fcapacity ?m = fcapacity m" "load_limit ?m = load_limit m" "load_limit_percent ?m = load_limit_percent m"
    "fsize ?m = fsize m - 1" "max_probe_length ?m = max_probe_length m" "length (tags ?m) = fcapacity m"
    "length (keys ?m) = fcapacity m" "length (vals ?m) = fcapacity m" using sz by (simp_all add: EraseInternal_def)
  have nf: "tags ?m ! j \<noteq> kFreeSlot" if "tags m ! j \<noteq> kFreeSlot" for j
    using that idx sz(1) by (cases "j = idx") (auto simp: EraseInternal_def kFreeSlot_def kTombstone_def)
  have path: "on_path P ?m h n i" if "on_path P m h n i" for h n i
    using that nf fields(1) unfolding on_path_def by metis
  have "{i. live ?m i} = {i. live m i} - {idx}" using lv by auto
  then have card: "fsize ?m = card {i. live ?m i}" using sz(7) assms(3) by (simp add: fields card_Diff_singleton)
  have kv: "\<exists>k v. keys ?m ! i = Some k \<and> vals ?m ! i = Some v \<and> tags ?m ! i = HashToTag (hasher P k)
        \<and> on_path P ?m (hasher P k) (max_probe_length ?m) i" if l: "live ?m i" for i
    using hm_liveE[OF inv, of i] lv[of i] l old[of i] path fields(5) by metis
  have uniq: "i = j" if "live ?m i" "live ?m j" "keys ?m ! i = keys ?m ! j" for i j
    using that lv old(1) hm_inv_unique[OF inv, of i j] by metis
  have "fsize ?m \<le> load_limit m" using sz(5) fields(4) by simp
  then have "hm_inv P ?m"
    using inv assms(2) card kv uniq unfolding hm_inv_def fields(1-3,5-8) by simp
  moreover have "(f(key := None)) k = Some v \<longleftrightarrow> (\<exists>i. live ?m i \<and> keys ?m ! i = Some k \<and> vals ?m ! i = Some v)" for k v
  proof (cases "k = key")
    case True
    have "keys ?m ! i \<noteq> Some key" if "live ?m i" for i
      using that lv[of i] old(1)[of i] hm_inv_unique[OF inv _ assms(3), of i] assms(4) by auto
    then show ?thesis using True by auto
  next
    case False
    then have "f k = Some v \<longleftrightarrow> (\<exists>i. live m i \<and> keys m ! i = Some k \<and> vals m ! i = Some v)"
      using assms(1) by (simp add: represents_def)
    then show ?thesis using False lv old assms(4) by (metis fun_upd_other option.inject)
  qed
  ultimately show ?thesis by (simp add: represents_def)
qed

lemma fold_erase_live:
  assumes "length (tags m) = fcapacity m"
  shows "n \<le> fcapacity m \<Longrightarrow> fcapacity (fold erase_live [0..<n] m) = fcapacity m
    \<and> load_limit_percent (fold erase_live [0..<n] m) = load_limit_percent m
    \<and> length (tags (fold erase_live [0..<n] m)) = fcapacity m \<and> (\<forall>i < n. \<not> live (fold erase_live [0..<n] m) i)"
proof (induction n)
  case (Suc n)
  then show ?case by (auto simp: erase_live_def EraseInternal_def live_def less_Suc_eq nth_list_update)
qed (use assms in simp)

lemma reinsert_none:
  assumes "\<And>i. \<not> live old i"
  shows "reinsert ins old i n m = Some (n, m)"
proof (induction "fcapacity old - i" arbitrary: i)
  case 0
  then show ?case by (subst reinsert.simps) simp
next
  case (Suc d)
  then have "i < fcapacity old" "d = fcapacity old - (i + 1)" by simp_all
  then show ?case using Suc.hyps(1)[of "i + 1"] assms[of i] by (subst reinsert.simps) (auto simp: live_def)
qed

lemma Clear_map_correct:
  assumes "represents P m f"
  shows "\<exists>m'. Clear_map P m = Some m' \<and> represents P m' Map.empty \<and> fcapacity m' = fcapacity m \<and> load_limit_percent m' = load_limit_percent m"
proof (cases "fcapacity m = 0")
  case True
  have "f = Map.empty"
  proof
    fix k show "f k = None" using assms True by (cases "f k") (auto simp: represents_def live_def)
  qed
  then show ?thesis using True assms by (simp add: Clear_map_def)
next
  case False
  have inv: "hm_inv P m" using assms by (simp add: represents_def)
  let ?m = "fold erase_live [0..<fcapacity m] m"
  have f: "fcapacity ?m = fcapacity m" "load_limit_percent ?m = load_limit_percent m" "\<And>i. i < fcapacity m \<Longrightarrow> \<not> live ?m i"
    using fold_erase_live[OF hm_inv_sizes(1)[OF inv] order_refl] by simp_all
  have "\<not> live ?m i" for i using f(1) f(3)[of i] by (auto simp: live_def)
  then have "Clear_map P m = Some ((Reset_map (fcapacity m) ?m)\<lparr>fsize := 0\<rparr>)"
    using False by (simp add: Clear_map_def MaybeGrowAndRehash_def rehash_with_def grown_capacity_def f(1) reinsert_none Let_def)
  moreover have "(Reset_map (fcapacity m) ?m)\<lparr>fsize := 0\<rparr> = Reset_map (fcapacity m) ?m" by (simp add: Reset_map_def)
  moreover have "represents P (Reset_map (fcapacity m) ?m) Map.empty"
    using inv f(2) by (intro Reset_map_correct) (auto simp: hm_inv_def)
  moreover have "fcapacity (Reset_map (fcapacity m) ?m) = fcapacity m" "load_limit_percent (Reset_map (fcapacity m) ?m) = load_limit_percent m"
    using f(2) by (simp_all add: Reset_map_def)
  ultimately show ?thesis by metis
qed

lemma iterate_correct:
  assumes "represents P m f"
  shows "set (iterate P m i) = {(keys m ! j, vals m ! j) | j. live m j \<and> i \<le> j} \<and> length (iterate P m i) = card {j. live m j \<and> i \<le> j}"
proof -
  have inv: "hm_inv P m" using assms by (simp add: represents_def)
  have nf: "tags m ! j \<noteq> kFreeSlot \<and> (AppendOnly P \<or> tags m ! j \<noteq> kTombstone) \<longleftrightarrow> live m j" if "j < fcapacity m" for j
    using that inv by (auto simp: live_def hm_inv_def)
  have nxt: "(case FindNextNonFree P m i of None \<Rightarrow> \<forall>j. live m j \<longrightarrow> j < i
      | Some j \<Rightarrow> live m j \<and> i \<le> j \<and> (\<forall>k. live m k \<longrightarrow> i \<le> k \<longrightarrow> j \<le> k))" for i
  proof (induction "fcapacity m - i" arbitrary: i)
    case 0
    then show ?case by (subst FindNextNonFree.simps) (auto simp: live_def)
  next
    case (Suc d)
    then have i: "i < fcapacity m" "d = fcapacity m - (i + 1)" by simp_all
    show ?case
    proof (cases "live m i")
      case True
      then show ?thesis using i nf[of i] by (subst FindNextNonFree.simps) simp
    next
      case False
      then have "FindNextNonFree P m i = FindNextNonFree P m (i + 1)" using i nf[of i] by (subst FindNextNonFree.simps) auto
      moreover have "live m k \<Longrightarrow> i \<le> k \<longleftrightarrow> i + 1 \<le> k" for k using False by (auto simp: Suc_le_eq le_less)
      ultimately show ?thesis using Suc.hyps(1)[OF i(2)] False by (auto split: option.splits simp: less_Suc_eq)
    qed
  qed
  show ?thesis
  proof (induction "fcapacity m - i" arbitrary: i rule: less_induct)
    case less
    show ?case
    proof (cases "FindNextNonFree P m i")
      case None
      then have "{j. live m j \<and> i \<le> j} = {}" using nxt[of i] by auto
      then show ?thesis using None by (subst (1 2) iterate.simps) auto
    next
      case (Some j)
      then have j: "live m j" "i \<le> j" "\<And>k. live m k \<Longrightarrow> i \<le> k \<Longrightarrow> j \<le> k" using nxt[of i] by auto
      have "k = j \<or> j + 1 \<le> k" if "live m k" "i \<le> k" for k using j(3)[OF that] by linarith
      then have S: "{k. live m k \<and> i \<le> k} = insert j {k. live m k \<and> j + 1 \<le> k}" using j(1,2) by auto
      have fin: "finite {k. live m k \<and> j + 1 \<le> k}" by (rule finite_subset[OF _ finite_live[of m]]) auto
      have "fcapacity m - (j + 1) < fcapacity m - i" using j(1,2) by (auto simp: live_def)
      from less[OF this] S fin show ?thesis using Some by (subst (1 2) iterate.simps) (auto simp: Suc_le_eq)
    qed
  qed
qed

subsection \<open>Sequences of operations\<close>

datatype ('k, 'v) map_op = InsertOp 'k 'v | EraseOp 'k | ClearOp

fun run_map_op :: "'k map_params \<Rightarrow> ('k, 'v) map_op \<Rightarrow> ('k, 'v) FlatHashMap \<Rightarrow> ('k, 'v) FlatHashMap option" where
  "run_map_op P (InsertOp k v) m = map_option snd (Insert 2 P k v m)"
| "run_map_op P (EraseOp k) m = map_option snd (Erase P k m)"
| "run_map_op P ClearOp m = Clear_map P m"

fun run_map_ops :: "'k map_params \<Rightarrow> ('k, 'v) map_op list \<Rightarrow> ('k, 'v) FlatHashMap \<Rightarrow> ('k, 'v) FlatHashMap option" where
  "run_map_ops P [] m = Some m"
| "run_map_ops P (op # ops) m = do { m \<leftarrow> run_map_op P op m; run_map_ops P ops m }"

fun map_spec :: "('k, 'v) map_op \<Rightarrow> ('k \<rightharpoonup> 'v) \<Rightarrow> ('k \<rightharpoonup> 'v)" where
  "map_spec (InsertOp k v) f = (if f k = None then f(k \<mapsto> v) else f)"
| "map_spec (EraseOp k) f = f(k := None)"
| "map_spec ClearOp f = Map.empty"

definition params_ok :: "'k map_params \<Rightarrow> bool" where
  "params_ok P \<longleftrightarrow> Probe P \<in> {LinearProbe_Calc, QuadraticProbe_Calc, QuadraticHalfProbe_Calc}
     \<and> 0 < entry_size P \<and> entry_size P < 2 ^ 32"

definition op_allowed :: "'k map_params \<Rightarrow> ('k, 'v) map_op \<Rightarrow> bool" where
  "op_allowed P op \<longleftrightarrow> (case op of EraseOp k \<Rightarrow> \<not> AppendOnly P | _ \<Rightarrow> True)"

definition small_map :: "nat \<Rightarrow> ('k, 'v) FlatHashMap \<Rightarrow> bool" where
  "small_map n m \<longleftrightarrow> fcapacity m \<le> max (2 ^ 23) (4 * (n + 1)) \<and> fsize m \<le> n \<and> load_limit_percent m = 75"

lemma represents_dom:
  assumes "represents P m f"
  shows "finite (dom f)" "fsize m = card (dom f)"
proof -
  have inv: "hm_inv P m" using assms by (simp add: represents_def)
  have "dom f = (\<lambda>i. the (keys m ! i)) ` {i. live m i}"
  proof
    show "dom f \<subseteq> (\<lambda>i. the (keys m ! i)) ` {i. live m i}" using assms by (force simp: represents_def)
    show "(\<lambda>i. the (keys m ! i)) ` {i. live m i} \<subseteq> dom f"
    proof
      fix k
      assume "k \<in> (\<lambda>i. the (keys m ! i)) ` {i. live m i}"
      then obtain i where "live m i" "k = the (keys m ! i)" by blast
      with hm_liveE[OF inv this(1)] show "k \<in> dom f" using assms by (fastforce simp: represents_def)
    qed
  qed
  moreover have "inj_on (\<lambda>i. the (keys m ! i)) {i. live m i}"
    using hm_liveE[OF inv] hm_inv_unique[OF inv] by (intro inj_onI) (metis mem_Collect_eq option.sel)
  ultimately show "finite (dom f)" "fsize m = card (dom f)" using hm_inv_sizes(7)[OF inv] by (simp_all add: card_image)
qed

lemma new_map_represents: "represents P (new_FlatHashMap 0 75) Map.empty" "small_map 0 (new_FlatHashMap 0 75)"
  by (auto simp: represents_def hm_inv_def new_FlatHashMap_def live_def small_map_def Let_def)

context probe_sequence
begin

lemma key_path:
  assumes "hm_inv P m" "Probe P = calc" "live m i" "keys m ! i = Some key"
  obtains s where "s < max_probe_length m" "calc (hasher P key) s (fcapacity m) = i"
    "\<forall>t < s. tags m ! calc (hasher P key) t (fcapacity m) \<noteq> kFreeSlot"
  using hm_liveE[OF assms(1,3)] assms(2,4) by (auto simp: on_path_def)

lemma calc_slot:
  assumes "hm_inv P m" "s < fcapacity m"
  shows "calc h s (fcapacity m) < fcapacity m"
  using assms calc_range unfolding hm_inv_def by auto

lemma find_loop_map_spec:
  assumes "hm_inv P m" "Probe P = calc" "n \<le> max_probe_length m"
    and "\<forall>s < n. \<not> (live m (calc (hasher P key) s (fcapacity m)) \<and> keys m ! calc (hasher P key) s (fcapacity m) = Some key)"
  shows "case find_loop_map P m key n of
      Some i \<Rightarrow> live m i \<and> keys m ! i = Some key
    | None \<Rightarrow> \<forall>i. live m i \<longrightarrow> keys m ! i \<noteq> Some key"
  using assms(3-)
proof (induction "max_probe_length m - n" arbitrary: n)
  case 0
  then have n: "n = max_probe_length m" by simp
  have "keys m ! i \<noteq> Some key" if l: "live m i" for i
  proof
    assume "keys m ! i = Some key"
    then obtain s where "s < max_probe_length m" "calc (hasher P key) s (fcapacity m) = i"
      using key_path[OF assms(1,2) l] by blast
    then show False using "0.prems"(2) n l \<open>keys m ! i = Some key\<close> by blast
  qed
  then show ?case using n by (simp add: find_loop_map.simps)
next
  case (Suc d)
  let ?i = "calc (hasher P key) n (fcapacity m)"
  have n: "n < max_probe_length m" using Suc.hyps(2) by simp
  have cap: "?i < fcapacity m" using calc_slot[OF assms(1)] hm_inv_sizes(4)[OF assms(1)] n by simp
  have u: "find_loop_map P m key n = (if tags m ! ?i = kFreeSlot then None
      else if tags m ! ?i = HashToTag (hasher P key) \<and> keys m ! ?i = Some key then Some ?i else find_loop_map P m key (n + 1))"
    using n assms(2) by (subst find_loop_map.simps) (simp add: Let_def)
  consider "tags m ! ?i = kFreeSlot" | "tags m ! ?i \<noteq> kFreeSlot" "tags m ! ?i = HashToTag (hasher P key)" "keys m ! ?i = Some key"
    | "tags m ! ?i \<noteq> kFreeSlot" "\<not> (tags m ! ?i = HashToTag (hasher P key) \<and> keys m ! ?i = Some key)" by blast
  then show ?case
  proof cases
    case 1
    have "keys m ! i \<noteq> Some key" if l: "live m i" for i
    proof
      assume k: "keys m ! i = Some key"
      then obtain s where s: "calc (hasher P key) s (fcapacity m) = i" "\<forall>t < s. tags m ! calc (hasher P key) t (fcapacity m) \<noteq> kFreeSlot"
        using key_path[OF assms(1,2) l] by blast
      then have "\<not> n < s" using 1 by blast
      moreover have "s \<noteq> n" using 1 s(1) l by (auto simp: live_def)
      ultimately have "s < n" by simp
      then show False using Suc.prems(2) s(1) l k by blast
    qed
    then show ?thesis using u 1 by simp
  next
    case 2
    then show ?thesis using u cap HashToTag_live by (simp add: live_def)
  next
    case 3
    have "\<not> (live m ?i \<and> keys m ! ?i = Some key)" using 3 hm_liveE[OF assms(1)] by (metis option.inject)
    then have "\<forall>s < n + 1. \<not> (live m (calc (hasher P key) s (fcapacity m)) \<and> keys m ! calc (hasher P key) s (fcapacity m) = Some key)"
      using Suc.prems(2) by (auto simp: less_Suc_eq)
    moreover have "d = max_probe_length m - (n + 1)" "n + 1 \<le> max_probe_length m" using Suc.hyps(2) n by simp_all
    ultimately have "case find_loop_map P m key (n + 1) of
        Some i \<Rightarrow> live m i \<and> keys m ! i = Some key | None \<Rightarrow> \<forall>i. live m i \<longrightarrow> keys m ! i \<noteq> Some key"
      by (intro Suc.hyps(1))
    moreover have "find_loop_map P m key n = find_loop_map P m key (n + 1)" using u 3 by simp
    ultimately show ?thesis by simp
  qed
qed

lemma Find_correct:
  assumes "represents P m f" "Probe P = calc"
  shows "Find P key m = f key"
proof -
  have inv: "hm_inv P m" using assms(1) by (simp add: represents_def)
  show ?thesis
  proof (cases "FindInternal P key m")
    case None
    then have "\<forall>i. live m i \<longrightarrow> keys m ! i \<noteq> Some key" using find_loop_map_spec[OF inv assms(2), of 0 key] by (simp add: FindInternal_def)
    then show ?thesis using None assms(1) by (cases "f key") (auto simp: Find_def represents_def)
  next
    case (Some i)
    then have i: "live m i" "keys m ! i = Some key" using find_loop_map_spec[OF inv assms(2), of 0 key] by (simp_all add: FindInternal_def)
    then obtain v where v: "vals m ! i = Some v" using hm_liveE[OF inv] by metis
    then have "f key = Some v" using i assms(1) by (auto simp: represents_def)
    then show ?thesis using Some v by (simp add: Find_def)
  qed
qed

text \<open>What the probing loop of \<^verbatim>\<open>Insert\<close> knows before step \<open>n\<close>.\<close>

lemma probe_loop_spec:
  assumes "hm_inv P m" "Probe P = calc" "n \<le> fcapacity m"
    and "\<forall>s < n. tags m ! calc (hasher P key) s (fcapacity m) \<noteq> kFreeSlot
       \<and> \<not> (live m (calc (hasher P key) s (fcapacity m)) \<and> keys m ! calc (hasher P key) s (fcapacity m) = Some key)"
    and "case slot of Some i \<Rightarrow> i < fcapacity m \<and> tags m ! i = kTombstone \<and> on_path P m (hasher P key) n i
       | None \<Rightarrow> \<forall>s < n. tags m ! calc (hasher P key) s (fcapacity m) \<noteq> kTombstone"
  shows "case probe_loop P m key slot n of
      KeyAt i \<Rightarrow> live m i \<and> keys m ! i = Some key
    | NoKey slot' n' \<Rightarrow> (\<forall>i. live m i \<longrightarrow> keys m ! i \<noteq> Some key) \<and> n' \<le> fcapacity m
        \<and> (case slot' of Some i \<Rightarrow> i < fcapacity m \<and> \<not> live m i \<and> on_path P m (hasher P key) n' i
             | None \<Rightarrow> \<forall>i < fcapacity m. live m i)"
  using assms(3-)
proof (induction "fcapacity m - n" arbitrary: n slot)
  case 0
  then have n: "n = fcapacity m" by simp
  have hit: "\<exists>s < n. calc (hasher P key) s (fcapacity m) = i" if i: "i < fcapacity m" for i
  proof -
    obtain j where "j \<le> 32" "fcapacity m = 2 ^ j" using assms(1) i unfolding hm_inv_def by auto
    then show ?thesis using calc_surj[of j i "hasher P key"] i n by simp
  qed
  have "keys m ! i \<noteq> Some key" if "live m i" for i using hit[of i] "0.prems"(2) that by (auto simp: live_def)
  moreover have "\<forall>i < fcapacity m. live m i" if "slot = None" using hit "0.prems"(2,3) that by (auto simp: live_def)
  moreover have "probe_loop P m key slot n = NoKey slot n" using n by (subst probe_loop.simps) simp
  ultimately show ?case using n "0.prems"(3) by (auto simp: live_def split: option.splits)
next
  case (Suc d)
  let ?c = "\<lambda>s. calc (hasher P key) s (fcapacity m)"
  let ?i = "?c n"
  have n: "n < fcapacity m" "d = fcapacity m - (n + 1)" using Suc.hyps(2) by simp_all
  have cap: "?i < fcapacity m" by (rule calc_slot[OF assms(1) n(1)])
  have path: "on_path P m (hasher P key) (n + 1) ?i" using Suc.prems(2) assms(2) by (auto simp: on_path_def)
  have mono: "on_path P m (hasher P key) (n + 1) i" if "on_path P m (hasher P key) n i" for i
    using that by (auto simp: on_path_def intro: less_SucI)
  have u: "probe_loop P m key slot n =
     (if tags m ! ?i = kFreeSlot then NoKey (if AppendOnly P \<or> slot = None then Some ?i else slot) (n + 1)
      else if \<not> AppendOnly P \<and> tags m ! ?i = kTombstone then probe_loop P m key (Some ?i) (n + 1)
      else if tags m ! ?i = HashToTag (hasher P key) \<and> keys m ! ?i = Some key then KeyAt ?i
      else probe_loop P m key slot (n + 1))"
    using n(1) assms(2) by (subst probe_loop.simps) (simp add: Let_def)
  show ?case
  proof (cases "tags m ! ?i = kFreeSlot")
    case True
    have "keys m ! i \<noteq> Some key" if l: "live m i" for i
    proof
      assume k: "keys m ! i = Some key"
      then obtain s where s: "?c s = i" "\<forall>t < s. tags m ! ?c t \<noteq> kFreeSlot" using key_path[OF assms(1,2) l] by blast
      then have "\<not> n < s" "s \<noteq> n" using True l by (auto simp: live_def)
      then have "s < n" by simp
      then show False using Suc.prems(2) s(1) l k by blast
    qed
    then show ?thesis
      using u True cap path n(1) Suc.prems(3) mono by (auto simp: live_def split: option.splits)
  next
    case nf: False
    note IH = Suc.hyps(1)[OF n(2)]
    show ?thesis
    proof (cases "tags m ! ?i = HashToTag (hasher P key) \<and> keys m ! ?i = Some key")
      case True
      then show ?thesis using u nf HashToTag_live[of "hasher P key"] cap by (auto simp: live_def)
    next
      case nk: False
      have "\<not> (live m ?i \<and> keys m ! ?i = Some key)" using nk hm_liveE[OF assms(1)] by (metis option.inject)
      then have a: "\<forall>s < n + 1. tags m ! ?c s \<noteq> kFreeSlot \<and> \<not> (live m (?c s) \<and> keys m ! ?c s = Some key)"
        using Suc.prems(2) nf by (auto simp: less_Suc_eq)
      show ?thesis
      proof (cases "tags m ! ?i = kTombstone")
        case True
        then have "\<not> AppendOnly P" using assms(1) cap unfolding hm_inv_def by blast
        then show ?thesis using IH[of "Some ?i"] a n(1) cap True path u nf by simp
      next
        case nt: False
        then have "case slot of Some i \<Rightarrow> i < fcapacity m \<and> tags m ! i = kTombstone \<and> on_path P m (hasher P key) (n + 1) i
            | None \<Rightarrow> \<forall>s < n + 1. tags m ! ?c s \<noteq> kTombstone"
          using Suc.prems(3) mono by (auto simp: less_Suc_eq split: option.splits)
        then show ?thesis using IH[of slot] a n(1) u nf nk nt by auto
      qed
    qed
  qed
qed

lemma Insert_no_grow:
  assumes "represents P m f" "Probe P = calc" "f key \<noteq> None \<or> fsize m < load_limit m"
  shows "\<exists>idx m'. Insert (Suc fuel) P key w m = Some ((idx, f key = None), m')
     \<and> represents P m' (if f key = None then f(key \<mapsto> w) else f)
     \<and> vals m' ! idx = Some (if f key = None then w else the (f key))
     \<and> fcapacity m' = fcapacity m \<and> load_limit m' = load_limit m \<and> load_limit_percent m' = load_limit_percent m
     \<and> fsize m' = (if f key = None then fsize m + 1 else fsize m)"
proof -
  have inv: "hm_inv P m" using assms(1) by (simp add: represents_def)
  note spec = probe_loop_spec[OF inv assms(2), of 0 key None]
  show ?thesis
  proof (cases "probe_loop P m key None 0")
    case (KeyAt i)
    then have i: "live m i" "keys m ! i = Some key" using spec by simp_all
    then obtain v where v: "vals m ! i = Some v" using hm_liveE[OF inv] by metis
    then have "f key = Some v" using assms(1) i by (auto simp: represents_def)
    then show ?thesis using KeyAt v assms(1) by simp
  next
    case (NoKey slot n)
    then have nk: "\<forall>i. live m i \<longrightarrow> keys m ! i \<noteq> Some key" and n: "n \<le> fcapacity m" and
      sl: "case slot of Some i \<Rightarrow> i < fcapacity m \<and> \<not> live m i \<and> on_path P m (hasher P key) n i | None \<Rightarrow> \<forall>i < fcapacity m. live m i"
      using spec by simp_all
    then have fn: "f key = None" using assms(1) by (cases "f key") (auto simp: represents_def)
    then have lt: "fsize m < load_limit m" using assms(3) by simp
    show ?thesis
    proof (cases slot)
      case None
      then have "{i. live m i} = {..<fcapacity m}" using sl by (auto simp: live_def)
      then have "fsize m = fcapacity m" using hm_inv_sizes(7)[OF inv] by simp
      then show ?thesis using lt hm_inv_sizes(6)[OF inv] by simp
    next
      case (Some i)
      then have i: "i < fcapacity m" "\<not> live m i" "on_path P m (hasher P key) n i" using sl by simp_all
      have "vals (place P key w i n m) ! i = Some w" using i(1) hm_inv_sizes(3)[OF inv] by (simp add: place_def)
      then show ?thesis
        using NoKey Some i(1) lt fn place_correct[OF assms(1) fn i n lt, of w] by simp
    qed
  qed
qed

text \<open>The entries of the slots before \<open>i\<close>.\<close>

lemma reinsert_correct:
  assumes "represents P old f" "Probe P = calc" "i \<le> fcapacity old" "represents P m g"
    and "\<And>k. g k = (if \<exists>j < i. live old j \<and> keys old ! j = Some k then f k else None)"
    and "fsize m = card {j. live old j \<and> j < i}" "card {j. live old j} \<le> load_limit m" "n = fsize m"
  shows "\<exists>m'. reinsert (Insert (Suc fuel) P) old i n m = Some (fsize m', m') \<and> represents P m' f
     \<and> fcapacity m' = fcapacity m \<and> load_limit m' = load_limit m \<and> load_limit_percent m' = load_limit_percent m
     \<and> fsize m' = card {j. live old j}"
  using assms(3-)
proof (induction "fcapacity old - i" arbitrary: i n m g)
  case 0
  have inv: "hm_inv P old" using assms(1) by (simp add: represents_def)
  have i: "i = fcapacity old" using 0 by simp
  have "g k = f k" for k
  proof (cases "f k")
    case (Some v)
    then obtain j where "live old j" "keys old ! j = Some k" using assms(1) by (auto simp: represents_def)
    then show ?thesis using "0.prems"(3)[of k] i by (auto simp: live_def)
  qed (use "0.prems"(3) in simp)
  then have "g = f" by blast
  moreover have "{j. live old j \<and> j < i} = {j. live old j}" using i by (auto simp: live_def)
  ultimately show ?case using "0.prems" i by (subst reinsert.simps) simp
next
  case (Suc d)
  have inv: "hm_inv P old" using assms(1) by (simp add: represents_def)
  have i: "i < fcapacity old" "d = fcapacity old - (i + 1)" "i + 1 \<le> fcapacity old" using Suc.hyps(2) by simp_all
  show ?case
  proof (cases "live old i")
    case False
    then have "reinsert (Insert (Suc fuel) P) old i n m = reinsert (Insert (Suc fuel) P) old (i + 1) n m"
      using i(1) by (subst reinsert.simps) (auto simp: live_def)
    moreover have "{j. live old j \<and> j < i + 1} = {j. live old j \<and> j < i}" using False by (auto simp: less_Suc_eq)
    moreover have "(\<exists>j < i + 1. live old j \<and> keys old ! j = Some k) = (\<exists>j < i. live old j \<and> keys old ! j = Some k)" for k
      using False by (auto simp: less_Suc_eq)
    ultimately show ?thesis using Suc.hyps(1)[OF i(2,3) Suc.prems(2), of n] Suc.prems(3-) by simp
  next
    case True
    then obtain k v where kv: "keys old ! i = Some k" "vals old ! i = Some v" using hm_liveE[OF inv] by metis
    then have fk: "f k = Some v" using True assms(1) by (auto simp: represents_def)
    have gk: "g k = None" using Suc.prems(3)[of k] hm_inv_unique[OF inv _ True] kv(1) by auto
    have S: "{j. live old j \<and> j < i + 1} = insert i {j. live old j \<and> j < i}" using True by (auto simp: less_Suc_eq)
    have fin: "finite {j. live old j \<and> j < i}" by (rule finite_subset[OF _ finite_live[of old]]) auto
    have "card {j. live old j \<and> j < i + 1} \<le> card {j. live old j}" by (rule card_mono) auto
    then have lt: "fsize m < load_limit m" using S fin Suc.prems(4,5) by simp
    from Insert_no_grow[OF Suc.prems(2) assms(2), of k fuel v] lt gk obtain idx m1 where
      m1: "Insert (Suc fuel) P k v m = Some ((idx, True), m1)" "represents P m1 (g(k \<mapsto> v))" "fcapacity m1 = fcapacity m"
        "load_limit m1 = load_limit m" "load_limit_percent m1 = load_limit_percent m" "fsize m1 = fsize m + 1" by auto
    have "reinsert (Insert (Suc fuel) P) old i n m = reinsert (Insert (Suc fuel) P) old (i + 1) (n + 1) m1"
      using i(1) True kv m1(1) by (subst reinsert.simps) (simp add: live_def del: Insert.simps)
    moreover have "(g(k \<mapsto> v)) k' = (if \<exists>j < i + 1. live old j \<and> keys old ! j = Some k' then f k' else None)" for k'
      using Suc.prems(3)[of k'] kv(1) fk True by (auto simp: less_Suc_eq)
    moreover have "fsize m1 = card {j. live old j \<and> j < i + 1}" using S fin Suc.prems(4) m1(6) by simp
    ultimately show ?thesis
      using Suc.hyps(1)[OF i(2,3) m1(2), of "n + 1"] Suc.prems(5,6) m1(3-6) by simp
  qed
qed

lemma grow_correct:
  assumes "represents P m f" "Probe P = calc" "fcapacity m \<le> 2 ^ 31" "0 < entry_size P" "entry_size P < 2 ^ 32" "load_limit m \<le> fsize m"
  shows "\<exists>m'. rehash_with (Insert (Suc fuel) P) P True m = Some m' \<and> represents P m' f \<and> fsize m' < load_limit m'
     \<and> fcapacity m' \<le> max (2 ^ 23) (2 * fcapacity m) \<and> load_limit_percent m' = load_limit_percent m"
proof -
  have inv: "hm_inv P m" using assms(1) by (simp add: represents_def)
  note sz = hm_inv_sizes[OF inv]
  have pct: "0 < load_limit_percent m" "load_limit_percent m < 2 ^ 31" "load_limit m = min (fcapacity m * load_limit_percent m div 100) (fcapacity m)"
    using inv by (auto simp: hm_inv_def)
  have c: "fcapacity m = 0 \<or> (\<exists>j \<le> 31. fcapacity m = 2 ^ j)"
    using inv assms(3) power_increasing_iff[of "2 :: nat" _ 31] unfolding hm_inv_def by auto
  define n where "n = grown_capacity P True (fcapacity m)"
  note g = grown_capacity_ok[OF c assms(4,5), folded n_def]
  let ?r = "Reset_map n m"
  have r: "represents P ?r Map.empty" using g(1) pct by (intro Reset_map_correct) auto
  then have inv': "hm_inv P ?r" by (simp add: represents_def)
  have "fcapacity ?r = n" "load_limit_percent ?r = load_limit_percent m" "fsize ?r = 0" by (simp_all add: Reset_map_def)
  moreover from this inv' have ll: "load_limit ?r = min (n * load_limit_percent m div 100) n" by (simp add: hm_inv_def)
  moreover have "fsize m < load_limit ?r"
  proof -
    have "1024 * 1 \<le> n * load_limit_percent m" using g(2) pct(1) by (intro mult_le_mono) auto
    moreover have "2 * (fcapacity m * load_limit_percent m) \<le> n * load_limit_percent m"
      using mult_le_mono1[OF g(3), of "load_limit_percent m"] by simp
    ultimately have "fcapacity m * load_limit_percent m div 100 < n * load_limit_percent m div 100" by linarith
    moreover have "fcapacity m < n" using g(2,3) by linarith
    moreover have "fsize m = load_limit m" using sz(5) assms(6) by simp
    ultimately show ?thesis unfolding ll using pct(3) by (simp add: min_less_iff_disj)
  qed
  ultimately obtain m' where m': "reinsert (Insert (Suc fuel) P) m 0 0 ?r = Some (fsize m', m')" "represents P m' f"
      "fcapacity m' = n" "load_limit m' = load_limit ?r" "load_limit_percent m' = load_limit_percent m" "fsize m' = fsize m"
    using reinsert_correct[OF assms(1,2) _ r, of 0 0 fuel] sz(7) by auto
  have "rehash_with (Insert (Suc fuel) P) P True m = Some m'"
    using m'(1) g(3) unfolding rehash_with_def n_def[symmetric] by (simp add: Let_def del: Insert.simps)
  then show ?thesis using m' g(4) \<open>fsize m < load_limit ?r\<close> by simp
qed

lemma Insert_correct:
  assumes "represents P m f" "Probe P = calc" "fcapacity m \<le> 2 ^ 31" "0 < entry_size P" "entry_size P < 2 ^ 32"
  shows "\<exists>idx m'. Insert 2 P key w m = Some ((idx, f key = None), m')
     \<and> represents P m' (if f key = None then f(key \<mapsto> w) else f)
     \<and> vals m' ! idx = Some (if f key = None then w else the (f key))
     \<and> fcapacity m' \<le> (if fsize m < load_limit m then fcapacity m else max (2 ^ 23) (2 * fcapacity m))
     \<and> load_limit_percent m' = load_limit_percent m"
proof (cases "f key \<noteq> None \<or> fsize m < load_limit m")
  case True
  from Insert_no_grow[OF assms(1,2) True, of "Suc 0" w] show ?thesis by (auto simp: numeral_2_eq_2 simp del: Insert.simps)
next
  case False
  then have lim: "load_limit m \<le> fsize m" and fn: "f key = None" by auto
  from grow_correct[OF assms lim, of 0] obtain m1 where m1: "rehash_with (Insert (Suc 0) P) P True m = Some m1" "represents P m1 f"
    "fsize m1 < load_limit m1" "fcapacity m1 \<le> max (2 ^ 23) (2 * fcapacity m)" "load_limit_percent m1 = load_limit_percent m" by blast
  have inv: "hm_inv P m" using assms(1) by (simp add: represents_def)
  have "\<exists>slot n. probe_loop P m key None 0 = NoKey slot n"
  proof (cases "probe_loop P m key None 0")
    case (KeyAt i)
    then have "live m i" "keys m ! i = Some key" using probe_loop_spec[OF inv assms(2), of 0 key None] by simp_all
    then show ?thesis using assms(1) fn hm_liveE[OF inv] unfolding represents_def by (metis option.distinct(1))
  qed auto
  then have "Insert 2 P key w m = Insert (Suc 0) P key w m1"
    using lim m1(1) by (auto simp: numeral_2_eq_2 simp del: Insert.simps(2) simp: Insert.simps(2)[of "Suc 0"])
  then show ?thesis using Insert_no_grow[OF m1(2) assms(2), of key 0 w] m1(3-5) fn lim by (auto simp del: Insert.simps)
qed

lemma Erase_correct:
  assumes "represents P m f" "Probe P = calc" "\<not> AppendOnly P"
  shows "\<exists>m'. Erase P key m = Some (f key \<noteq> None, m') \<and> represents P m' (f(key := None)) \<and> fcapacity m' = fcapacity m
     \<and> fsize m' \<le> fsize m \<and> load_limit_percent m' = load_limit_percent m"
proof -
  have inv: "hm_inv P m" using assms(1) by (simp add: represents_def)
  note spec = find_loop_map_spec[OF inv assms(2), of 0 key]
  show ?thesis
  proof (cases "FindInternal P key m")
    case None
    then have "\<forall>i. live m i \<longrightarrow> keys m ! i \<noteq> Some key" using spec by (simp add: FindInternal_def)
    then have "f key = None" using assms(1) by (cases "f key") (auto simp: represents_def)
    then have "f(key := None) = f" by auto
    then show ?thesis using None assms \<open>f key = None\<close> by (simp add: Erase_def)
  next
    case (Some i)
    then have i: "live m i" "keys m ! i = Some key" using spec by (simp_all add: FindInternal_def)
    then obtain v where "vals m ! i = Some v" using hm_liveE[OF inv] by metis
    then have "f key = Some v" using assms(1) i by (auto simp: represents_def)
    then show ?thesis using Some assms(3) EraseInternal_correct[OF assms(1,3) i] by (simp add: Erase_def) (simp add: EraseInternal_def)
  qed
qed

lemma run_map_op_correct:
  assumes "represents P m f" "Probe P = calc" "0 < entry_size P" "entry_size P < 2 ^ 32" "small_map n m" "n < 2 ^ 29" "op_allowed P op"
  shows "\<exists>m'. run_map_op P op m = Some m' \<and> represents P m' (map_spec op f) \<and> small_map (Suc n) m'"
proof (cases op)
  case (InsertOp k v)
  have inv: "hm_inv P m" using assms(1) by (simp add: represents_def)
  have "max (2 ^ 23) (4 * (n + 1)) \<le> (2 :: nat) ^ 31" using assms(6) by simp
  then have cap: "fcapacity m \<le> 2 ^ 31" using assms(5) order_trans by (auto simp only: small_map_def)
  from Insert_correct[OF assms(1,2) cap assms(3,4), of k v] obtain idx m' where
    m': "Insert 2 P k v m = Some ((idx, f k = None), m')" "represents P m' (map_spec op f)"
      "fcapacity m' \<le> (if fsize m < load_limit m then fcapacity m else max (2 ^ 23) (2 * fcapacity m))"
      "load_limit_percent m' = load_limit_percent m" using InsertOp by auto
  have "fcapacity m \<le> 2 * (n + 1)" if "\<not> fsize m < load_limit m"
  proof -
    have "load_limit m = min (fcapacity m * 75 div 100) (fcapacity m)" using inv assms(5) by (simp add: hm_inv_def small_map_def)
    then have "fcapacity m * 75 div 100 < n + 1 \<or> fcapacity m \<le> n" using that assms(5) by (auto simp: small_map_def)
    then have "fcapacity m * 75 < (n + 1) * 100 \<or> fcapacity m \<le> n" by (simp only: div_less_iff_less_mult)
    then show ?thesis by auto
  qed
  then have "fcapacity m' \<le> max (2 ^ 23) (4 * (Suc n + 1))"
    using m'(3) assms(5) by (cases "fsize m < load_limit m") (auto simp: small_map_def)
  moreover have "fsize m' \<le> Suc n"
    using represents_dom[OF m'(2)] represents_dom[OF assms(1)] assms(5) InsertOp by (auto simp: small_map_def card_insert_if)
  ultimately show ?thesis using m' InsertOp assms(5) by (auto simp: small_map_def)
next
  case (EraseOp k)
  then show ?thesis using Erase_correct[OF assms(1,2), of k] assms(5,7) by (auto simp: op_allowed_def small_map_def)
next
  case ClearOp
  from Clear_map_correct[OF assms(1)] obtain m' where m': "Clear_map P m = Some m'" "represents P m' Map.empty"
    "fcapacity m' = fcapacity m" "load_limit_percent m' = load_limit_percent m" by blast
  then show ?thesis using represents_dom(2)[OF m'(2)] assms(5) ClearOp by (auto simp: small_map_def)
qed

lemma run_map_ops_correct:
  assumes "Probe P = calc" "0 < entry_size P" "entry_size P < 2 ^ 32"
  shows "represents P m f \<Longrightarrow> small_map n m \<Longrightarrow> n + length ops < 2 ^ 29 \<Longrightarrow> \<forall>op \<in> set ops. op_allowed P op \<Longrightarrow>
     \<exists>m'. run_map_ops P ops m = Some m' \<and> represents P m' (fold map_spec ops f)"
proof (induction ops arbitrary: m f n)
  case (Cons op ops)
  from run_map_op_correct[OF Cons.prems(1) assms Cons.prems(2), of op] Cons.prems(3,4) obtain m1 where
    "run_map_op P op m = Some m1" "represents P m1 (map_spec op f)" "small_map (Suc n) m1" by auto
  then show ?case using Cons.IH[of m1 "map_spec op f" "Suc n"] Cons.prems(3,4) by auto
qed simp

end

lemma run_map_ops_params:
  assumes "params_ok P" "length ops < 2 ^ 29" "\<forall>op \<in> set ops. op_allowed P op"
  shows "\<exists>m. run_map_ops P ops (new_FlatHashMap 0 75) = Some m \<and> represents P m (fold map_spec ops Map.empty)"
proof -
  have e: "0 < entry_size P" "entry_size P < 2 ^ 32" and l: "0 + length ops < 2 ^ 29"
    using assms(1,2) by (simp_all add: params_ok_def)
  consider "Probe P = LinearProbe_Calc" | "Probe P = QuadraticProbe_Calc" | "Probe P = QuadraticHalfProbe_Calc"
    using assms(1) by (auto simp: params_ok_def)
  then show ?thesis
  proof cases
    case 1
    show ?thesis by (rule linear.run_map_ops_correct[OF 1 e new_map_represents l assms(3)])
  next
    case 2
    show ?thesis by (rule quadratic.run_map_ops_correct[OF 2 e new_map_represents l assms(3)])
  next
    case 3
    show ?thesis by (rule half.run_map_ops_correct[OF 3 e new_map_represents l assms(3)])
  qed
qed

lemma Find_params: "params_ok P \<Longrightarrow> represents P m f \<Longrightarrow> Find P key m = f key"
  using linear.Find_correct[of P m f key] quadratic.Find_correct[of P m f key] half.Find_correct[of P m f key]
  by (auto simp: params_ok_def)

text \<open>C3. The hash map implements a finite map, with each of the three probing schemes: after any sequence
  of insertions, removals and clears, through all the tombstones and rehashes on the way, no check
  fails, a lookup returns what the last effective insertion stored, the size is the number of keys,
  and iterating visits every entry exactly once.\<close>

theorem flat_hash_map_correct:
  assumes "params_ok P" "length ops < 2 ^ 29" "\<forall>op \<in> set ops. op_allowed P op"
  defines "f \<equiv> fold map_spec ops Map.empty"
  shows "\<exists>m. run_map_ops P ops (new_FlatHashMap 0 75) = Some m \<and> (\<forall>k. Find P k m = f k) \<and> fsize m = card (dom f)
     \<and> set (iterate P m 0) = {(Some k, Some v) | k v. f k = Some v} \<and> length (iterate P m 0) = card (dom f)"
proof -
  from run_map_ops_params[OF assms(1-3)] obtain m where m: "run_map_ops P ops (new_FlatHashMap 0 75) = Some m" "represents P m f"
    by (auto simp: f_def)
  have inv: "hm_inv P m" using m(2) by (simp add: represents_def)
  have rep: "f k = Some v \<longleftrightarrow> (\<exists>i. live m i \<and> keys m ! i = Some k \<and> vals m ! i = Some v)" for k v
    using m(2) by (simp add: represents_def)
  have "{(keys m ! j, vals m ! j) | j. live m j \<and> 0 \<le> j} = {(Some k, Some v) | k v. f k = Some v}" (is "?L = ?R")
  proof
    show "?L \<subseteq> ?R"
    proof
      fix x
      assume "x \<in> ?L"
      then obtain j where j: "live m j" "x = (keys m ! j, vals m ! j)" by blast
      from hm_liveE[OF inv j(1)] obtain k v where "keys m ! j = Some k" "vals m ! j = Some v" by metis
      then show "x \<in> ?R" using j rep by auto
    qed
    show "?R \<subseteq> ?L" using rep by force
  qed
  moreover have "card {j. live m j \<and> 0 \<le> j} = card (dom f)" using hm_inv_sizes(7)[OF inv] represents_dom(2)[OF m(2)] by simp
  ultimately show ?thesis
    using m(1) Find_params[OF assms(1) m(2)] iterate_correct[OF m(2), of 0] represents_dom(2)[OF m(2)] by (intro exI[of _ m]) simp
qed

theorem flat_hash_map_correct_witness:
  "\<exists>m. run_map_ops \<lparr>hasher = (\<lambda>k. of_nat (k mod 2)), Probe = QuadraticProbe_Calc, AppendOnly = False, entry_size = 16\<rparr>
       [InsertOp 4 ''a'', InsertOp 6 ''b'', EraseOp 4, InsertOp (8 :: nat) ''c'', InsertOp 6 ''d''] (new_FlatHashMap 0 75) = Some m
     \<and> Find \<lparr>hasher = (\<lambda>k. of_nat (k mod 2)), Probe = QuadraticProbe_Calc, AppendOnly = False, entry_size = 16\<rparr> 6 m = Some ''b''
     \<and> Find \<lparr>hasher = (\<lambda>k. of_nat (k mod 2)), Probe = QuadraticProbe_Calc, AppendOnly = False, entry_size = 16\<rparr> 4 m = None
     \<and> fsize m = 2"
proof -
  let ?P = "\<lparr>hasher = (\<lambda>k :: nat. of_nat (k mod 2)), Probe = QuadraticProbe_Calc, AppendOnly = False, entry_size = 16\<rparr>"
  let ?ops = "[InsertOp (4 :: nat) ''a'', InsertOp 6 ''b'', EraseOp 4, InsertOp 8 ''c'', InsertOp 6 ''d'']"
  define ops where "ops = ?ops"
  have "params_ok ?P" "length ops < 2 ^ 29" "\<forall>op \<in> set ops. op_allowed ?P op" by (simp_all add: params_ok_def op_allowed_def ops_def)
  note c = flat_hash_map_correct[OF this]
  have f: "fold map_spec ops Map.empty = [6 \<mapsto> ''b'', 8 \<mapsto> ''c'']" by (auto simp: fun_eq_iff ops_def)
  from c obtain m where m: "run_map_ops ?P ops (new_FlatHashMap 0 75) = Some m"
    "\<forall>k. Find ?P k m = [6 \<mapsto> ''b'', 8 \<mapsto> ''c''] k" "fsize m = card (dom [6 :: nat \<mapsto> ''b'', 8 \<mapsto> ''c''])" unfolding f by (elim exE conjE) (rule that)
  have "Find ?P 6 m = Some ''b''" "Find ?P 4 m = None" unfolding m(2)[rule_format] by simp_all
  moreover have "fsize m = 2" unfolding m(3) by (simp add: card_insert_if)
  ultimately show ?thesis using m(1) unfolding ops_def by (intro exI[of _ m] conjI)
qed

text \<open>C23. \<^verbatim>\<open>Insert\<close> always returns: the retry loop runs at most twice and the rehash it triggers never
  rehashes again. It reports whether the key was new, leaves the value already stored for a key in
  place, and the slot it returns holds the value; a growing table stays within the bounds the growth
  policy announces.\<close>

theorem Insert_terminates:
  assumes "represents P m f" "params_ok P" "fcapacity m \<le> 2 ^ 31"
  shows "\<exists>idx m'. Insert 2 P key w m = Some ((idx, f key = None), m')
     \<and> represents P m' (if f key = None then f(key \<mapsto> w) else f)
     \<and> vals m' ! idx = Some (if f key = None then w else the (f key))
     \<and> fcapacity m' \<le> (if fsize m < load_limit m then fcapacity m else max (2 ^ 23) (2 * fcapacity m))"
proof -
  have e: "0 < entry_size P" "entry_size P < 2 ^ 32" using assms(2) by (simp_all add: params_ok_def)
  consider "Probe P = LinearProbe_Calc" | "Probe P = QuadraticProbe_Calc" | "Probe P = QuadraticHalfProbe_Calc"
    using assms(2) by (auto simp: params_ok_def)
  then show ?thesis
  proof cases
    case 1
    show ?thesis using linear.Insert_correct[OF assms(1) 1 assms(3) e, of key w] by blast
  next
    case 2
    show ?thesis using quadratic.Insert_correct[OF assms(1) 2 assms(3) e, of key w] by blast
  next
    case 3
    show ?thesis using half.Insert_correct[OF assms(1) 3 assms(3) e, of key w] by blast
  qed
qed

theorem Insert_terminates_witness:
  "\<exists>idx m'. Insert 2 \<lparr>hasher = (\<lambda>k :: nat. of_nat k), Probe = LinearProbe_Calc, AppendOnly = True, entry_size = 8\<rparr> 5 ''x'' (new_FlatHashMap 0 75)
     = Some ((idx, True), m') \<and> vals m' ! idx = Some ''x'' \<and> fcapacity m' \<le> 2 ^ 23"
proof -
  let ?P = "\<lparr>hasher = (\<lambda>k :: nat. of_nat k), Probe = LinearProbe_Calc, AppendOnly = True, entry_size = 8\<rparr>"
  have c: "fcapacity (new_FlatHashMap 0 75 :: (nat, string) FlatHashMap) = 0" by (simp add: new_FlatHashMap_def Let_def)
  have "params_ok ?P" by (simp add: params_ok_def)
  from Insert_terminates[OF new_map_represents(1) this, of 5 "''x''"] show ?thesis using c by (auto simp del: Insert.simps split: if_splits)
qed

end
