(* ===== verification/Dwarf_Util.thy ===== *)
theory Dwarf_Util
  imports Proto_Utils "HOL-Library.Sublist"
begin

text \<open>
  The reading primitives of the debug-information reader of the QEMU plugin:
  \<^verbatim>\<open>src/qemu_plugin/dwarf/util.{h,cc}\<close> and \<^verbatim>\<open>dwarf_util.{h,cc}\<close>. A \<^verbatim>\<open>string_view\<close> is the
  bytes it views; a function that advances a view through a pointer returns the rest.
\<close>

subsection \<open>Outcomes\<close>

text \<open>The reader answers malformed input with \<^verbatim>\<open>exit(1)\<close>: \<open>Exit\<close>. \<open>Undef\<close> is an
  operation the language leaves undefined: a failed \<^verbatim>\<open>assert\<close>, a null or dangling pointer, an
  access out of bounds.\<close>

datatype 'a outcome = Ok 'a | Exit | Undef

fun obind :: "'a outcome \<Rightarrow> ('a \<Rightarrow> 'b outcome) \<Rightarrow> 'b outcome" where
  "obind (Ok x) f = f x"
| "obind Exit f = Exit"
| "obind Undef f = Undef"

named_theorems reads \<open>what a successful read tells about the bytes\<close>
named_theorems defined \<open>operations that are never undefined\<close>

lemma obind_Ok_iff [reads]: "obind m f = Ok y \<longleftrightarrow> (\<exists>x. m = Ok x \<and> f x = Ok y)"
  by (cases m) auto

lemma obind_eq_Undef: "obind m f = Undef \<longleftrightarrow> m = Undef \<or> (\<exists>x. m = Ok x \<and> f x = Undef)"
  by (cases m) auto

lemma obind_Ok_right [simp]: "obind m Ok = m"
  by (cases m) auto

lemma obind_assoc: "obind (obind m f) g = obind m (\<lambda>x. obind (f x) g)"
  by (cases m) auto

lemma obind_cong [fundef_cong]:
  "m = m' \<Longrightarrow> (\<And>x. m' = Ok x \<Longrightarrow> f x = g x) \<Longrightarrow> obind m f = obind m' g"
  by (cases m') auto

lemma obind_defined [intro]:
  "m \<noteq> Undef \<Longrightarrow> (\<And>x. m = Ok x \<Longrightarrow> f x \<noteq> Undef) \<Longrightarrow> obind m f \<noteq> Undef"
  by (cases m) auto

subsection \<open>Checked arithmetic and sub-views\<close>

definition CheckedAdd :: "u64 \<Rightarrow> u64 \<Rightarrow> u64 outcome" where
  "CheckedAdd a b = (let c = a + b in if c < a then Exit else Ok c)"

definition CheckedMul :: "u64 \<Rightarrow> u64 \<Rightarrow> u64 outcome" where
  "CheckedMul a b =
     (if a = 0 \<or> b = 0 then Ok 0
      else let c = a * b in if c div a \<noteq> b then Exit else Ok c)"

definition StrictSubstr :: "bytes \<Rightarrow> u64 \<Rightarrow> u64 \<Rightarrow> bytes outcome" where
  "StrictSubstr data off n =
     obind (CheckedAdd off n) (\<lambda>last.
       if length data < unat last then Exit else Ok (take (unat n) (drop (unat off) data)))"

definition StrictSubstr_from :: "bytes \<Rightarrow> u64 \<Rightarrow> bytes outcome" where
  "StrictSubstr_from data off = (if length data < unat off then Exit else Ok (drop (unat off) data))"

text \<open>\<^verbatim>\<open>assert\<close> guards the contract of \<^verbatim>\<open>AlignUp\<close>.\<close>

definition AlignUp_dwarf :: "u64 \<Rightarrow> u64 \<Rightarrow> u64 outcome" where
  "AlignUp_dwarf offset granularity =
     (if granularity AND (granularity - 1) = 0
      then Ok ((offset + granularity - 1) AND NOT (granularity - 1)) else Undef)"

lemma CheckedAdd_Ok_iff [reads]:
  "CheckedAdd a b = Ok c \<longleftrightarrow> unat a + unat b < 2 ^ 64 \<and> c = a + b"
proof -
  have "a + b < a \<longleftrightarrow> \<not> unat a + unat b < 2 ^ 64"
    using unat_less_exp[of a] unat_less_exp[of b]
    by (auto simp: word_less_nat_alt unat_word_ariths le_mod_geq)
  then show ?thesis by (auto simp: CheckedAdd_def Let_def)
qed

lemma CheckedMul_Ok_iff [reads]:
  "CheckedMul a b = Ok c \<longleftrightarrow> unat a * unat b < 2 ^ 64 \<and> c = a * b"
proof (cases "a = 0 \<or> b = 0")
  case False
  then have pos: "0 < unat a" "0 < unat b" by (auto simp: unat_gt_0)
  have u: "unat (a * b) = unat a * unat b mod 2 ^ 64" by (simp add: unat_word_ariths)
  have "a * b div a = b \<longleftrightarrow> unat (a * b) div unat a = unat b"
    by (simp add: word_unat_eq_iff unat_div)
  also have "\<dots> \<longleftrightarrow> unat a * unat b < 2 ^ 64"
  proof
    assume "unat (a * b) div unat a = unat b"
    then have "unat a * unat b \<le> unat (a * b)"
      by (metis div_times_less_eq_dividend mult.commute)
    then show "unat a * unat b < 2 ^ 64" using unat_less_exp[of "a * b"] by simp
  next
    assume "unat a * unat b < 2 ^ 64"
    then show "unat (a * b) div unat a = unat b" using pos by (simp add: u)
  qed
  finally show ?thesis using False by (auto simp: CheckedMul_def Let_def)
qed (auto simp: CheckedMul_def)

lemma checked_defined [defined, simp]:
  "CheckedAdd a b \<noteq> Undef" "CheckedMul a b \<noteq> Undef"
  by (auto simp: CheckedAdd_def CheckedMul_def Let_def)

lemma StrictSubstr_Ok_iff [reads]:
  "StrictSubstr data off n = Ok r \<longleftrightarrow> unat off + unat n < 2 ^ 64 \<and> unat off + unat n \<le> length data \<and>
     r = take (unat n) (drop (unat off) data)"
proof -
  have "unat off + unat n < 2 ^ 64 \<Longrightarrow> unat (off + n) = unat off + unat n"
    by (simp add: unat_word_ariths)
  then show ?thesis by (auto simp: StrictSubstr_def obind_Ok_iff CheckedAdd_Ok_iff)
qed

lemma StrictSubstr_from_Ok_iff [reads]:
  "StrictSubstr_from data off = Ok r \<longleftrightarrow> unat off \<le> length data \<and> r = drop (unat off) data"
  by (auto simp: StrictSubstr_from_def)

lemma substr_defined [defined, simp]:
  "StrictSubstr data off n \<noteq> Undef" "StrictSubstr_from data off \<noteq> Undef"
  by (auto simp: StrictSubstr_def StrictSubstr_from_def obind_eq_Undef)

subsection \<open>Endianness\<close>

datatype Endian = kBig | kLittle

text \<open>\<^verbatim>\<open>GetMachineEndian\<close> on the little-endian hosts the memory model describes.\<close>

definition GetMachineEndian :: Endian where
  "GetMachineEndian = (if hd (le_bytes 4 (1 :: u32)) = 1 then kLittle else kBig)"

function BS :: "nat \<Rightarrow> 'a::len word \<Rightarrow> 'a word" where
  "BS N val =
     (if N \<le> 1 then val AND 0xff
      else let bits = 8 * (N div 2)
           in push_bit bits (BS (N div 2) val) OR BS (N div 2) (drop_bit bits val))"
  by pat_completeness auto
termination by (relation "measure fst") auto

declare BS.simps [simp del]

text \<open>\<^verbatim>\<open>ByteSwap<T>\<close>; the type of the argument fixes \<^verbatim>\<open>sizeof(T)\<close>.\<close>

definition ByteSwap :: "'a::len word \<Rightarrow> 'a word" where
  "ByteSwap val = BS (LENGTH('a) div 8) val"

subsection \<open>Reading data\<close>

text \<open>\<^verbatim>\<open>ReadFixed<T, N>\<close> for an unsigned \<^verbatim>\<open>T\<close>: the value, and the view past it.\<close>

definition ReadFixed :: "nat \<Rightarrow> bytes \<Rightarrow> ('a::len word \<times> bytes) outcome" where
  "ReadFixed N data = (if length data < N then Exit else Ok (le_word (take N data), drop N data))"

definition ReadEndian :: "bytes \<Rightarrow> Endian \<Rightarrow> ('a::len word \<times> bytes) outcome" where
  "ReadEndian data endian =
     obind (ReadFixed (LENGTH('a) div 8) data) (\<lambda>(val, data).
       Ok (if endian = GetMachineEndian then val else ByteSwap val, data))"

definition ReadLittleEndian :: "bytes \<Rightarrow> ('a::len word \<times> bytes) outcome" where
  "ReadLittleEndian data = ReadEndian data kLittle"

definition ReadBigEndian :: "bytes \<Rightarrow> ('a::len word \<times> bytes) outcome" where
  "ReadBigEndian data = ReadEndian data kBig"

definition ReadUntil :: "bytes \<Rightarrow> u8 \<Rightarrow> bytes \<times> bytes" where
  "ReadUntil data c =
     (let len = (case memchr c data of None \<Rightarrow> length data | Some found \<Rightarrow> found)
      in (take len data, drop len data))"

definition ReadUntilConsuming :: "bytes \<Rightarrow> u8 \<Rightarrow> (bytes \<times> bytes) outcome" where
  "ReadUntilConsuming data c =
     (let (ret, data) = ReadUntil data c
      in if data = [] \<or> hd data \<noteq> c then Exit else Ok (ret, tl data))"

definition ReadNullTerminated :: "bytes \<Rightarrow> (bytes \<times> bytes) outcome" where
  "ReadNullTerminated data = ReadUntilConsuming data 0"

definition ReadBytes :: "u64 \<Rightarrow> bytes \<Rightarrow> (bytes \<times> bytes) outcome" where
  "ReadBytes n data = (if length data < unat n then Exit else Ok (take (unat n) data, drop (unat n) data))"

definition SkipBytes :: "u64 \<Rightarrow> bytes \<Rightarrow> bytes outcome" where
  "SkipBytes n data = obind (ReadBytes n data) (\<lambda>(_, data). Ok data)"

definition ReadDebugStrEntry :: "bytes \<Rightarrow> u64 \<Rightarrow> bytes outcome" where
  "ReadDebugStrEntry section ofs =
     obind (SkipBytes ofs section) (\<lambda>section. obind (ReadNullTerminated section) (\<lambda>(s, _). Ok s))"

subsection \<open>LEB128\<close>

definition IsValidDwarfAddress :: "u64 \<Rightarrow> u8 \<Rightarrow> bool" where
  "IsValidDwarfAddress addr address_size =
     (if addr = 0 then False
      else if address_size = 4 \<and> addr = 0xffffffff then False
      else if address_size = 8 \<and> addr = 0xffffffffffffffff then False
      else True)"

fun leb_loop :: "bool \<Rightarrow> bytes \<Rightarrow> nat \<Rightarrow> u64 \<Rightarrow> (u64 \<times> bytes) outcome" where
  "leb_loop is_signed [] shift ret = Exit"
| "leb_loop is_signed (byte # rest) shift ret =
     (if shift < 70 then
        let ret = ret OR push_bit shift (ucast (byte AND 0x7f)); shift = shift + 7
        in if byte AND 0x80 = 0
           then Ok (if is_signed \<and> shift < 64 \<and> byte AND 0x40 \<noteq> 0 then ret OR - push_bit shift 1 else ret,
                    rest)
           else leb_loop is_signed rest shift ret
      else Exit)"

definition ReadLEB128Internal :: "bool \<Rightarrow> bytes \<Rightarrow> (u64 \<times> bytes) outcome" where
  "ReadLEB128Internal is_signed data = leb_loop is_signed data 0 0"

text \<open>\<^verbatim>\<open>ReadLEB128<T>\<close> for the unsigned and for the signed integer types.\<close>

definition ReadLEB128 :: "bytes \<Rightarrow> ('a::len word \<times> bytes) outcome" where
  "ReadLEB128 data =
     obind (ReadLEB128Internal False data) (\<lambda>(val, data).
       if ucast (- 1 :: 'a word) < val then Exit else Ok (ucast val, data))"

definition ReadLEB128_signed :: "bytes \<Rightarrow> ('a::len word \<times> bytes) outcome" where
  "ReadLEB128_signed data =
     obind (ReadLEB128Internal True data) (\<lambda>(val, data).
       if 2 ^ (LENGTH('a) - 1) - 1 < sint val \<or> sint val < - (2 ^ (LENGTH('a) - 1)) then Exit
       else Ok (ucast val, data))"

function skip_leb :: "bytes \<Rightarrow> nat \<Rightarrow> nat \<Rightarrow> bytes outcome" where
  "skip_leb data i limit =
     (if i < limit then
        if data ! i AND 0x80 = 0 then Ok (drop (Suc i) data) else skip_leb data (Suc i) limit
      else Exit)"
  by pat_completeness auto
termination by (relation "measure (\<lambda>(data, i, limit). limit - i)") auto

declare skip_leb.simps [simp del]

definition SkipLEB128 :: "bytes \<Rightarrow> bytes outcome" where
  "SkipLEB128 data = skip_leb data 0 (min (length data) 10)"


subsection \<open>What the readers read\<close>

lemma GetMachineEndian_eq [simp]: "GetMachineEndian = kLittle"
  by (simp add: GetMachineEndian_def numeral_eq_Suc)

lemma ReadFixed_Ok_iff [reads]:
  "ReadFixed N data = Ok (v, rest) \<longleftrightarrow> N \<le> length data \<and> v = le_word (take N data) \<and> rest = drop N data"
  by (auto simp: ReadFixed_def)

lemma ReadBytes_Ok_iff [reads]:
  "ReadBytes n data = Ok (bs, rest) \<longleftrightarrow> data = bs @ rest \<and> length bs = unat n"
  by (auto simp: ReadBytes_def min_def)

lemma SkipBytes_Ok_iff [reads]:
  "SkipBytes n data = Ok rest \<longleftrightarrow> unat n \<le> length data \<and> rest = drop (unat n) data"
  by (auto simp: SkipBytes_def ReadBytes_def)

lemma ReadNullTerminated_Ok_iff [reads]:
  "ReadNullTerminated data = Ok (s, rest) \<longleftrightarrow> data = s @ 0 # rest \<and> 0 \<notin> set s"
proof (cases "memchr 0 data")
  case None
  then have "ReadNullTerminated data = Exit"
    by (simp del: memchr_None_iff add: ReadNullTerminated_def ReadUntilConsuming_def ReadUntil_def)
  with None show ?thesis by auto
next
  case (Some i)
  then have i: "i < length data" "data ! i = 0" "0 \<notin> set (take i data)" by (auto dest: memchr_SomeD)
  then have d: "data = take i data @ 0 # drop (Suc i) data" using id_take_nth_drop by metis
  have l: "ReadNullTerminated data = Ok (take i data, drop (Suc i) data)"
    using Some i by (simp add: ReadNullTerminated_def ReadUntilConsuming_def ReadUntil_def
        hd_drop_conv_nth drop_Suc tl_drop)
  show ?thesis
  proof
    assume "ReadNullTerminated data = Ok (s, rest)"
    with l i d show "data = s @ 0 # rest \<and> 0 \<notin> set s" by auto
  next
    assume r: "data = s @ 0 # rest \<and> 0 \<notin> set s"
    then have "takeWhile (\<lambda>b. b \<noteq> 0) data = s" by (simp add: takeWhile_append)
    moreover have "takeWhile (\<lambda>b. b \<noteq> 0) data = take i data"
      by (subst d) (use i in \<open>auto simp: takeWhile_append\<close>)
    ultimately have "s = take i data" by simp
    with r d l show "ReadNullTerminated data = Ok (s, rest)" by (metis append_same_eq list.inject same_append_eq)
  qed
qed

lemma ReadDebugStrEntry_Ok_iff [reads]:
  "ReadDebugStrEntry sec ofs = Ok s \<longleftrightarrow>
     (\<exists>rest. unat ofs \<le> length sec \<and> drop (unat ofs) sec = s @ 0 # rest \<and> 0 \<notin> set s)"
  by (auto simp: ReadDebugStrEntry_def reads)

lemma leb_loop_defined [simp]: "leb_loop sg data shift ret \<noteq> Undef"
  by (induction sg data shift ret rule: leb_loop.induct) (auto simp: Let_def)

lemma skip_leb_defined [simp]: "skip_leb data i limit \<noteq> Undef"
  by (induction data i limit rule: skip_leb.induct) (subst skip_leb.simps, simp)

lemma reads_defined [defined, simp]:
  "ReadFixed N data \<noteq> Undef" "ReadBytes n data \<noteq> Undef" "SkipBytes n data \<noteq> Undef"
  "ReadNullTerminated data \<noteq> Undef" "ReadDebugStrEntry sec ofs \<noteq> Undef"
  "ReadLEB128Internal sg data \<noteq> Undef" "ReadLEB128 data \<noteq> Undef"
  "ReadLEB128_signed data \<noteq> Undef" "SkipLEB128 data \<noteq> Undef"
  by (auto simp: ReadFixed_def ReadBytes_def SkipBytes_def ReadNullTerminated_def
      ReadUntilConsuming_def ReadDebugStrEntry_def ReadLEB128Internal_def ReadLEB128_def
      ReadLEB128_signed_def SkipLEB128_def obind_eq_Undef split: prod.splits if_splits)

subsection \<open>Byte order\<close>

lemma bit_int_ff [mask_bits]: "bit (0xff :: int) n \<longleftrightarrow> n < 8"
proof -
  have "(0xff :: int) = mask 8" by (simp add: mask_eq_exp_minus_1)
  then show ?thesis by (simp only: bit_mask_iff) auto
qed

lemma bit_BS:
  "8 * 2 ^ k \<le> LENGTH('a) \<Longrightarrow>
   bit (BS (2 ^ k) (val :: 'a::len word)) n \<longleftrightarrow> n < 8 * 2 ^ k \<and> bit val (8 * (2 ^ k - 1 - n div 8) + n mod 8)"
proof (induction k arbitrary: val n)
  case 0
  then show ?case
    by (subst BS.simps) (auto simp: bit_and_iff bit_simps mask_bits)
next
  case (Suc k)
  let ?h = "2 ^ k :: nat"
  have IH: "bit (BS ?h w) m \<longleftrightarrow> m < 8 * ?h \<and> bit w (8 * (?h - 1 - m div 8) + m mod 8)" for w :: "'a word" and m
    using Suc by simp
  have "\<not> 2 * ?h \<le> Suc 0" using one_le_power[of "2 :: nat" k] by linarith
  then have unfold: "BS (2 ^ Suc k) val = push_bit (8 * ?h) (BS ?h val) OR BS ?h (drop_bit (8 * ?h) val)"
    by (subst BS.simps) (simp add: Let_def)
  show ?case
  proof (cases "n < 8 * ?h")
    case True
    then have d: "n div 8 < ?h" by (simp add: less_mult_imp_div_less mult.commute)
    then have idx: "8 * ?h + (8 * (?h - 1 - n div 8) + n mod 8) = 8 * (2 ^ Suc k - 1 - n div 8) + n mod 8"
      by (simp add: diff_mult_distrib2)
    have "bit (BS (2 ^ Suc k) val) n \<longleftrightarrow> bit val (8 * ?h + (8 * (?h - 1 - n div 8) + n mod 8))"
      using True unfolding unfold by (simp add: bit_or_iff bit_push_bit_iff bit_drop_bit_eq IH)
    then show ?thesis unfolding idx using True by simp
  next
    case False
    then obtain m where n: "n = 8 * ?h + m" by (metis le_add_diff_inverse linorder_not_less)
    then have "n div 8 = ?h + m div 8" "n mod 8 = m mod 8" by simp_all
    then have "8 * (2 ^ Suc k - 1 - n div 8) + n mod 8 = 8 * (?h - 1 - m div 8) + m mod 8" by simp
    then show ?thesis using n Suc.prems unfolding unfold
      by (auto simp: bit_or_iff bit_push_bit_iff IH)
  qed
qed

lemma ByteSwap_le_word:
  assumes "length bs = 2 ^ k" "LENGTH('a) = 8 * 2 ^ k"
  shows "ByteSwap (le_word bs :: 'a::len word) = le_word (rev bs)"
proof (rule bit_word_eqI)
  fix n assume n: "n < LENGTH('a)"
  let ?i = "2 ^ k - 1 - n div 8"
  from n assms have d: "n div 8 < 2 ^ k" by (simp add: less_mult_imp_div_less mult.commute)
  have i: "?i < 2 ^ k" by simp
  have "8 * ?i + n mod 8 < 8 * 2 ^ k" using d mod_less_divisor[of 8 n] by (simp add: diff_mult_distrib2)
  then have "bit (ByteSwap (le_word bs :: 'a word)) n \<longleftrightarrow> bit (bs ! ?i) (n mod 8)"
    using n assms i by (simp add: ByteSwap_def bit_BS bit_le_word)
  then show "bit (ByteSwap (le_word bs :: 'a word)) n = bit (le_word (rev bs) :: 'a word) n"
    using n d assms by (simp add: bit_le_word rev_nth)
qed

text \<open>An integer as a file of the given byte order stores it.\<close>

definition endian_bytes :: "Endian \<Rightarrow> 'a::len word \<Rightarrow> bytes" where
  "endian_bytes e w = (case e of kLittle \<Rightarrow> le_bytes (LENGTH('a) div 8) w | kBig \<Rightarrow> rev (le_bytes (LENGTH('a) div 8) w))"

lemma length_endian_bytes [simp]: "length (endian_bytes e (w :: 'a::len word)) = LENGTH('a) div 8"
  by (simp add: endian_bytes_def split: Endian.splits)

lemma take_bit_length_word [simp]: "take_bit LENGTH('a) (w :: 'a::len word) = w"
  by (rule bit_word_eqI) (auto simp: bit_take_bit_iff)

lemma le_word_le_bytes_self: "LENGTH('a) = 8 * n \<Longrightarrow> le_word (le_bytes n (w :: 'a::len word)) = w"
  by (metis le_word_le_bytes take_bit_length_word ucast_id)

lemma endian_bytes_word:
  assumes "LENGTH('a) = 8 * 2 ^ k"
  shows "(if e = GetMachineEndian then le_word (endian_bytes e w) else ByteSwap (le_word (endian_bytes e w))) = (w :: 'a::len word)"
proof (cases e)
  case kLittle
  with assms show ?thesis by (simp add: endian_bytes_def le_word_le_bytes_self)
next
  case kBig
  with assms ByteSwap_le_word[of "rev (le_bytes (2 ^ k) w)" k, where 'a = 'a] show ?thesis
    by (simp add: endian_bytes_def le_word_le_bytes_self)
qed

lemma ReadEndian_endian_bytes:
  assumes "LENGTH('a) = 8 * 2 ^ k"
  shows "ReadEndian (endian_bytes e w @ rest) e = Ok (w :: 'a::len word, rest)"
  using endian_bytes_word[OF assms, of e w] by (simp add: ReadEndian_def ReadFixed_def)

subsection \<open>The value of a LEB128 number\<close>

text \<open>The number a sequence of 7-bit groups stands for, and its two's complement reading,
  by the definition of the DWARF standard.\<close>

primrec uleb_value :: "bytes \<Rightarrow> nat" where
  "uleb_value [] = 0"
| "uleb_value (b # bs) = unat (b AND 0x7f) + 128 * uleb_value bs"

definition sleb_value :: "bytes \<Rightarrow> int" where
  "sleb_value bs = int (uleb_value bs) - (if bit (last bs) 6 then 2 ^ (7 * length bs) else 0)"

lemma uleb_value_less: "uleb_value bs < 2 ^ (7 * length bs)"
proof (induction bs)
  case (Cons b bs)
  have "unat (b AND 0x7f) < 2 ^ 7"
    by (rule less_exp_of_bits) (auto simp: bit_simps mask_bits)
  with Cons show ?case by (simp add: power_add)
qed simp

lemma uleb_value_snoc: "uleb_value (bs @ [b]) = uleb_value bs + 2 ^ (7 * length bs) * unat (b AND 0x7f)"
  by (induction bs) (simp_all add: power_add)

lemma or_of_nat_disjoint:
  assumes "R < 2 ^ s"
  shows "of_nat R OR push_bit s w = of_nat R + (2 ^ s * w :: 'a::len word)"
proof -
  have "of_nat R AND push_bit s w = (0 :: 'a word)"
  proof (rule bit_word_eqI)
    fix n
    have "bit R n \<Longrightarrow> n < s"
      by (metis assms bit_take_bit_iff take_bit_nat_eq_self)
    then show "bit (of_nat R AND push_bit s w) n = bit (0 :: 'a word) n"
      by (auto simp: bit_and_iff bit_push_bit_iff bit_of_nat_iff)
  qed
  then show ?thesis by (simp add: disjunctive_add_eq_or[symmetric] push_bit_eq_mult mult.commute)
qed

lemma ucast_and_7f: "(ucast (b AND 0x7f :: u8) :: u64) = of_nat (unat (b AND 0x7f))"
  by (simp add: word_unat_eq_iff unat_ucast_up unat_of_nat take_bit_nat_eq_self
      order_less_trans[OF unat_less_exp])

lemma sign_extend:
  assumes "v < 2 ^ s" "s < 64"
  shows "of_nat v OR - push_bit s 1 = (word_of_int (int v - 2 ^ s) :: u64)"
proof -
  have "- push_bit s 1 = (push_bit s (- 1) :: u64)" by (simp add: push_bit_eq_mult)
  then show ?thesis using or_of_nat_disjoint[OF assms(1), of "- 1 :: u64"] by simp
qed

lemma sign_extend_big:
  assumes "64 \<le> s"
  shows "word_of_int (int v - 2 ^ s) = (of_nat v :: u64)"
proof -
  have "(2 :: u64) ^ s = 0" using assms by (simp add: exp_eq_zero_iff)
  then show ?thesis by (simp only: of_int_diff of_int_power of_int_numeral of_int_of_nat_eq) simp
qed

lemma leb_step:
  "of_nat (uleb_value ds) OR push_bit (7 * length ds) (ucast (b AND 0x7f)) = (of_nat (uleb_value (ds @ [b])) :: u64)"
  unfolding or_of_nat_disjoint[OF uleb_value_less] ucast_and_7f uleb_value_snoc
  by (simp only: of_nat_add of_nat_mult of_nat_power of_nat_numeral)

lemma leb_loop_last:
  assumes "length ds < 10" "\<not> bit b 7"
  shows "leb_loop sg (b # rest) (7 * length ds) (of_nat (uleb_value ds)) =
      Ok (if sg then word_of_int (sleb_value (ds @ [b])) else of_nat (uleb_value (ds @ [b])), rest)"
proof -
  let ?v = "uleb_value (ds @ [b])"
  let ?s = "7 * length ds + 7"
  have v: "?v < 2 ^ ?s" using uleb_value_less[of "ds @ [b]"] by (simp add: add.commute)
  have b40: "b AND 0x40 \<noteq> 0 \<longleftrightarrow> bit b 6"
    using and_exp_eq_0_iff_not_bit[of b 6] by simp
  have s: "sleb_value (ds @ [b]) = (if bit b 6 then int ?v - 2 ^ ?s else int ?v)"
    by (simp add: sleb_value_def add.commute)
  have t: "7 * length ds < 70" using assms by simp
  have "leb_loop sg (b # rest) (7 * length ds) (of_nat (uleb_value ds)) =
      Ok (if sg \<and> ?s < 64 \<and> bit b 6 then of_nat ?v OR - push_bit ?s 1 else of_nat ?v, rest)"
    using t assms(2) by (simp only: leb_loop.simps Let_def leb_step b40 word_and_80_eq_0 if_True not_False_eq_True)
  also have "(if sg \<and> ?s < 64 \<and> bit b 6 then of_nat ?v OR - push_bit ?s 1 else of_nat ?v) =
      (if sg then word_of_int (sleb_value (ds @ [b])) else of_nat ?v :: u64)"
  proof (cases "sg \<and> bit b 6")
    case True
    then show ?thesis
    proof (cases "?s < 64")
      case lt: True
      with True show ?thesis unfolding s by (simp only: sign_extend[OF v lt] simp_thms if_True)
    next
      case ge: False
      then have "64 \<le> ?s" by simp
      with True ge show ?thesis unfolding s by (simp only: sign_extend_big simp_thms if_True if_False)
    qed
  qed (auto simp: s)
  finally show ?thesis .
qed

lemma leb_loop_value:
  assumes "\<not> bit b 7"
  shows "\<forall>c \<in> set cs. bit c 7 \<Longrightarrow> length ds + length cs < 10 \<Longrightarrow>
    leb_loop sg (cs @ b # rest) (7 * length ds) (of_nat (uleb_value ds)) =
      Ok (if sg then word_of_int (sleb_value (ds @ cs @ [b])) else of_nat (uleb_value (ds @ cs @ [b])), rest)"
proof (induction cs arbitrary: ds)
  case Nil
  then show ?case using leb_loop_last[OF _ assms] by simp
next
  case (Cons c cs)
  then have "leb_loop sg ((c # cs) @ b # rest) (7 * length ds) (of_nat (uleb_value ds)) =
      leb_loop sg (cs @ b # rest) (7 * length (ds @ [c])) (of_nat (uleb_value (ds @ [c])))"
    by (simp add: Let_def leb_step add.commute)
  with Cons.IH[of "ds @ [c]"] Cons.prems show ?case by simp
qed

lemma leb_loop_too_long:
  "\<forall>c \<in> set cs. bit c 7 \<Longrightarrow> 10 \<le> k + length cs \<Longrightarrow> leb_loop sg (cs @ rest) (7 * k) ret = Exit"
proof (induction cs arbitrary: k ret)
  case Nil
  then show ?case by (cases rest) simp_all
next
  case (Cons c cs)
  from Cons.IH[of "Suc k"] Cons.prems show ?case by (auto simp: Let_def add.commute)
qed

lemma leb_loop_unterminated:
  "\<forall>c \<in> set cs. bit c 7 \<Longrightarrow> leb_loop sg cs shift ret = Exit"
  by (induction cs arbitrary: shift ret) (auto simp: Let_def)

lemma skip_leb_value:
  assumes "\<forall>c \<in> set cs. bit c 7" "\<not> bit b 7" "length cs < limit" "i \<le> length cs"
  shows "skip_leb (cs @ b # rest) i limit = Ok rest"
  using assms(4)
proof (induction "length cs - i" arbitrary: i)
  case 0
  then have "i = length cs" by simp
  with assms show ?case by (subst skip_leb.simps) (simp add: nth_append)
next
  case (Suc n)
  then have "i < length cs" by simp
  with Suc assms show ?case by (subst skip_leb.simps) (simp add: nth_append)
qed

lemma skip_leb_exit:
  "\<forall>j. i \<le> j \<and> j < limit \<longrightarrow> bit (data ! j) 7 \<Longrightarrow> skip_leb data i limit = Exit"
  by (induction data i limit rule: skip_leb.induct) (subst skip_leb.simps, auto)

lemma ReadLEB128Internal_value:
  assumes "\<forall>c \<in> set cs. bit c 7" "\<not> bit b 7" "length cs < 10"
  shows "ReadLEB128Internal sg (cs @ b # rest) =
    Ok (if sg then word_of_int (sleb_value (cs @ [b])) else of_nat (uleb_value (cs @ [b])), rest)"
  using leb_loop_value[OF assms(2,1), of "[]"] assms(3) by (simp add: ReadLEB128Internal_def)

subsection \<open>LEB128 and protobuf varints\<close>

lemma leb_loop_ParseVarInt:
  "leb_loop False data (7 * k) ret =
     (case ParseVarInt_loop data (7 * k) pos ret of
        (v, n) \<Rightarrow> if n = 0 then Exit else Ok (v, drop (n - pos) data))"
proof (induction data arbitrary: k pos ret)
  case (Cons b data)
  have k: "7 * k < 70 \<longleftrightarrow> 7 * k < 64" by auto
  have eq: "7 * k + 7 = 7 * Suc k" by simp
  show ?case
  proof (cases "7 * k < 64 \<and> bit b 7")
    case True
    let ?ret = "ret OR push_bit (7 * k) (ucast (b AND 0x7f))"
    have "\<And>v n. ParseVarInt_loop data (7 * Suc k) (Suc pos) ?ret = (v, n) \<Longrightarrow> n \<noteq> 0 \<Longrightarrow> Suc pos < n"
      using ParseVarInt_loop_bounds[of data "7 * Suc k" "Suc pos" ?ret] by auto
    then show ?thesis using True Cons.IH[of "Suc k" ?ret "Suc pos"] unfolding k
      by (auto simp: Let_def k eq drop_Cons' split: prod.splits simp del: mult_Suc_right)
  qed (auto simp: Let_def k)
qed simp

lemma ReadLEB128Internal_ParseVarInt:
  "ReadLEB128Internal False data =
     (case ParseVarInt data of (v, n) \<Rightarrow> if n = 0 then Exit else Ok (v, drop n data))"
  using leb_loop_ParseVarInt[of data 0 0 0] 
  by (simp add: ReadLEB128Internal_def ParseVarInt_def split: prod.splits)

lemma ReadLEB128_WriteVarInt [simp]:
  assumes "8 \<le> LENGTH('a)" "LENGTH('a) \<le> 64"
  shows "ReadLEB128 (WriteVarInt (v :: 'a::len word) @ rest) = Ok (v, rest)"
proof -
  have w: "WriteVarInt v = WriteVarInt (ucast v :: u64)"
    using WriteVarInt_ucast[of v, where 'b = 64] assms by simp
  have "unat v \<le> unat (- 1 :: 'a word)" by (simp add: word_le_nat_alt[symmetric])
  then have "\<not> ucast (- 1 :: 'a word) < (ucast v :: u64)"
    using assms by (simp add: word_less_nat_alt unat_ucast_up not_less)
  moreover have "(ucast (ucast v :: u64) :: 'a word) = v"
    using assms by (intro bit_word_eqI) (auto simp: bit_simps)
  ultimately show ?thesis unfolding w
    by (simp add: ReadLEB128_def ReadLEB128Internal_ParseVarInt ParseVarInt_WriteVarInt)
qed

text \<open>The signed encoding of the DWARF standard.\<close>

function sleb128 :: "int \<Rightarrow> bytes" where
  "sleb128 n =
     (let low = n mod 128; more = n div 128
      in if more = 0 \<and> low < 64 \<or> more = - 1 \<and> 64 \<le> low then [word_of_int low]
         else word_of_int (low + 128) # sleb128 more)"
  by pat_completeness auto
termination
proof (relation "measure (\<lambda>n. nat \<bar>n\<bar>)")
  fix n low more :: int
  assume d: "low = n mod 128" "more = n div 128"
    and c: "\<not> (more = 0 \<and> low < 64 \<or> more = - 1 \<and> 64 \<le> low)"
  from d c have "n \<noteq> 0" "n \<noteq> - 1" by auto
  then have "\<bar>n div 128\<bar> < \<bar>n\<bar>"
    using div_mult_mod_eq[of n 128] pos_mod_bound[of 128 n] pos_mod_sign[of 128 n] by arith
  then show "(more, n) \<in> measure (\<lambda>n. nat \<bar>n\<bar>)" using d by simp
qed simp

declare sleb128.simps [simp del]

definition leb_shaped :: "bytes \<Rightarrow> bool" where
  "leb_shaped bs \<longleftrightarrow> bs \<noteq> [] \<and> (\<forall>c \<in> set (butlast bs). bit c 7) \<and> \<not> bit (last bs) 7"

lemma leb_shaped_Cons: "leb_shaped bs \<Longrightarrow> bit c 7 \<Longrightarrow> leb_shaped (c # bs)"
  by (auto simp: leb_shaped_def)

lemma sleb_value_Cons: "bs \<noteq> [] \<Longrightarrow> sleb_value (c # bs) = int (unat (c AND 0x7f)) + 128 * sleb_value bs"
  by (simp add: sleb_value_def power_add algebra_simps)

lemma group_bits:
  assumes "0 \<le> low" "low < (128 :: int)"
  shows "unat ((word_of_int low :: u8) AND 0x7f) = nat low" "\<not> bit (word_of_int low :: u8) 7"
    "bit (word_of_int low :: u8) 6 \<longleftrightarrow> 64 \<le> low"
    "unat ((word_of_int (low + 128) :: u8) AND 0x7f) = nat low" "bit (word_of_int (low + 128) :: u8) 7"
proof -
  have all: "\<forall>n < 128. unat ((word_of_int (int n) :: u8) AND 0x7f) = n \<and> \<not> bit (word_of_int (int n) :: u8) 7 \<and>
    (bit (word_of_int (int n) :: u8) 6 \<longleftrightarrow> 64 \<le> n) \<and> unat ((word_of_int (int n + 128) :: u8) AND 0x7f) = n \<and>
    bit (word_of_int (int n + 128) :: u8) 7"
    by code_simp
  from assms obtain n where "low = int n" "n < 128" using nonneg_int_cases by (metis of_nat_less_iff of_nat_numeral)
  with all show "unat ((word_of_int low :: u8) AND 0x7f) = nat low" "\<not> bit (word_of_int low :: u8) 7"
    "bit (word_of_int low :: u8) 6 \<longleftrightarrow> 64 \<le> low"
    "unat ((word_of_int (low + 128) :: u8) AND 0x7f) = nat low" "bit (word_of_int (low + 128) :: u8) 7"
    by auto
qed

lemma sleb128_shape: "leb_shaped (sleb128 n) \<and> sleb_value (sleb128 n) = n"
proof (induction n rule: sleb128.induct)
  case (1 n)
  have low: "0 \<le> n mod 128" "n mod 128 < 128" by simp_all
  have n: "n = n mod 128 + 128 * (n div 128)" by simp
  show ?case
  proof (cases "n div 128 = 0 \<and> n mod 128 < 64 \<or> n div 128 = - 1 \<and> 64 \<le> n mod 128")
    case True
    then have "sleb128 n = [word_of_int (n mod 128)]"
      by (subst sleb128.simps) (simp only: Let_def if_True)
    moreover from True n have "n mod 128 - (if 64 \<le> n mod 128 then 128 else 0) = n"
      by (elim disjE conjE) (simp_all only: mult_zero_right, simp_all)
    ultimately show ?thesis using group_bits[OF low] by (auto simp: leb_shaped_def sleb_value_def split: if_splits)
  next
    case False
    then have "sleb128 n = word_of_int (n mod 128 + 128) # sleb128 (n div 128)"
      by (subst sleb128.simps) (simp only: Let_def if_False)
    with 1[OF refl refl False] group_bits[OF low] show ?thesis
      by (simp add: leb_shaped_Cons sleb_value_Cons leb_shaped_def)
  qed
qed

lemma div_bounds:
  fixes n P :: int
  shows "- (128 * P) \<le> n \<Longrightarrow> - P \<le> n div 128" "n < 128 * P \<Longrightarrow> n div 128 < P"
  using div_mult_mod_eq[of n 128] pos_mod_bound[of 128 n] pos_mod_sign[of 128 n] by linarith+

lemma length_sleb128: "0 < k \<Longrightarrow> - (2 ^ (7 * k - 1)) \<le> n \<Longrightarrow> n < 2 ^ (7 * k - 1) \<Longrightarrow> length (sleb128 n) \<le> k"
proof (induction n arbitrary: k rule: sleb128.induct)
  case (1 n)
  show ?case
  proof (cases "n div 128 = 0 \<and> n mod 128 < 64 \<or> n div 128 = - 1 \<and> 64 \<le> n mod 128")
    case True
    with 1 show ?thesis by (subst sleb128.simps) (simp add: Let_def)
  next
    case False
    have "k \<noteq> 1"
    proof
      assume "k = 1"
      with 1 have n: "- 64 \<le> n" "n < 64" by simp_all
      then have "n div 128 = 0 \<or> n div 128 = - 1" using div_bounds[of 1 n] by auto
      with False n show False using div_mult_mod_eq[of n 128] by auto
    qed
    with 1 obtain j where k: "k = Suc j" "0 < j" by (cases k) auto
    have p: "(2 :: int) ^ (7 * k - 1) = 128 * 2 ^ (7 * j - 1)"
      using k by (cases j) (simp_all add: power_add)
    have "- (2 ^ (7 * j - 1)) \<le> n div 128" "n div 128 < 2 ^ (7 * j - 1)"
      using 1(3,4) div_bounds[of "2 ^ (7 * j - 1)" n] unfolding p by simp_all
    from 1(1)[OF refl refl False k(2) this] show ?thesis using False k
      by (subst sleb128.simps) (simp only: Let_def if_False list.size)
  qed
qed

lemma ReadLEB128_signed_sleb128 [simp]:
  assumes "LENGTH('a) \<le> 64"
  shows "ReadLEB128_signed (sleb128 (sint (v :: 'a::len word)) @ rest) = Ok (v, rest)"
proof -
  let ?n = "sint v"
  obtain cs b where bs: "sleb128 ?n = cs @ [b]" and cs: "\<forall>c \<in> set cs. bit c 7" and b: "\<not> bit b 7"
    using sleb128_shape[of ?n] by (auto simp: leb_shaped_def) (metis append_butlast_last_id)
  have range: "- (2 ^ (LENGTH('a) - 1)) \<le> ?n" "?n < 2 ^ (LENGTH('a) - 1)"
    using sint_greater_eq[of v] sint_less[of v] by simp_all
  have "(2 :: int) ^ (LENGTH('a) - 1) \<le> 2 ^ 63" using assms by (intro power_increasing) simp_all
  with range have wide: "- (2 ^ 63) \<le> ?n" "?n < 2 ^ 63" by linarith+
  then have "length (sleb128 ?n) \<le> 10" by (intro length_sleb128) simp_all
  with bs have len: "length cs < 10" by simp
  have "sleb_value (cs @ [b]) = ?n" using sleb128_shape[of ?n] unfolding bs by simp
  with ReadLEB128Internal_value[OF cs b len, of True rest]
  have read: "ReadLEB128Internal True (sleb128 ?n @ rest) = Ok (word_of_int ?n, rest)" by (simp add: bs)
  have s: "sint (word_of_int ?n :: u64) = ?n"
    using wide by (simp only: sint_sbintrunc') (simp add: signed_take_bit_int_eq_self)
  have "(ucast (word_of_int ?n :: u64) :: 'a word) = word_of_int ?n"
    using assms by (intro bit_word_eqI) (auto simp: bit_simps)
  then have u: "(ucast (word_of_int ?n :: u64) :: 'a word) = v" by (simp only: scast_eq[symmetric] scast_id)
  from range show ?thesis unfolding ReadLEB128_signed_def read obind.simps prod.case s u by simp
qed

subsection \<open>Readers advance within the data\<close>

named_theorems advances \<open>the rest a reader leaves is a suffix of its data\<close>

lemma ReadFixed_suffix [advances]: "ReadFixed N data = Ok (v, rest) \<Longrightarrow> suffix rest data"
  by (auto simp: reads suffix_drop)

lemma ReadBytes_suffix [advances]: "ReadBytes n data = Ok (v, rest) \<Longrightarrow> suffix rest data"
  by (auto simp: reads suffix_def)

lemma SkipBytes_suffix [advances]: "SkipBytes n data = Ok rest \<Longrightarrow> suffix rest data"
  by (auto simp: reads suffix_drop)

lemma ReadNullTerminated_suffix [advances]: "ReadNullTerminated data = Ok (v, rest) \<Longrightarrow> suffix rest data"
  by (auto simp: reads suffix_def)

lemma not_suffix_Cons [simp]: "\<not> suffix (x # xs) xs"
  by (auto dest: suffix_length_le)

lemma leb_loop_suffix: "leb_loop sg data shift ret = Ok (v, rest) \<Longrightarrow> strict_suffix rest data"
proof (induction data arbitrary: shift ret)
  case (Cons b data)
  show ?case
  proof (cases "bit b 7")
    case True
    with Cons have "strict_suffix rest data" by (auto simp: Let_def split: if_splits)
    then show ?thesis by (auto simp: strict_suffix_def suffix_Cons)
  next
    case False
    with Cons.prems show ?thesis by (auto simp: Let_def strict_suffix_def suffix_Cons split: if_splits)
  qed
qed simp

lemma ReadLEB128_strict_suffix:
  "ReadLEB128 data = Ok (v, rest) \<Longrightarrow> strict_suffix rest data"
  "ReadLEB128_signed data = Ok (v, rest) \<Longrightarrow> strict_suffix rest data"
  by (auto simp: ReadLEB128_def ReadLEB128_signed_def ReadLEB128Internal_def obind_Ok_iff
      dest: leb_loop_suffix split: if_splits)

lemma ReadLEB128_suffix [advances]:
  "ReadLEB128 data = Ok (v, rest) \<Longrightarrow> suffix rest data"
  "ReadLEB128_signed data = Ok (v, rest) \<Longrightarrow> suffix rest data"
  by (auto dest: ReadLEB128_strict_suffix simp: strict_suffix_def)

lemma strict_suffix_length: "strict_suffix xs ys \<Longrightarrow> length xs < length ys"
  by (auto simp: strict_suffix_def suffix_def)

lemmas ReadLEB128_shorter = ReadLEB128_strict_suffix[THEN strict_suffix_length]

lemma ReadFixed_shorter: "ReadFixed N data = Ok (v, rest) \<Longrightarrow> 0 < N \<Longrightarrow> length rest < length data"
  by (auto simp: reads)

section \<open>Properties\<close>

text \<open>C24. LEB128 decoding is the decoding of the DWARF standard: the groups up to the first
  byte without a continuation bit are read as an unsigned or as a two's complement number, modulo
  \<open>2\<^sup>6\<^sup>4\<close>, whatever padding the encoder used; a number of more than ten bytes or without an end is
  refused, and \<^verbatim>\<open>SkipLEB128\<close> skips exactly what a read consumes.\<close>

theorem leb128_correct:
  assumes "\<forall>c \<in> set cs. bit c 7" "\<not> bit b 7"
  shows "ReadLEB128Internal False (cs @ b # rest) =
      (if length cs < 10 then Ok (of_nat (uleb_value (cs @ [b])), rest) else Exit) \<and>
    ReadLEB128Internal True (cs @ b # rest) =
      (if length cs < 10 then Ok (word_of_int (sleb_value (cs @ [b])), rest) else Exit) \<and>
    SkipLEB128 (cs @ b # rest) = (if length cs < 10 then Ok rest else Exit) \<and>
    ReadLEB128Internal sg cs = Exit \<and> SkipLEB128 cs = Exit"
proof (intro conjI)
  have long: "10 \<le> length cs \<Longrightarrow> ReadLEB128Internal sg (cs @ b # rest) = Exit" for sg
    using leb_loop_too_long[OF assms(1), of 0] by (simp add: ReadLEB128Internal_def)
  show "ReadLEB128Internal False (cs @ b # rest) =
      (if length cs < 10 then Ok (of_nat (uleb_value (cs @ [b])), rest) else Exit)"
    "ReadLEB128Internal True (cs @ b # rest) =
      (if length cs < 10 then Ok (word_of_int (sleb_value (cs @ [b])), rest) else Exit)"
    using ReadLEB128Internal_value[OF assms] long by (simp_all add: not_less)
  show "SkipLEB128 (cs @ b # rest) = (if length cs < 10 then Ok rest else Exit)"
    using skip_leb_value[OF assms, of "min (length (cs @ b # rest)) 10" 0] assms(1)
    by (auto simp: SkipLEB128_def nth_append intro!: skip_leb_exit)
  show "ReadLEB128Internal sg cs = Exit" "SkipLEB128 cs = Exit"
    using assms(1) by (auto simp: ReadLEB128Internal_def leb_loop_unterminated SkipLEB128_def
        intro!: skip_leb_exit)
qed

theorem leb128_correct_witness:
  "ReadLEB128Internal False ([0xff] @ 0x7f # [9]) = Ok (0x3fff, [9]) \<and>
   ReadLEB128Internal True ([0xff] @ 0x7f # [9]) = Ok (- 1, [9]) \<and>
   SkipLEB128 ([0xff] @ 0x7f # [9]) = Ok [9] \<and> ReadLEB128Internal True [0xff] = Exit \<and> SkipLEB128 [0xff] = Exit"
proof -
  have b: "\<forall>c \<in> set [0xff :: u8]. bit c 7" "\<not> bit (0x7f :: u8) 7"
    by code_simp+
  have v: "of_nat (uleb_value ([0xff] @ [0x7f])) = (0x3fff :: u64)"
    "word_of_int (sleb_value ([0xff] @ [0x7f])) = (- 1 :: u64)"
    by code_simp+
  have l: "length [0xff :: u8] < 10" by simp
  show ?thesis using leb128_correct[OF b, of "[9]" True] unfolding v if_P[OF l] .
qed

text \<open>Every 64-bit number survives encoding and decoding, unsigned and signed; the unsigned
  decoder of the debug-information reader is the varint decoder of protozero, byte for byte.\<close>

theorem leb128_roundtrip:
  "ReadLEB128 (WriteVarInt (v :: u64) @ rest) = Ok (v, rest) \<and>
   ReadLEB128_signed (sleb128 (sint v) @ rest) = Ok (v, rest) \<and>
   ReadLEB128Internal False data =
     (case ParseVarInt data of (v, n) \<Rightarrow> if n = 0 then Exit else Ok (v, drop n data))"
  by (simp add: ReadLEB128Internal_ParseVarInt)

end
