(* ===== verification/Dwarf_Attr.thy ===== *)
theory Dwarf_Attr
  imports Dwarf_Util
begin

text \<open>
  Attribute values of debugging information entries, \<^verbatim>\<open>src/qemu_plugin/dwarf/attr.{h,cc}\<close>, with
  what they need of \<^verbatim>\<open>debug_info.h\<close>: the sections of a file, the sizes of a compilation unit, and
  the unit itself. The callback for indirect strings only observes them and is left out.
\<close>

section \<open>Model\<close>

subsection \<open>Forms\<close>

datatype DwarfForm =
    DW_FORM_addr | DW_FORM_block2 | DW_FORM_block4 | DW_FORM_data2 | DW_FORM_data4 | DW_FORM_data8
  | DW_FORM_string | DW_FORM_block | DW_FORM_block1 | DW_FORM_data1 | DW_FORM_flag | DW_FORM_sdata
  | DW_FORM_strp | DW_FORM_udata | DW_FORM_ref_addr | DW_FORM_ref1 | DW_FORM_ref2 | DW_FORM_ref4
  | DW_FORM_ref8 | DW_FORM_ref_udata | DW_FORM_indirect | DW_FORM_sec_offset | DW_FORM_exprloc
  | DW_FORM_flag_present | DW_FORM_strx | DW_FORM_addrx | DW_FORM_ref_sup4 | DW_FORM_strp_sup
  | DW_FORM_data16 | DW_FORM_line_strp | DW_FORM_ref_sig8 | DW_FORM_implicit_const | DW_FORM_loclistx
  | DW_FORM_rnglistx | DW_FORM_ref_sup8 | DW_FORM_strx1 | DW_FORM_strx2 | DW_FORM_strx3 | DW_FORM_strx4
  | DW_FORM_addrx1 | DW_FORM_addrx2 | DW_FORM_addrx3 | DW_FORM_addrx4 | DW_FORM_GNU_addr_index
  | DW_FORM_GNU_str_index

definition form_table :: "(DwarfForm \<times> u16) list" where
  "form_table =
    [(DW_FORM_addr, 0x01), (DW_FORM_block2, 0x03), (DW_FORM_block4, 0x04), (DW_FORM_data2, 0x05),
     (DW_FORM_data4, 0x06), (DW_FORM_data8, 0x07), (DW_FORM_string, 0x08), (DW_FORM_block, 0x09),
     (DW_FORM_block1, 0x0a), (DW_FORM_data1, 0x0b), (DW_FORM_flag, 0x0c), (DW_FORM_sdata, 0x0d),
     (DW_FORM_strp, 0x0e), (DW_FORM_udata, 0x0f), (DW_FORM_ref_addr, 0x10), (DW_FORM_ref1, 0x11),
     (DW_FORM_ref2, 0x12), (DW_FORM_ref4, 0x13), (DW_FORM_ref8, 0x14), (DW_FORM_ref_udata, 0x15),
     (DW_FORM_indirect, 0x16), (DW_FORM_sec_offset, 0x17), (DW_FORM_exprloc, 0x18),
     (DW_FORM_flag_present, 0x19), (DW_FORM_strx, 0x1a), (DW_FORM_addrx, 0x1b), (DW_FORM_ref_sup4, 0x1c),
     (DW_FORM_strp_sup, 0x1d), (DW_FORM_data16, 0x1e), (DW_FORM_line_strp, 0x1f), (DW_FORM_ref_sig8, 0x20),
     (DW_FORM_implicit_const, 0x21), (DW_FORM_loclistx, 0x22), (DW_FORM_rnglistx, 0x23),
     (DW_FORM_ref_sup8, 0x24), (DW_FORM_strx1, 0x25), (DW_FORM_strx2, 0x26), (DW_FORM_strx3, 0x27),
     (DW_FORM_strx4, 0x28), (DW_FORM_addrx1, 0x29), (DW_FORM_addrx2, 0x2a), (DW_FORM_addrx3, 0x2b),
     (DW_FORM_addrx4, 0x2c), (DW_FORM_GNU_addr_index, 0x1f01), (DW_FORM_GNU_str_index, 0x1f02)]"

definition DwarfForm_of :: "u16 \<Rightarrow> DwarfForm option" where
  "DwarfForm_of code = map_of (map (\<lambda>(f, c). (c, f)) form_table) code"

subsection \<open>Files and units\<close>

record File =
  debug_abbrev :: bytes
  debug_addr :: bytes
  debug_aranges :: bytes
  debug_info :: bytes
  debug_line :: bytes
  debug_loc :: bytes
  debug_pubnames :: bytes
  debug_pubtypes :: bytes
  debug_ranges :: bytes
  debug_rnglists :: bytes
  debug_str :: bytes
  debug_str_offsets :: bytes
  debug_line_str :: bytes
  debug_types :: bytes

record CompilationUnitSizes =
  dwarf_version :: u16
  dwarf64 :: bool
  addr8 :: bool

definition address_size :: "CompilationUnitSizes \<Rightarrow> u8" where
  "address_size sz = (if addr8 sz then 8 else 4)"

definition SetAddressSize :: "u8 \<Rightarrow> CompilationUnitSizes \<Rightarrow> CompilationUnitSizes outcome" where
  "SetAddressSize a sz = (if a \<noteq> 4 \<and> a \<noteq> 8 then Exit else Ok (sz\<lparr>addr8 := (a = 8)\<rparr>))"

definition ReadDWARFOffset :: "CompilationUnitSizes \<Rightarrow> bytes \<Rightarrow> (u64 \<times> bytes) outcome" where
  "ReadDWARFOffset sz data = (if dwarf64 sz then ReadFixed 8 data else ReadFixed 4 data)"

definition ReadAddress :: "CompilationUnitSizes \<Rightarrow> bytes \<Rightarrow> (u64 \<times> bytes) outcome" where
  "ReadAddress sz data = (if addr8 sz then ReadFixed 8 data else ReadFixed 4 data)"

definition MaxAddress :: "CompilationUnitSizes \<Rightarrow> u64" where
  "MaxAddress sz = (if addr8 sz then 0xffffffffffffffff else 0xffffffff)"

definition ReadDWARFVersion :: "CompilationUnitSizes \<Rightarrow> bytes \<Rightarrow> (CompilationUnitSizes \<times> bytes) outcome" where
  "ReadDWARFVersion sz data = obind (ReadFixed 2 data) (\<lambda>(v, data). Ok (sz\<lparr>dwarf_version := v\<rparr>, data))"

text \<open>The unit, the remaining data, and the sizes with the format the length announced.\<close>

definition ReadInitialLength ::
    "CompilationUnitSizes \<Rightarrow> bytes \<Rightarrow> (bytes \<times> bytes \<times> CompilationUnitSizes) outcome" where
  "ReadInitialLength sz remaining =
     obind (ReadFixed 4 remaining :: (u64 \<times> bytes) outcome) (\<lambda>(len, remaining).
     obind (if len = 0xffffffff
            then obind (ReadFixed 8 remaining :: (u64 \<times> bytes) outcome) (\<lambda>(len, remaining).
                   Ok (len, remaining, sz\<lparr>dwarf64 := True\<rparr>))
            else Ok (len, remaining, sz\<lparr>dwarf64 := False\<rparr>)) (\<lambda>(len, remaining, sz).
       if length remaining < unat len then Exit
       else Ok (take (unat len) remaining, drop (unat len) remaining, sz)))"

text \<open>An abbreviation, and the table of a unit, keyed by code.\<close>

record Abbrev =
  ab_code :: u32
  ab_tag :: u16
  ab_has_child :: bool
  ab_attr :: "(u16 \<times> u16) list"

record AbbrevTable =
  abbrev_entries :: "(u32 \<times> Abbrev) list"
  abbrev_data :: bytes

text \<open>Of the unit a split unit belongs to, the reader uses the file, the base of its addresses, and
  its identifier. A unit's \<^verbatim>\<open>skeleton_\<close> is not set before the first header has been read.\<close>

record SkeletonCU =
  sk_dwarf :: File
  sk_addr_base :: u64
  sk_dwo_id :: u64

datatype SkeletonRef = Uninitialized | This | Other SkeletonCU

record CU =
  cu_dwarf :: File
  entire_unit :: bytes
  cu_data :: bytes
  unit_sizes :: CompilationUnitSizes
  unit_abbrev :: AbbrevTable
  unit_type :: u8
  dwo_id :: u64
  skeleton :: SkeletonRef
  unit_type_signature :: u64
  unit_type_offset :: u64
  unit_name :: bytes
  addr_base :: u64
  str_offsets_base :: u64
  range_lists_base :: u64

definition empty_File :: File where
  "empty_File = \<lparr>debug_abbrev = [], debug_addr = [], debug_aranges = [], debug_info = [], debug_line = [],
     debug_loc = [], debug_pubnames = [], debug_pubtypes = [], debug_ranges = [], debug_rnglists = [],
     debug_str = [], debug_str_offsets = [], debug_line_str = [], debug_types = []\<rparr>"

text \<open>A unit as it is declared: the bases are zero; the other members hold placeholders until the
  first header is read, except for \<open>skeleton\<close>, which is read before it is set.\<close>

definition new_CU :: CU where
  "new_CU = \<lparr>cu_dwarf = empty_File, entire_unit = [], cu_data = [],
     unit_sizes = \<lparr>dwarf_version = 0, dwarf64 = False, addr8 = False\<rparr>,
     unit_abbrev = \<lparr>abbrev_entries = [], abbrev_data = []\<rparr>, unit_type = 0, dwo_id = 0,
     skeleton = Uninitialized, unit_type_signature = 0, unit_type_offset = 0, unit_name = [],
     addr_base = 0, str_offsets_base = 0, range_lists_base = 0\<rparr>"

definition ReadIndirectAddress :: "CU \<Rightarrow> u64 \<Rightarrow> u64 outcome" where
  "ReadIndirectAddress cu val =
     obind (case skeleton cu of
              Uninitialized \<Rightarrow> Undef
            | This \<Rightarrow> Ok (debug_addr (cu_dwarf cu), addr_base cu)
            | Other sk \<Rightarrow> Ok (debug_addr (sk_dwarf sk), sk_addr_base sk)) (\<lambda>(addrs, base).
       if address_size (unit_sizes cu) = 4
       then obind (SkipBytes (val * 4 + base) addrs) (\<lambda>addrs. obind (ReadFixed 4 addrs) (\<lambda>(v, _). Ok v))
       else obind (SkipBytes (val * 8 + base) addrs) (\<lambda>addrs. obind (ReadFixed 8 addrs) (\<lambda>(v, _). Ok v)))"

subsection \<open>Attribute values\<close>

datatype AttrData = AUint u64 | AString bytes | AUnresolvedUint u64 | AUnresolvedString u64

record AttrValue =
  av_form :: DwarfForm
  av_data :: AttrData

definition IsUint :: "AttrValue \<Rightarrow> bool" where
  "IsUint v = (case av_data v of AUint _ \<Rightarrow> True | AUnresolvedUint _ \<Rightarrow> True | _ \<Rightarrow> False)"

definition IsString :: "AttrValue \<Rightarrow> bool" where
  "IsString v = (case av_data v of AString _ \<Rightarrow> True | AUnresolvedString _ \<Rightarrow> True | _ \<Rightarrow> False)"

definition ResolveIndirectString :: "CU \<Rightarrow> u64 \<Rightarrow> bytes outcome" where
  "ResolveIndirectString cu ofs = ReadDebugStrEntry (debug_str (cu_dwarf cu)) ofs"

definition ResolveIndirectLineString :: "CU \<Rightarrow> u64 \<Rightarrow> bytes outcome" where
  "ResolveIndirectLineString cu ofs = ReadDebugStrEntry (debug_line_str (cu_dwarf cu)) ofs"

definition ResolveDoubleIndirectString :: "CU \<Rightarrow> u64 \<Rightarrow> bytes outcome" where
  "ResolveDoubleIndirectString cu ofs =
     (let offsets = debug_str_offsets (cu_dwarf cu) in
      obind (if dwarf64 (unit_sizes cu)
             then obind (SkipBytes (ofs * 8 + str_offsets_base cu) offsets) (ReadFixed 8)
             else obind (SkipBytes (ofs * 4 + str_offsets_base cu) offsets) (ReadFixed 4)) (\<lambda>(ofs2, _).
        ReadDebugStrEntry (debug_str (cu_dwarf cu)) ofs2))"

definition GetUint :: "CU \<Rightarrow> AttrValue \<Rightarrow> u64 outcome" where
  "GetUint cu v =
     (case av_data v of
        AUnresolvedUint u \<Rightarrow> ReadIndirectAddress cu u
      | AUint u \<Rightarrow> if av_form v = DW_FORM_implicit_const then Undef else Ok u
      | _ \<Rightarrow> Undef)"

definition GetString :: "CU \<Rightarrow> AttrValue \<Rightarrow> bytes outcome" where
  "GetString cu v =
     (case av_data v of
        AUnresolvedString u \<Rightarrow> ResolveDoubleIndirectString cu u
      | AString s \<Rightarrow> Ok s
      | _ \<Rightarrow> Undef)"

definition ToUint :: "CU \<Rightarrow> AttrValue \<Rightarrow> u64 option outcome" where
  "ToUint cu v =
     (if av_form v = DW_FORM_implicit_const then Ok None
      else if IsUint v then obind (GetUint cu v) (\<lambda>u. Ok (Some u))
      else obind (GetString cu v) (\<lambda>str.
             if length str \<in> {1, 2, 4, 8}
             then obind (ReadFixed (length str) str) (\<lambda>(u, _). Ok (Some u)) else Ok None))"

definition ReadBlock :: "nat \<Rightarrow> bytes \<Rightarrow> (bytes \<times> bytes) outcome" where
  "ReadBlock D data = obind (ReadFixed D data) (\<lambda>(len, data). ReadBytes len data)"

definition ReadVariableBlock :: "bytes \<Rightarrow> (bytes \<times> bytes) outcome" where
  "ReadVariableBlock data = obind (ReadLEB128 data) (\<lambda>(len, data). ReadBytes len data)"

definition ReadIndirectString :: "nat \<Rightarrow> CU \<Rightarrow> bytes \<Rightarrow> (bytes \<times> bytes) outcome" where
  "ReadIndirectString D cu data =
     obind (ReadFixed D data) (\<lambda>(ofs, data). obind (ResolveIndirectString cu ofs) (\<lambda>s. Ok (s, data)))"

definition ReadIndirectLineString :: "nat \<Rightarrow> CU \<Rightarrow> bytes \<Rightarrow> (bytes \<times> bytes) outcome" where
  "ReadIndirectLineString D cu data =
     obind (ReadFixed D data) (\<lambda>(ofs, data). obind (ResolveIndirectLineString cu ofs) (\<lambda>s. Ok (s, data)))"

text \<open>The constructors of \<^verbatim>\<open>AttrValue\<close> applied to what a reader returns.\<close>

definition make_attr :: "DwarfForm \<Rightarrow> ('a \<Rightarrow> AttrData) \<Rightarrow> ('a \<times> bytes) outcome \<Rightarrow> (AttrValue \<times> bytes) outcome" where
  "make_attr form con m = obind m (\<lambda>(v, data). Ok (\<lparr>av_form = form, av_data = con v\<rparr>, data))"

text \<open>The \<^verbatim>\<open>switch\<close> of \<^verbatim>\<open>ParseAttr\<close>; its \<^verbatim>\<open>goto address_size\<close> and its fall-through are written out.
  \<open>DW_FORM_indirect\<close> is handled before it.\<close>

definition ParseForm :: "CU \<Rightarrow> DwarfForm \<Rightarrow> bytes \<Rightarrow> (AttrValue \<times> bytes) outcome" where
  "ParseForm cu form data =
     (let sec_offset = make_attr form AUint (if dwarf64 (unit_sizes cu) then ReadFixed 8 data else ReadFixed 4 data);
          addr = make_attr form AUint
            (if address_size (unit_sizes cu) = 4 then ReadFixed 4 data else ReadFixed 8 data)
      in case form of
           DW_FORM_ref1 \<Rightarrow> make_attr form AUint (ReadFixed 1 data)
         | DW_FORM_ref2 \<Rightarrow> make_attr form AUint (ReadFixed 2 data)
         | DW_FORM_ref4 \<Rightarrow> make_attr form AUint (ReadFixed 4 data)
         | DW_FORM_ref_sig8 \<Rightarrow> make_attr form AUint (ReadFixed 8 data)
         | DW_FORM_ref8 \<Rightarrow> make_attr form AUint (ReadFixed 8 data)
         | DW_FORM_ref_udata \<Rightarrow> make_attr form AUnresolvedString (ReadFixed 1 data)
         | DW_FORM_strx1 \<Rightarrow> make_attr form AUnresolvedString (ReadFixed 1 data)
         | DW_FORM_strx2 \<Rightarrow> make_attr form AUnresolvedString (ReadFixed 2 data)
         | DW_FORM_strx3 \<Rightarrow> make_attr form AUnresolvedString (ReadFixed 3 data)
         | DW_FORM_strx4 \<Rightarrow> make_attr form AUnresolvedString (ReadFixed 4 data)
         | DW_FORM_strx \<Rightarrow> make_attr form AUnresolvedString (ReadLEB128 data)
         | DW_FORM_GNU_str_index \<Rightarrow> make_attr form AUnresolvedString (ReadLEB128 data)
         | DW_FORM_addrx1 \<Rightarrow> make_attr form AUnresolvedUint (ReadFixed 1 data)
         | DW_FORM_addrx2 \<Rightarrow> make_attr form AUnresolvedUint (ReadFixed 2 data)
         | DW_FORM_addrx3 \<Rightarrow> make_attr form AUnresolvedUint (ReadFixed 3 data)
         | DW_FORM_addrx4 \<Rightarrow> make_attr form AUnresolvedUint (ReadFixed 4 data)
         | DW_FORM_addrx \<Rightarrow> make_attr form AUnresolvedUint (ReadLEB128 data)
         | DW_FORM_GNU_addr_index \<Rightarrow> make_attr form AUnresolvedUint (ReadLEB128 data)
         | DW_FORM_addr \<Rightarrow> addr
         | DW_FORM_ref_addr \<Rightarrow> if dwarf_version (unit_sizes cu) \<le> 2 then addr else sec_offset
         | DW_FORM_sec_offset \<Rightarrow> sec_offset
         | DW_FORM_udata \<Rightarrow> make_attr form AUint (ReadLEB128 data)
         | DW_FORM_block1 \<Rightarrow> make_attr form AString (ReadBlock 1 data)
         | DW_FORM_block2 \<Rightarrow> make_attr form AString (ReadBlock 2 data)
         | DW_FORM_block4 \<Rightarrow> make_attr form AString (ReadBlock 4 data)
         | DW_FORM_block \<Rightarrow> make_attr form AString (ReadVariableBlock data)
         | DW_FORM_exprloc \<Rightarrow> make_attr form AString (ReadVariableBlock data)
         | DW_FORM_string \<Rightarrow> make_attr form AString (ReadNullTerminated data)
         | DW_FORM_strp \<Rightarrow> make_attr form AString (ReadIndirectString (if dwarf64 (unit_sizes cu) then 8 else 4) cu data)
         | DW_FORM_line_strp \<Rightarrow>
             make_attr form AString (ReadIndirectLineString (if dwarf64 (unit_sizes cu) then 8 else 4) cu data)
         | DW_FORM_data1 \<Rightarrow> make_attr form AString (ReadBytes 1 data)
         | DW_FORM_data2 \<Rightarrow> make_attr form AString (ReadBytes 2 data)
         | DW_FORM_data4 \<Rightarrow> make_attr form AString (ReadBytes 4 data)
         | DW_FORM_data8 \<Rightarrow> make_attr form AString (ReadBytes 8 data)
         | DW_FORM_data16 \<Rightarrow> make_attr form AString (ReadBytes 16 data)
         | DW_FORM_loclistx \<Rightarrow> make_attr form AUint (ReadLEB128 data)
         | DW_FORM_rnglistx \<Rightarrow> make_attr form AUint (ReadLEB128 data)
         | DW_FORM_flag_present \<Rightarrow> make_attr form AUint (Ok (1, data))
         | DW_FORM_flag \<Rightarrow> make_attr form AUint (ReadFixed 1 data)
         | DW_FORM_sdata \<Rightarrow> make_attr form AUint (ReadLEB128 data)
         | DW_FORM_implicit_const \<Rightarrow> make_attr form AUint (Ok (1, data))
         | _ \<Rightarrow> Exit)"

definition ParseAttr :: "CU \<Rightarrow> u16 \<Rightarrow> bytes \<Rightarrow> (AttrValue \<times> bytes) outcome" where
  "ParseAttr cu form data =
     (case DwarfForm_of form of
        None \<Rightarrow> Exit
      | Some DW_FORM_indirect \<Rightarrow>
          obind (ReadLEB128 data) (\<lambda>(indirect_form, data).
            case DwarfForm_of indirect_form of
              None \<Rightarrow> Exit
            | Some f \<Rightarrow> if f = DW_FORM_indirect then Exit else ParseForm cu f data)
      | Some f \<Rightarrow> ParseForm cu f data)"

section \<open>Reading attributes\<close>

lemma make_attr_Ok [reads]:
  "make_attr form con m = Ok (v, rest) \<longleftrightarrow> (\<exists>x. m = Ok (x, rest) \<and> v = \<lparr>av_form = form, av_data = con x\<rparr>)"
  by (auto simp: make_attr_def obind_Ok_iff)

lemma make_attr_defined [simp]: "make_attr form con m = Undef \<longleftrightarrow> m = Undef"
  by (cases m) (auto simp: make_attr_def)

lemma attr_readers_defined [defined, simp]:
  "ReadBlock D data \<noteq> Undef" "ReadVariableBlock data \<noteq> Undef" "ReadIndirectString D cu data \<noteq> Undef"
  "ReadIndirectLineString D cu data \<noteq> Undef" "ResolveDoubleIndirectString cu ofs \<noteq> Undef"
  "ReadDWARFOffset sz data \<noteq> Undef" "ReadAddress sz data \<noteq> Undef" "ReadDWARFVersion sz data \<noteq> Undef"
  "SetAddressSize a sz \<noteq> Undef" "ReadInitialLength sz data \<noteq> Undef"
  by (auto simp: ReadBlock_def ReadVariableBlock_def ReadIndirectString_def ReadIndirectLineString_def
      ResolveIndirectString_def ResolveIndirectLineString_def ResolveDoubleIndirectString_def ReadDWARFOffset_def
      ReadAddress_def ReadDWARFVersion_def SetAddressSize_def ReadInitialLength_def Let_def obind_eq_Undef
      split: if_splits prod.splits)

lemma attr_readers_suffix [advances]:
  "ReadBlock D data = Ok (s, rest) \<Longrightarrow> suffix rest data"
  "ReadVariableBlock data = Ok (s, rest) \<Longrightarrow> suffix rest data"
  "ReadIndirectString D cu data = Ok (s, rest) \<Longrightarrow> suffix rest data"
  "ReadIndirectLineString D cu data = Ok (s, rest) \<Longrightarrow> suffix rest data"
  "ReadDWARFOffset sz data = Ok (v, rest) \<Longrightarrow> suffix rest data"
  "ReadAddress sz data = Ok (v, rest) \<Longrightarrow> suffix rest data"
  by (auto simp: ReadBlock_def ReadVariableBlock_def ReadIndirectString_def ReadIndirectLineString_def
      ReadDWARFOffset_def ReadAddress_def obind_Ok_iff split: if_splits dest!: advances intro: suffix_order.trans)

text \<open>Which member of the union a form fills.\<close>

definition string_forms :: "DwarfForm set" where
  "string_forms = {DW_FORM_block1, DW_FORM_block2, DW_FORM_block4, DW_FORM_block, DW_FORM_exprloc,
     DW_FORM_string, DW_FORM_strp, DW_FORM_line_strp, DW_FORM_data1, DW_FORM_data2, DW_FORM_data4,
     DW_FORM_data8, DW_FORM_data16}"

definition indexed_string_forms :: "DwarfForm set" where
  "indexed_string_forms = {DW_FORM_ref_udata, DW_FORM_strx1, DW_FORM_strx2, DW_FORM_strx3, DW_FORM_strx4,
     DW_FORM_strx, DW_FORM_GNU_str_index}"

definition indexed_address_forms :: "DwarfForm set" where
  "indexed_address_forms = {DW_FORM_addrx1, DW_FORM_addrx2, DW_FORM_addrx3, DW_FORM_addrx4, DW_FORM_addrx,
     DW_FORM_GNU_addr_index}"

fun attr_typed :: "AttrValue \<Rightarrow> bool" where
  "attr_typed v \<longleftrightarrow>
     (case av_data v of
        AString _ \<Rightarrow> av_form v \<in> string_forms
      | AUnresolvedString _ \<Rightarrow> av_form v \<in> indexed_string_forms
      | AUnresolvedUint _ \<Rightarrow> av_form v \<in> indexed_address_forms
      | AUint _ \<Rightarrow> av_form v \<notin> string_forms \<union> indexed_string_forms \<union> indexed_address_forms)"

lemmas form_sets = string_forms_def indexed_string_forms_def indexed_address_forms_def

lemma ParseForm_defined [simp]: "ParseForm cu form data \<noteq> Undef"
  by (cases form) (simp_all add: ParseForm_def Let_def)

lemma ParseForm_form: "ParseForm cu form data = Ok (v, rest) \<Longrightarrow> av_form v = form"
  by (cases form) (auto simp: ParseForm_def Let_def make_attr_Ok split: if_splits)

lemma ParseForm_typed: "ParseForm cu form data = Ok (v, rest) \<Longrightarrow> attr_typed v"
  by (cases form) (auto simp: ParseForm_def Let_def make_attr_Ok form_sets split: if_splits)

lemma ParseForm_suffix: "ParseForm cu form data = Ok (v, rest) \<Longrightarrow> suffix rest data"
  by (cases form) (auto simp: ParseForm_def Let_def make_attr_Ok split: if_splits dest: advances)

lemma ParseAttr_cases:
  assumes "ParseAttr cu form data = Ok (v, rest)"
  obtains f d where "ParseForm cu f d = Ok (v, rest)" "suffix d data" "f \<noteq> DW_FORM_indirect"
    "DwarfForm_of form = Some f \<or> DwarfForm_of form = Some DW_FORM_indirect"
proof (cases "DwarfForm_of form")
  case (Some f)
  then show thesis
  proof (cases "f = DW_FORM_indirect")
    case True
    with assms Some obtain indirect d f' where "ReadLEB128 data = Ok (indirect :: u16, d)"
        "DwarfForm_of indirect = Some f'" "f' \<noteq> DW_FORM_indirect" "ParseForm cu f' d = Ok (v, rest)"
      by (auto simp: ParseAttr_def obind_Ok_iff split: option.splits if_splits)
    with True Some show thesis by (auto intro: that dest: advances)
  next
    case False
    with assms Some have "ParseForm cu f data = Ok (v, rest)"
      by (cases f) (simp_all add: ParseAttr_def)
    with False Some show thesis by (auto intro: that)
  qed
qed (use assms in \<open>simp add: ParseAttr_def\<close>)

lemma ParseAttr_defined [defined, simp]: "ParseAttr cu form data \<noteq> Undef"
proof (cases "DwarfForm_of form")
  case (Some f)
  then show ?thesis
    by (cases f) (auto simp: ParseAttr_def obind_eq_Undef split: option.splits)
qed (simp add: ParseAttr_def)

lemma ParseAttr_suffix [advances]: "ParseAttr cu form data = Ok (v, rest) \<Longrightarrow> suffix rest data"
  by (elim ParseAttr_cases) (auto dest: ParseForm_suffix intro: suffix_order.trans)

lemma ParseAttr_typed: "ParseAttr cu form data = Ok (v, rest) \<Longrightarrow> attr_typed v"
  by (elim ParseAttr_cases) (rule ParseForm_typed)

subsection \<open>Using a value\<close>

lemma ReadIndirectAddress_defined: "skeleton cu \<noteq> Uninitialized \<Longrightarrow> ReadIndirectAddress cu u \<noteq> Undef"
  by (auto simp: ReadIndirectAddress_def obind_eq_Undef split: SkeletonRef.splits if_splits)

lemma GetUint_defined:
  "attr_typed v \<Longrightarrow> IsUint v \<Longrightarrow> av_form v \<noteq> DW_FORM_implicit_const \<Longrightarrow>
   skeleton cu \<noteq> Uninitialized \<or> av_form v \<notin> indexed_address_forms \<Longrightarrow> GetUint cu v \<noteq> Undef"
  by (auto simp: GetUint_def IsUint_def ReadIndirectAddress_defined split: AttrData.splits)

lemma GetString_defined: "IsString v \<Longrightarrow> GetString cu v \<noteq> Undef"
  by (auto simp: GetString_def IsString_def split: AttrData.splits)

lemma IsUint_iff_not_IsString: "IsUint v \<longleftrightarrow> \<not> IsString v"
  by (auto simp: IsUint_def IsString_def split: AttrData.splits)

lemma ToUint_defined:
  "attr_typed v \<Longrightarrow> skeleton cu \<noteq> Uninitialized \<or> av_form v \<notin> indexed_address_forms \<Longrightarrow> ToUint cu v \<noteq> Undef"
  using GetUint_defined[of v cu] GetString_defined[of v cu]
  by (auto simp: ToUint_def obind_eq_Undef IsUint_iff_not_IsString split: if_splits prod.splits)

section \<open>Encodings of constants\<close>

text \<open>A constant in the form a producer may choose for it, by the DWARF standard; \<open>None\<close> when the
  form is not one for constants or is too narrow.\<close>

definition enc_const :: "CompilationUnitSizes \<Rightarrow> DwarfForm \<Rightarrow> u64 \<Rightarrow> bytes option" where
  "enc_const sz form u =
     (let fixed = (\<lambda>n. if unat u < 2 ^ (8 * n) then Some (le_bytes n u) else None)
      in if form \<in> {DW_FORM_data1, DW_FORM_ref1, DW_FORM_flag} then fixed 1
         else if form \<in> {DW_FORM_data2, DW_FORM_ref2} then fixed 2
         else if form \<in> {DW_FORM_data4, DW_FORM_ref4} then fixed 4
         else if form \<in> {DW_FORM_data8, DW_FORM_ref8, DW_FORM_ref_sig8} then fixed 8
         else if form = DW_FORM_sec_offset then fixed (if dwarf64 sz then 8 else 4)
         else if form = DW_FORM_addr then fixed (if addr8 sz then 8 else 4)
         else if form \<in> {DW_FORM_udata, DW_FORM_loclistx, DW_FORM_rnglistx} then Some (WriteVarInt u)
         else None)"

lemma le_word_fixed: "unat (u :: u64) < 2 ^ (8 * n) \<Longrightarrow> le_word (le_bytes n u) = u"
proof -
  assume "unat u < 2 ^ (8 * n)"
  then have "take_bit (8 * n) u = u"
    by (intro bit_word_eqI) (auto simp: bit_take_bit_iff dest: bit_imp_less_exp)
  then show ?thesis by (simp add: le_word_le_bytes)
qed

lemma ReadFixed_fixed: "unat (u :: u64) < 2 ^ (8 * n) \<Longrightarrow> ReadFixed n (le_bytes n u @ rest) = Ok (u, rest)"
  by (simp add: ReadFixed_def le_word_fixed)

lemma ReadBytes_fixed: "unat k = n \<Longrightarrow> ReadBytes k (le_bytes n (u :: u64) @ rest) = Ok (le_bytes n u, rest)"
  by (simp add: ReadBytes_Ok_iff)

lemma ParseForm_const:
  assumes "enc_const (unit_sizes cu) form u = Some bs"
  shows "\<exists>v. ParseForm cu form (bs @ rest) = Ok (v, rest) \<and> av_form v = form \<and> ToUint cu v = Ok (Some u)"
proof -
  have string: "ToUint cu \<lparr>av_form = form, av_data = AString (le_bytes n u)\<rparr> = Ok (Some u)"
    if "n \<in> {1, 2, 4, 8}" "unat u < 2 ^ (8 * n)" "form \<noteq> DW_FORM_implicit_const" for n
    using that by (auto simp: ToUint_def IsUint_def GetString_def ReadFixed_def le_word_fixed)
  have uint: "ToUint cu \<lparr>av_form = form, av_data = AUint u\<rparr> = Ok (Some u)" if "form \<noteq> DW_FORM_implicit_const"
    using that by (simp add: ToUint_def IsUint_def GetUint_def)
  have bytes: "ReadBytes k (le_bytes n u @ rest) = Ok (le_bytes n u, rest)" if "unat k = n" for k n
    using that by (rule ReadBytes_fixed)
  have fixed: "ReadFixed n (le_bytes n u @ rest) = Ok (u, rest)" if "unat u < 2 ^ (8 * n)" for n
    using that by (rule ReadFixed_fixed)
  have leb: "ReadLEB128 (WriteVarInt u @ rest) = Ok (u, rest)" by simp
  show ?thesis using assms string[of 1] string[of 2] string[of 4] string[of 8] uint bytes[of 1 1] bytes[of 2 2]
      bytes[of 4 4] bytes[of 8 8] fixed[of 1] fixed[of 2] fixed[of 4] fixed[of 8] leb
    by (cases form)
      (auto simp: enc_const_def ParseForm_def Let_def make_attr_def address_size_def split: if_splits)
qed

section \<open>Properties\<close>





text \<open>A reference of the form \<^verbatim>\<open>DW_FORM_ref_udata\<close>, which the DWARF standard encodes as an unsigned
  LEB128 number, is parsed by the case of \<^verbatim>\<open>DW_FORM_strx1\<close> below it: the value becomes the index of
  a string, and for references from 128 on the rest of the number is left in the data.\<close>

theorem ref_udata_misread:
  assumes "DwarfForm_of code = Some DW_FORM_ref_udata" "ParseAttr cu code (WriteVarInt (u :: u64) @ rest) = Ok (v, data)"
  shows "\<not> IsUint v \<and> (128 \<le> unat u \<longrightarrow> data = WriteVarInt (drop_bit 7 u) @ rest)"
proof -
  from assms have "ParseForm cu DW_FORM_ref_udata (WriteVarInt u @ rest) = Ok (v, data)"
    by (simp add: ParseAttr_def)
  then obtain x where x: "ReadFixed 1 (WriteVarInt u @ rest) = Ok (x, data)"
      and v: "v = \<lparr>av_form = DW_FORM_ref_udata, av_data = AUnresolvedString x\<rparr>"
    by (auto simp: ParseForm_def make_attr_Ok)
  from x have "data = drop 1 (WriteVarInt u @ rest)" by (simp add: ReadFixed_Ok_iff)
  with v show ?thesis by (auto simp: IsUint_def WriteVarInt_large)
qed

theorem ref_udata_misread_witness:
  "\<not> IsUint \<lparr>av_form = DW_FORM_ref_udata, av_data = AUnresolvedString 0x80\<rparr>"
proof -
  have w: "WriteVarInt (128 :: u64) = [0x80, 1]" by code_simp
  have "DwarfForm_of 0x15 = Some DW_FORM_ref_udata" by code_simp
  moreover have "ParseAttr new_CU 0x15 (WriteVarInt (128 :: u64) @ [7]) =
      Ok (\<lparr>av_form = DW_FORM_ref_udata, av_data = AUnresolvedString 0x80\<rparr>, [1, 7])"
    unfolding w by code_simp
  ultimately show ?thesis using ref_udata_misread by blast
qed

end
