(* ===== verification/Debug_Info.thy ===== *)
theory Debug_Info
  imports Dwarf_Attr
begin

text \<open>
  Compilation units and their entries, \<^verbatim>\<open>src/qemu_plugin/dwarf/debug_info.{h,cc}\<close>: abbreviation
  tables, the iteration over units, their headers, and the reader of debugging information entries.
  Objects the code updates through references are passed in and returned.
\<close>

section \<open>Model\<close>

subsection \<open>Abbreviation tables\<close>

definition IsEmpty :: "AbbrevTable \<Rightarrow> bool" where
  "IsEmpty t = (abbrev_entries t = [])"

definition GetAbbrev :: "u32 \<Rightarrow> AbbrevTable \<Rightarrow> Abbrev option" where
  "GetAbbrev code t = map_of (abbrev_entries t) code"

text \<open>The inner loop of \<^verbatim>\<open>ReadAbbrevs\<close>: names and forms up to a pair of zeros.\<close>

function read_abbrev_attrs :: "bytes \<Rightarrow> (u16 \<times> u16) list \<Rightarrow> ((u16 \<times> u16) list \<times> bytes) outcome" where
  "read_abbrev_attrs data attrs =
     obind (ReadLEB128 data :: (u16 \<times> bytes) outcome) (\<lambda>(name, data1).
     obind (ReadLEB128 data1 :: (u16 \<times> bytes) outcome) (\<lambda>(form, data2).
       if name = 0 \<and> form = 0 then Ok (attrs, data2)
       else obind (if DwarfForm_of form = Some DW_FORM_implicit_const
                   then obind (ReadLEB128_signed data2 :: (u64 \<times> bytes) outcome) (\<lambda>(_, d). Ok d)
                   else Ok data2) (\<lambda>data3.
              read_abbrev_attrs data3 (attrs @ [(name, form)]))))"
  by pat_completeness auto
termination
  by (relation "measure (\<lambda>(data, _). length data)")
    (auto simp: obind_Ok_iff split: if_splits dest!: ReadLEB128_shorter)

declare read_abbrev_attrs.simps [simp del]

lemma read_abbrev_attrs_shorter:
  "read_abbrev_attrs data attrs = Ok (r, rest) \<Longrightarrow> strict_suffix rest data"
proof (induction data attrs rule: read_abbrev_attrs.induct)
  case (1 data attrs)
  from "1.prems" obtain name form data1 data2 where
      r1: "ReadLEB128 data = Ok (name :: u16, data1)" and r2: "ReadLEB128 data1 = Ok (form :: u16, data2)"
    by (subst (asm) read_abbrev_attrs.simps) (auto simp: obind_Ok_iff)
  have s: "strict_suffix data2 data"
    using ReadLEB128_strict_suffix(1)[OF r2] ReadLEB128_strict_suffix(1)[OF r1] by (rule suffix_order.less_trans)
  show ?case
  proof (cases "name = 0 \<and> form = 0")
    case True
    with "1.prems" r1 r2 s show ?thesis by (subst (asm) read_abbrev_attrs.simps) (simp add: obind_Ok_iff)
  next
    case False
    let ?skip = "if DwarfForm_of form = Some DW_FORM_implicit_const
      then obind (ReadLEB128_signed data2 :: (u64 \<times> bytes) outcome) (\<lambda>(_, d). Ok d) else Ok data2"
    from "1.prems" r1 r2 False obtain data3 where sk: "?skip = Ok data3"
        and rec: "read_abbrev_attrs data3 (attrs @ [(name, form)]) = Ok (r, rest)"
      by (subst (asm) read_abbrev_attrs.simps) (auto simp: obind_Ok_iff simp del: not_None_eq)
    from sk have "suffix data3 data2" by (auto simp: obind_Ok_iff split: if_splits dest: advances)
    from this s have "strict_suffix data3 data" by (rule suffix_order.le_less_trans)
    with "1.IH"[OF r1 refl r2 refl False sk rec] show ?thesis by (rule suffix_order.less_trans)
  qed
qed

text \<open>The outer loop; \<^verbatim>\<open>abbrev_[code]\<close> finds an entry exactly when the code was seen before.\<close>

function read_abbrevs :: "bytes \<Rightarrow> (u32 \<times> Abbrev) list \<Rightarrow> ((u32 \<times> Abbrev) list \<times> bytes) outcome" where
  "read_abbrevs data entries =
     obind (ReadLEB128 data :: (u32 \<times> bytes) outcome) (\<lambda>(code, data1).
       if code = 0 then Ok (entries, data1)
       else if map_of entries code \<noteq> None then Exit
       else
         obind (ReadLEB128 data1 :: (u16 \<times> bytes) outcome) (\<lambda>(tag, data2).
         obind (ReadFixed 1 data2 :: (u8 \<times> bytes) outcome) (\<lambda>(has_child, data3).
         obind (if has_child = 1 then Ok True else if has_child = 0 then Ok False else Exit) (\<lambda>child.
         obind (read_abbrev_attrs data3 []) (\<lambda>(attrs, data4).
           read_abbrevs data4
             (entries @ [(code, \<lparr>ab_code = code, ab_tag = tag, ab_has_child = child, ab_attr = attrs\<rparr>)]))))))"
  by pat_completeness auto
termination
  by (relation "measure (\<lambda>(data, _). length data)")
    (auto dest!: ReadLEB128_shorter ReadFixed_suffix read_abbrev_attrs_shorter strict_suffix_length suffix_length_le)

declare read_abbrevs.simps [simp del]

definition ReadAbbrevs :: "bytes \<Rightarrow> AbbrevTable \<Rightarrow> AbbrevTable outcome" where
  "ReadAbbrevs data t =
     obind (read_abbrevs data (abbrev_entries t)) (\<lambda>(entries, rest).
       Ok \<lparr>abbrev_entries = entries, abbrev_data = take (length data - length rest) data\<rparr>)"

subsection \<open>Reading entries\<close>

record DIEReader =
  die_remaining :: bytes
  die_depth :: int

definition GetDIEReader :: "CU \<Rightarrow> DIEReader" where
  "GetDIEReader cu = \<lparr>die_remaining = cu_data cu, die_depth = 0\<rparr>"

fun skip_null :: "bytes \<Rightarrow> int \<Rightarrow> bytes \<times> int" where
  "skip_null [] depth = ([], depth)"
| "skip_null (b # remaining) depth = (if b = 0 then skip_null remaining (depth - 1) else (b # remaining, depth))"

definition SkipNullEntries :: "DIEReader \<Rightarrow> DIEReader" where
  "SkipNullEntries r =
     (let (rem, depth) = skip_null (die_remaining r) (die_depth r) in \<lparr>die_remaining = rem, die_depth = depth\<rparr>)"

text \<open>\<open>None\<close> is the null pointer that ends the iteration.\<close>

definition ReadCode :: "CU \<Rightarrow> DIEReader \<Rightarrow> (Abbrev option \<times> DIEReader) outcome" where
  "ReadCode cu r =
     (let r = SkipNullEntries r in
      if die_remaining r = [] then Ok (None, r)
      else obind (ReadLEB128 (die_remaining r)) (\<lambda>(code, rem).
             case GetAbbrev code (unit_abbrev cu) of
               None \<Rightarrow> Exit
             | Some ret \<Rightarrow>
                 Ok (Some ret, \<lparr>die_remaining = rem,
                                die_depth = (if ab_has_child ret then die_depth r + 1 else die_depth r)\<rparr>)))"

text \<open>\<^verbatim>\<open>ReadAttributes\<close> calls \<open>func\<close> for each attribute. The function may change the unit the
  attributes are read for, so the unit is taken from the state \<open>func\<close> works on.\<close>

fun ReadAttributes ::
    "('s \<Rightarrow> CU) \<Rightarrow> (u16 \<times> u16) list \<Rightarrow> (u16 \<Rightarrow> AttrValue \<Rightarrow> 's \<Rightarrow> 's outcome) \<Rightarrow> 's \<Rightarrow> bytes \<Rightarrow> ('s \<times> bytes) outcome" where
  "ReadAttributes the_cu [] func s data = Ok (s, data)"
| "ReadAttributes the_cu ((name, form) # attrs) func s data =
     obind (ParseAttr (the_cu s) form data) (\<lambda>(value, data).
     obind (func name value s) (\<lambda>s. ReadAttributes the_cu attrs func s data))"

text \<open>The loop of \<^verbatim>\<open>ReadChildren\<close>. Its function may move the reader, so the loop need not end:
  \<open>None\<close>.\<close>

partial_function (option) children_loop ::
    "CU \<Rightarrow> int \<Rightarrow> (Abbrev \<Rightarrow> 's \<times> DIEReader \<Rightarrow> ('s \<times> DIEReader) outcome) \<Rightarrow> 's \<times> DIEReader \<Rightarrow>
       ('s \<times> DIEReader) outcome option" where
  "children_loop cu target_depth f st =
     (let (s, r) = st in
      if target_depth < die_depth r then
        (case ReadCode cu r of
           Ok (None, r) \<Rightarrow> Some (Ok (s, r))
         | Ok (Some abbrev, r) \<Rightarrow>
             (case f abbrev (s, r) of
                Ok (s, r) \<Rightarrow> children_loop cu target_depth f (s, SkipNullEntries r)
              | Exit \<Rightarrow> Some Exit | Undef \<Rightarrow> Some Undef)
         | Exit \<Rightarrow> Some Exit | Undef \<Rightarrow> Some Undef)
      else Some (Ok (s, r)))"

definition ReadChildren ::
    "CU \<Rightarrow> Abbrev \<Rightarrow> (Abbrev \<Rightarrow> 's \<times> DIEReader \<Rightarrow> ('s \<times> DIEReader) outcome) \<Rightarrow> 's \<times> DIEReader \<Rightarrow>
       ('s \<times> DIEReader) outcome option" where
  "ReadChildren cu abbrev f st =
     (if \<not> ab_has_child abbrev then Some (Ok st)
      else children_loop cu (die_depth (snd st) - 1) f (fst st, SkipNullEntries (snd st)))"

subsection \<open>Units\<close>

datatype InfoSection = kDebugInfo | kDebugTypes

record InfoReader =
  ir_dwarf :: File
  ir_skeleton :: "SkeletonCU option"
  stmt_list_map :: "u64 \<Rightarrow> bytes option"
  abbrev_tables :: "u64 \<Rightarrow> AbbrevTable option"

definition new_InfoReader :: "File \<Rightarrow> SkeletonCU option \<Rightarrow> InfoReader" where
  "new_InfoReader file sk =
     \<lparr>ir_dwarf = file, ir_skeleton = sk, stmt_list_map = (\<lambda>_. None), abbrev_tables = (\<lambda>_. None)\<rparr>"

record CUIter =
  cui_section :: InfoSection
  next_unit :: bytes

definition GetCUIter :: "InfoReader \<Rightarrow> InfoSection \<Rightarrow> u64 \<Rightarrow> CUIter outcome" where
  "GetCUIter reader section offset =
     (let data = (if section = kDebugInfo then debug_info (ir_dwarf reader) else debug_types (ir_dwarf reader))
      in obind (SkipBytes offset data) (\<lambda>data. Ok \<lparr>cui_section = section, next_unit = data\<rparr>))"

abbreviation DW_AT_name :: u16 where "DW_AT_name \<equiv> 0x03"
abbreviation DW_AT_stmt_list :: u16 where "DW_AT_stmt_list \<equiv> 0x10"
abbreviation DW_AT_str_offsets_base :: u16 where "DW_AT_str_offsets_base \<equiv> 0x72"
abbreviation DW_AT_addr_base :: u16 where "DW_AT_addr_base \<equiv> 0x73"
abbreviation DW_AT_rnglists_base :: u16 where "DW_AT_rnglists_base \<equiv> 0x74"
abbreviation DW_AT_GNU_dwo_id :: u16 where "DW_AT_GNU_dwo_id \<equiv> 0x2131"
abbreviation DW_AT_GNU_addr_base :: u16 where "DW_AT_GNU_addr_base \<equiv> 0x2133"

text \<open>The function \<^verbatim>\<open>ReadTopLevelDIE\<close> calls for each attribute of the root entry: it works on the unit
  and on the offset of the line program, if it saw one.\<close>

definition top_level_attr :: "u16 \<Rightarrow> AttrValue \<Rightarrow> CU \<times> u64 option \<Rightarrow> (CU \<times> u64 option) outcome" where
  "top_level_attr tag v st =
     (let (cu, stmt_list) = st in
      if tag = DW_AT_name then
        (if IsString v then obind (GetString cu v) (\<lambda>s. Ok (cu\<lparr>unit_name := s\<rparr>, stmt_list)) else Ok st)
      else if tag = DW_AT_stmt_list then
        (if av_form v = DW_FORM_sec_offset then obind (GetUint cu v) (\<lambda>u. Ok (cu, Some u)) else Ok st)
      else if tag = DW_AT_addr_base \<or> tag = DW_AT_GNU_addr_base then
        (if av_form v = DW_FORM_sec_offset
         then obind (GetUint cu v) (\<lambda>u. Ok (cu\<lparr>addr_base := u\<rparr>, stmt_list)) else Ok st)
      else if tag = DW_AT_str_offsets_base then
        (if av_form v = DW_FORM_sec_offset
         then obind (GetUint cu v) (\<lambda>u. Ok (cu\<lparr>str_offsets_base := u\<rparr>, stmt_list)) else Ok st)
      else if tag = DW_AT_rnglists_base then
        (if av_form v = DW_FORM_sec_offset
         then obind (GetUint cu v) (\<lambda>u. Ok (cu\<lparr>range_lists_base := u\<rparr>, stmt_list)) else Ok st)
      else if tag = DW_AT_GNU_dwo_id then
        (if IsUint v then obind (GetUint cu v) (\<lambda>u. Ok (cu\<lparr>dwo_id := u\<rparr>, stmt_list)) else Ok st)
      else Ok st)"

text \<open>A unit without entries makes \<^verbatim>\<open>ReadCode\<close> return a null pointer, which \<^verbatim>\<open>ReadAttributes\<close> follows.\<close>

definition ReadTopLevelDIE :: "InfoReader \<Rightarrow> CU \<Rightarrow> (InfoReader \<times> CU) outcome" where
  "ReadTopLevelDIE reader cu =
     obind (ReadCode cu (GetDIEReader cu)) (\<lambda>(abbrev, r).
       case abbrev of
         None \<Rightarrow> Undef
       | Some ab \<Rightarrow>
           obind (ReadAttributes fst (ab_attr ab) top_level_attr (cu\<lparr>unit_name := []\<rparr>, None) (die_remaining r))
             (\<lambda>((cu, stmt_list), _).
               case stmt_list of
                 None \<Rightarrow> Ok (reader, cu)
               | Some ofs \<Rightarrow>
                   if unit_name cu = []
                   then (case stmt_list_map reader ofs of
                           Some name \<Rightarrow> Ok (reader, cu\<lparr>unit_name := name\<rparr>)
                         | None \<Rightarrow> Ok (reader, cu))
                   else Ok (reader\<lparr>stmt_list_map := (stmt_list_map reader)(ofs \<mapsto> unit_name cu)\<rparr>, cu)))"

text \<open>What follows the version in the header of a unit: the offset of its abbreviations, and the unit
  with the sizes, the type and the identifiers its header gives.\<close>

definition header_v5 :: "CU \<Rightarrow> bytes \<Rightarrow> (u64 \<times> CU \<times> bytes) outcome" where
  "header_v5 cu data =
     obind (ReadFixed 1 data :: (u8 \<times> bytes) outcome) (\<lambda>(ut, data).
     obind (ReadFixed 1 data :: (u8 \<times> bytes) outcome) (\<lambda>(asz, data).
     obind (SetAddressSize asz (unit_sizes cu)) (\<lambda>sz.
     obind (ReadDWARFOffset sz data) (\<lambda>(ofs, data).
       let cu = cu\<lparr>unit_type := ut, unit_sizes := sz\<rparr> in
       if ut \<in> {0x04, 0x05, 0x06}
       then obind (ReadFixed 8 data) (\<lambda>(i, data). Ok (ofs, cu\<lparr>dwo_id := i\<rparr>, data))
       else if ut = 0x02
       then obind (ReadFixed 8 data) (\<lambda>(sig, data). obind (ReadDWARFOffset sz data) (\<lambda>(o2, data).
              Ok (ofs, cu\<lparr>unit_type_signature := sig, unit_type_offset := o2\<rparr>, data)))
       else Ok (ofs, cu, data)))))"

definition header_v4 :: "InfoSection \<Rightarrow> CU \<Rightarrow> bytes \<Rightarrow> (u64 \<times> CU \<times> bytes) outcome" where
  "header_v4 section cu data =
     obind (ReadDWARFOffset (unit_sizes cu) data) (\<lambda>(ofs, data).
     obind (ReadFixed 1 data :: (u8 \<times> bytes) outcome) (\<lambda>(asz, data).
     obind (SetAddressSize asz (unit_sizes cu)) (\<lambda>sz.
       let cu = cu\<lparr>unit_sizes := sz\<rparr> in
       if section = kDebugTypes
       then obind (ReadFixed 8 data) (\<lambda>(sig, data). obind (ReadDWARFOffset sz data) (\<lambda>(o2, data).
              Ok (ofs, cu\<lparr>unit_type_signature := sig, unit_type_offset := o2\<rparr>, data)))
       else Ok (ofs, cu, data))))"

text \<open>The abbreviations at an offset, read on first use and cached in the reader.\<close>

definition abbrevs_at :: "InfoReader \<Rightarrow> u64 \<Rightarrow> (InfoReader \<times> AbbrevTable) outcome" where
  "abbrevs_at reader ofs =
     (let t = (case abbrev_tables reader ofs of Some t \<Rightarrow> t | None \<Rightarrow> \<lparr>abbrev_entries = [], abbrev_data = []\<rparr>)
      in obind (if IsEmpty t
                then obind (SkipBytes ofs (debug_abbrev (ir_dwarf reader))) (\<lambda>data. ReadAbbrevs data t)
                else Ok t) (\<lambda>t. Ok (reader\<lparr>abbrev_tables := (abbrev_tables reader)(ofs \<mapsto> t)\<rparr>, t)))"

definition ReadHeader :: "bytes \<Rightarrow> bytes \<Rightarrow> InfoSection \<Rightarrow> InfoReader \<Rightarrow> CU \<Rightarrow> (InfoReader \<times> CU) outcome" where
  "ReadHeader entire data section reader cu =
     obind (ReadDWARFVersion (unit_sizes cu) data) (\<lambda>(sz, data).
       let cu = cu\<lparr>entire_unit := entire, cu_dwarf := ir_dwarf reader, dwo_id := 0, unit_sizes := sz\<rparr> in
       if 5 < dwarf_version sz then Exit
       else
         obind (if dwarf_version sz = 5 then header_v5 cu data else header_v4 section cu data) (\<lambda>(ofs, cu, data).
         obind (abbrevs_at reader ofs) (\<lambda>(reader, t).
         obind (ReadTopLevelDIE reader (cu\<lparr>unit_abbrev := t, cu_data := data\<rparr>)) (\<lambda>(reader, cu).
           Ok (reader, cu\<lparr>skeleton :=
                 (case ir_skeleton reader of
                    Some sk \<Rightarrow> if sk_dwo_id sk = dwo_id cu then Other sk else This
                  | None \<Rightarrow> This)\<rparr>)))))"

text \<open>\<open>None\<close>: there is no further unit.\<close>

definition NextCU :: "CUIter \<Rightarrow> InfoReader \<Rightarrow> CU \<Rightarrow> (CUIter \<times> InfoReader \<times> CU) option outcome" where
  "NextCU it reader cu =
     (if next_unit it = [] then Ok None
      else
        obind (ReadInitialLength (unit_sizes cu) (next_unit it)) (\<lambda>(data, rest, sz).
          let entire = take (length (next_unit it) - length rest) (next_unit it) in
          obind (ReadHeader entire data (cui_section it) reader (cu\<lparr>unit_sizes := sz\<rparr>)) (\<lambda>(reader, cu).
            Ok (Some (it\<lparr>next_unit := rest\<rparr>, reader, cu)))))"

section \<open>Abbreviation tables\<close>

text \<open>An abbreviation table as a producer writes it, by the DWARF standard. An attribute of the form
  \<^verbatim>\<open>DW_FORM_implicit_const\<close> is followed by its constant.\<close>

type_synonym abbrev_attr = "(u16 \<times> u16) \<times> u64"

definition enc_attr :: "abbrev_attr \<Rightarrow> bytes" where
  "enc_attr a = WriteVarInt (fst (fst a)) @ WriteVarInt (snd (fst a)) @
     (if DwarfForm_of (snd (fst a)) = Some DW_FORM_implicit_const then sleb128 (sint (snd a)) else [])"

definition enc_abbrev :: "u32 \<times> u16 \<times> bool \<times> abbrev_attr list \<Rightarrow> bytes" where
  "enc_abbrev = (\<lambda>(code, tag, child, attrs).
     WriteVarInt code @ WriteVarInt tag @ [if child then 1 else 0] @ concat (map enc_attr attrs) @ [0, 0])"

definition enc_abbrevs :: "(u32 \<times> u16 \<times> bool \<times> abbrev_attr list) list \<Rightarrow> bytes" where
  "enc_abbrevs abl = concat (map enc_abbrev abl) @ [0]"

definition abbrev_entry :: "u32 \<times> u16 \<times> bool \<times> abbrev_attr list \<Rightarrow> u32 \<times> Abbrev" where
  "abbrev_entry = (\<lambda>(code, tag, child, attrs).
     (code, \<lparr>ab_code = code, ab_tag = tag, ab_has_child = child, ab_attr = map fst attrs\<rparr>))"

lemma WriteVarInt_0: "WriteVarInt (0 :: 'a::len word) = [0]"
  by (simp add: WriteVarInt_small)

lemma ReadLEB128_0 [simp]:
  "8 \<le> LENGTH('a) \<Longrightarrow> LENGTH('a) \<le> 64 \<Longrightarrow> ReadLEB128 (0 # rest) = Ok (0 :: 'a::len word, rest)"
  using ReadLEB128_WriteVarInt[where v = "0 :: 'a word" and rest = rest] by (simp add: WriteVarInt_0)

lemma read_abbrev_attrs_enc:
  assumes "\<forall>a \<in> set attrs. fst a \<noteq> (0, 0)"
  shows "read_abbrev_attrs (concat (map enc_attr attrs) @ 0 # 0 # rest) acc = Ok (acc @ map fst attrs, rest)"
  using assms
proof (induction attrs arbitrary: acc)
  case Nil
  then show ?case by (subst read_abbrev_attrs.simps) simp
next
  case (Cons a attrs)
  obtain n f u where a: "a = ((n, f), u)" by (cases a) auto
  with Cons.prems have "\<not> (n = 0 \<and> f = 0)" by simp
  moreover have "enc_attr a = WriteVarInt n @ WriteVarInt f @
      (if DwarfForm_of f = Some DW_FORM_implicit_const then sleb128 (sint u) else [])"
    by (simp add: a enc_attr_def)
  ultimately show ?case using Cons.IH[of "acc @ [(n, f)]"] Cons.prems a
    by (subst read_abbrev_attrs.simps) simp
qed

lemma ReadFixed_Cons [simp]: "ReadFixed (Suc 0) (b # rest) = Ok (ucast b :: 'a::len word, rest)"
  by (simp add: ReadFixed_def)

lemma read_abbrevs_enc:
  assumes "\<forall>(code, tag, child, attrs) \<in> set abl. code \<noteq> 0 \<and> (\<forall>a \<in> set attrs. fst a \<noteq> (0, 0))"
    "distinct (map fst abl)" "fst ` set abl \<inter> dom (map_of acc) = {}"
  shows "read_abbrevs (enc_abbrevs abl @ rest) acc = Ok (acc @ map abbrev_entry abl, rest)"
  using assms
proof (induction abl arbitrary: acc)
  case Nil
  then show ?case by (subst read_abbrevs.simps) (simp add: enc_abbrevs_def)
next
  case (Cons x abl)
  obtain code tag child attrs where x: "x = (code, tag, child, attrs)" by (cases x) auto
  let ?e = "abbrev_entry x"
  from Cons.prems x have new: "code \<noteq> 0" "map_of acc code = None" "\<forall>a \<in> set attrs. fst a \<noteq> (0, 0)" by auto
  have "read_abbrevs (enc_abbrevs (x # abl) @ rest) acc = read_abbrevs (enc_abbrevs abl @ rest) (acc @ [?e])"
    using new read_abbrev_attrs_enc[OF new(3), of "enc_abbrevs abl @ rest" "[]"]
    by (subst read_abbrevs.simps) (simp add: x enc_abbrevs_def enc_abbrev_def abbrev_entry_def)
  also have "\<dots> = Ok ((acc @ [?e]) @ map abbrev_entry abl, rest)"
  proof (rule Cons.IH)
    show "fst ` set abl \<inter> dom (map_of (acc @ [?e])) = {}"
      using Cons.prems x by (auto simp: abbrev_entry_def dom_map_of_conv_image_fst)
  qed (use Cons.prems in auto)
  finally show ?case by simp
qed

section \<open>Entries\<close>

lemma skip_null_eq:
  "skip_null data depth = (dropWhile (\<lambda>b. b = 0) data, depth - int (length (takeWhile (\<lambda>b. b = 0) data)))"
  by (induction data depth rule: skip_null.induct) auto

lemma SkipNullEntries_remaining [simp]: "die_remaining (SkipNullEntries r) = dropWhile (\<lambda>b. b = 0) (die_remaining r)"
  by (simp add: SkipNullEntries_def skip_null_eq)

lemma ReadCode_defined [defined, simp]: "ReadCode cu r \<noteq> Undef"
  by (auto simp: ReadCode_def Let_def obind_eq_Undef split: option.splits)

lemma ReadCode_None_iff:
  "(\<exists>r'. ReadCode cu r = Ok (None, r')) \<longleftrightarrow> (\<forall>b \<in> set (die_remaining r). b = 0)"
proof -
  have "dropWhile (\<lambda>b. b = 0) (die_remaining r) = [] \<longleftrightarrow> (\<forall>b \<in> set (die_remaining r). b = 0)" by auto
  then show ?thesis by (auto simp: ReadCode_def Let_def obind_Ok_iff split: option.splits)
qed

lemma suffix_dropWhile_self: "suffix (dropWhile P xs) xs"
  by (simp add: suffix_dropWhile)

lemma ReadCode_shorter:
  assumes "ReadCode cu r = Ok (Some ab, r')"
  shows "strict_suffix (die_remaining r') (die_remaining r)"
proof -
  from assms obtain code where
      "ReadLEB128 (die_remaining (SkipNullEntries r)) = Ok (code :: u32, die_remaining r')"
    by (auto simp: ReadCode_def Let_def obind_Ok_iff split: option.splits if_splits)
  from ReadLEB128_strict_suffix(1)[OF this] show ?thesis
    using suffix_dropWhile_self suffix_order.less_le_trans by fastforce
qed

lemma ReadAttributes_suffix:
  "ReadAttributes the_cu attrs func s data = Ok (s', rest) \<Longrightarrow> suffix rest data"
proof (induction attrs arbitrary: s data)
  case (Cons a attrs)
  obtain name form where a: "a = (name, form)" by fastforce
  from Cons.prems obtain v d s1 where "ParseAttr (the_cu s) form data = Ok (v, d)"
      "ReadAttributes the_cu attrs func s1 d = Ok (s', rest)"
    by (auto simp: a obind_Ok_iff)
  from Cons.IH[OF this(2)] ParseAttr_suffix[OF this(1)] show ?case by (rule suffix_order.trans)
qed simp

text \<open>A function that is defined on well-typed values makes the whole run defined.\<close>

lemma ReadAttributes_defined:
  assumes "\<And>tag v s. tag \<in> fst ` set attrs \<Longrightarrow> attr_typed v \<Longrightarrow> func tag v s \<noteq> Undef"
  shows "ReadAttributes the_cu attrs func s data \<noteq> Undef"
  using assms
proof (induction attrs arbitrary: s data)
  case (Cons a attrs)
  obtain name form where a: "a = (name, form)" by fastforce
  have IH: "ReadAttributes the_cu attrs func s d \<noteq> Undef" for s d by (rule Cons.IH) (simp add: Cons.prems)
  have "func name v s \<noteq> Undef" if "ParseAttr (the_cu s) form data = Ok (v, d)" for v d
    by (rule Cons.prems) (simp_all only: ParseAttr_typed[OF that] a, simp)
  then show ?case using IH by (auto simp: a obind_eq_Undef)
qed simp

lemma ReadAttributes_invariant:
  assumes "\<And>tag v s s'. P s \<Longrightarrow> func tag v s = Ok s' \<Longrightarrow> P s'"
  shows "P s \<Longrightarrow> ReadAttributes the_cu attrs func s data = Ok (s', rest) \<Longrightarrow> P s'"
proof (induction attrs arbitrary: s data)
  case (Cons a attrs)
  obtain name form where a: "a = (name, form)" by fastforce
  from Cons.prems(2) obtain v d s1 where "func name v s = Ok s1"
      "ReadAttributes the_cu attrs func s1 d = Ok (s', rest)"
    by (auto simp: a obind_Ok_iff)
  with Cons.IH assms[OF Cons.prems(1)] show ?case by blast
qed simp

section \<open>Units\<close>

lemma top_level_attr_keeps:
  assumes "top_level_attr tag v (cu, sl) = Ok (cu', sl')"
  shows "skeleton cu' = skeleton cu" "entire_unit cu' = entire_unit cu"
  using assms by (auto simp: top_level_attr_def obind_Ok_iff split: if_splits)

lemma GetUint_sec_offset: "attr_typed v \<Longrightarrow> av_form v = DW_FORM_sec_offset \<Longrightarrow> GetUint cu v \<noteq> Undef"
  by (auto simp: GetUint_def form_sets split: AttrData.splits)

lemma top_level_attr_defined:
  assumes "tag \<noteq> DW_AT_GNU_dwo_id" "attr_typed v"
  shows "top_level_attr tag v st \<noteq> Undef"
  using assms GetUint_sec_offset[of v "fst st"] GetString_defined[of v "fst st"]
  by (auto simp: top_level_attr_def obind_eq_Undef simp del: attr_typed.simps split: prod.splits if_splits)

lemma ReadTopLevelDIE_keeps:
  assumes "ReadTopLevelDIE reader cu = Ok (reader', cu')"
  shows "entire_unit cu' = entire_unit cu" "ir_dwarf reader' = ir_dwarf reader"
proof -
  from assms obtain ab r where rc: "ReadCode cu (GetDIEReader cu) = Ok (Some ab, r)"
    by (auto simp: ReadTopLevelDIE_def obind_Ok_iff split: option.splits)
  from assms rc obtain cu1 sl rest where
      attrs: "ReadAttributes fst (ab_attr ab) top_level_attr (cu\<lparr>unit_name := []\<rparr>, None) (die_remaining r) = Ok ((cu1, sl), rest)"
    by (auto simp: ReadTopLevelDIE_def obind_Ok_iff)
  have "entire_unit (fst (cu1, sl)) = entire_unit cu"
    by (rule ReadAttributes_invariant[where P = "\<lambda>s. entire_unit (fst s) = entire_unit cu", OF _ _ attrs])
      (auto dest: top_level_attr_keeps(2))
  with assms rc attrs show "entire_unit cu' = entire_unit cu" "ir_dwarf reader' = ir_dwarf reader"
    by (auto simp: ReadTopLevelDIE_def split: option.splits if_splits)
qed

lemma header_keeps:
  "header_v5 cu data = Ok (ofs, cu', data') \<Longrightarrow> entire_unit cu' = entire_unit cu"
  "header_v4 sec cu data = Ok (ofs, cu', data') \<Longrightarrow> entire_unit cu' = entire_unit cu"
  by (auto simp: header_v5_def header_v4_def Let_def obind_Ok_iff split: if_splits)

lemma ReadHeader_keeps:
  assumes "ReadHeader entire data sec reader cu = Ok (reader', cu')"
  shows "entire_unit cu' = entire"
  using assms
  by (auto simp: ReadHeader_def Let_def obind_Ok_iff split: if_splits
      dest!: header_keeps ReadTopLevelDIE_keeps(1))

lemma ReadInitialLength_Ok:
  assumes "ReadInitialLength sz data = Ok (unit, rest, sz')"
  shows "suffix rest data" "length rest < length data"
  using assms by (auto simp: ReadInitialLength_def obind_Ok_iff ReadFixed_Ok_iff suffix_drop split: if_splits)

lemma NextCU_Ok:
  assumes "NextCU it reader cu = Ok (Some (it', reader', cu'))"
  shows "next_unit it = entire_unit cu' @ next_unit it'" "entire_unit cu' \<noteq> []"
proof -
  from assms obtain unit sz where len: "ReadInitialLength (unit_sizes cu) (next_unit it) = Ok (unit, next_unit it', sz)"
      and h: "ReadHeader (take (length (next_unit it) - length (next_unit it')) (next_unit it)) unit
        (cui_section it) reader (cu\<lparr>unit_sizes := sz\<rparr>) = Ok (reader', cu')"
    by (auto simp: NextCU_def Let_def obind_Ok_iff split: if_splits)
  from ReadInitialLength_Ok[OF len] ReadHeader_keeps[OF h]
  show "next_unit it = entire_unit cu' @ next_unit it'" "entire_unit cu' \<noteq> []"
    by (auto simp: suffix_def)
qed

lemma NextCU_shorter:
  "NextCU it reader cu = Ok (Some (it', reader', cu')) \<Longrightarrow> length (next_unit it') < length (next_unit it)"
  using NextCU_Ok[of it reader cu it' reader' cu'] by simp

text \<open>The loop \<^verbatim>\<open>while (iter.NextCU(reader, &cu))\<close> that the class documents, collecting the units.\<close>

function all_units :: "CUIter \<Rightarrow> InfoReader \<Rightarrow> CU \<Rightarrow> CU list outcome" where
  "all_units it reader cu =
     obind (NextCU it reader cu) (\<lambda>n.
       case n of
         None \<Rightarrow> Ok []
       | Some (it, reader, cu) \<Rightarrow> obind (all_units it reader cu) (\<lambda>cus. Ok (cu # cus)))"
  by pat_completeness auto
termination
  by (relation "measure (\<lambda>(it, _). length (next_unit it))") (auto dest!: NextCU_shorter)

declare all_units.simps [simp del]

lemma all_units_concat: "all_units it reader cu = Ok cus \<Longrightarrow> concat (map entire_unit cus) = next_unit it"
proof (induction it reader cu arbitrary: cus rule: all_units.induct)
  case (1 it reader cu)
  from "1.prems" obtain n where n: "NextCU it reader cu = Ok n"
    by (subst (asm) all_units.simps) (auto simp: obind_Ok_iff)
  show ?case
  proof (cases n)
    case None
    with n have "next_unit it = []" by (auto simp: NextCU_def Let_def obind_Ok_iff split: if_splits)
    with None n "1.prems" show ?thesis by (subst (asm) all_units.simps) simp
  next
    case (Some x)
    obtain it' reader' cu' where x: "x = (it', reader', cu')" by (cases x) auto
    with Some n "1.prems" obtain cus' where "all_units it' reader' cu' = Ok cus'" "cus = cu' # cus'"
      by (subst (asm) all_units.simps) (auto simp: obind_Ok_iff)
    with "1.IH"[OF n Some x[symmetric] refl] NextCU_Ok(1)[of it reader cu it' reader' cu'] n Some x show ?thesis by simp
  qed
qed

section \<open>A small file\<close>

text \<open>One unit of version 4 with one entry: its name, by index, and the base of its string offsets.\<close>

definition sample_file :: File where
  "sample_file = empty_File\<lparr>
     debug_abbrev := [1, 0x11, 0, 0x03, 0x25, 0x72, 0x17, 0, 0, 0],
     debug_info := [13, 0, 0, 0, 4, 0, 0, 0, 0, 0, 8, 1, 0, 8, 0, 0, 0],
     debug_str := [0x61, 0x62, 0, 0x63, 0x64, 0],
     debug_str_offsets := [3, 0, 0, 0, 0, 0, 0, 0, 0, 0, 0, 0]\<rparr>"

definition sample_iter :: CUIter where
  "sample_iter = \<lparr>cui_section = kDebugInfo, next_unit = debug_info sample_file\<rparr>"

section \<open>Properties\<close>

text \<open>C29. Abbreviation tables: a table written by the DWARF standard, with distinct codes, is read back
  in full, implicit constants skipped, reading stops behind it, and each code finds its abbreviation.\<close>

theorem abbrevs_roundtrip:
  assumes "\<forall>(code, tag, child, attrs) \<in> set abl. code \<noteq> 0 \<and> (\<forall>a \<in> set attrs. fst a \<noteq> (0, 0))"
    "distinct (map fst abl)"
  shows "ReadAbbrevs (enc_abbrevs abl @ rest) \<lparr>abbrev_entries = [], abbrev_data = []\<rparr> =
      Ok \<lparr>abbrev_entries = map abbrev_entry abl, abbrev_data = enc_abbrevs abl\<rparr> \<and>
    (\<forall>x \<in> set abl. GetAbbrev (fst x) \<lparr>abbrev_entries = map abbrev_entry abl, abbrev_data = enc_abbrevs abl\<rparr> =
      Some (snd (abbrev_entry x)))"
proof (intro conjI ballI)
  show "ReadAbbrevs (enc_abbrevs abl @ rest) \<lparr>abbrev_entries = [], abbrev_data = []\<rparr> =
      Ok \<lparr>abbrev_entries = map abbrev_entry abl, abbrev_data = enc_abbrevs abl\<rparr>"
    using read_abbrevs_enc[OF assms, of "[]" rest] by (simp add: ReadAbbrevs_def)
  fix x assume x: "x \<in> set abl"
  have fst: "fst (abbrev_entry y) = fst y" for y by (simp add: abbrev_entry_def split: prod.splits)
  then have "map fst (map abbrev_entry abl) = map fst abl" by simp
  with assms(2) have "distinct (map fst (map abbrev_entry abl))" by (simp only:)
  moreover from x have "(fst x, snd (abbrev_entry x)) \<in> set (map abbrev_entry abl)"
    by (metis fst image_eqI list.set_map prod.collapse)
  ultimately show "GetAbbrev (fst x) \<lparr>abbrev_entries = map abbrev_entry abl, abbrev_data = enc_abbrevs abl\<rparr> =
      Some (snd (abbrev_entry x))"
    by (simp add: GetAbbrev_def)
qed

theorem abbrevs_roundtrip_witness:
  "ReadAbbrevs (enc_abbrevs [(1, 0x11, True, [((3, 0x25), 0), ((0x49, 0x21), 7)])] @ [9])
     \<lparr>abbrev_entries = [], abbrev_data = []\<rparr> =
   Ok \<lparr>abbrev_entries = [(1, \<lparr>ab_code = 1, ab_tag = 0x11, ab_has_child = True, ab_attr = [(3, 0x25), (0x49, 0x21)]\<rparr>)],
       abbrev_data = enc_abbrevs [(1, 0x11, True, [((3, 0x25), 0), ((0x49, 0x21), 7)])]\<rparr>"
proof -
  let ?abl = "[(1 :: u32, 0x11 :: u16, True, [((3 :: u16, 0x25 :: u16), 0 :: u64), ((0x49, 0x21), 7)])]"
  have "\<forall>(code, tag, child, attrs) \<in> set ?abl. code \<noteq> 0 \<and> (\<forall>a \<in> set attrs. fst a \<noteq> (0, 0))" "distinct (map fst ?abl)"
    by simp_all
  from abbrevs_roundtrip[OF this, of "[9]"] show ?thesis by (simp add: abbrev_entry_def)
qed





text \<open>The name of a unit is resolved while its attributes are read: an indexed name that comes before
  \<^verbatim>\<open>DW_AT_str_offsets_base\<close>, the order \<^verbatim>\<open>attr.h\<close> gives as the reason for delaying resolution, is
  looked up with the base the unit object held before, that of an earlier unit or zero.\<close>

theorem strx_name_uses_stale_base:
  assumes "DwarfForm_of f1 = Some DW_FORM_strx1" "DwarfForm_of f2 = Some DW_FORM_sec_offset"
    "ReadAttributes fst [(DW_AT_name, f1), (DW_AT_str_offsets_base, f2)] top_level_attr (cu, sl) data = Ok ((cu', sl'), rest)"
  shows "ResolveDoubleIndirectString cu (ucast (hd data)) = Ok (unit_name cu') \<and>
    ReadDWARFOffset (unit_sizes cu) (tl data) = Ok (str_offsets_base cu', rest)"
proof -
  have p1: "ParseAttr c f1 d = make_attr DW_FORM_strx1 AUnresolvedString (ReadFixed 1 d)" for c d
    by (simp add: ParseAttr_def assms ParseForm_def)
  have p2: "ParseAttr c f2 d = make_attr DW_FORM_sec_offset AUint (ReadDWARFOffset (unit_sizes c) d)" for c d
    by (simp add: ParseAttr_def assms ParseForm_def ReadDWARFOffset_def)
  obtain b d where data: "data = b # d"
    using assms(3) by (cases data) (auto simp: p1 make_attr_def ReadFixed_def)
  from assms(3) show ?thesis
    by (auto simp: data p1 p2 make_attr_def top_level_attr_def IsString_def GetString_def GetUint_def obind_Ok_iff)
qed

theorem strx_name_uses_stale_base_witness:
  "\<exists>cu'. ReadAttributes fst [(DW_AT_name, 0x25), (DW_AT_str_offsets_base, 0x17)] top_level_attr
      (new_CU\<lparr>cu_dwarf := sample_file\<rparr>, None) [0, 8, 0, 0, 0] = Ok ((cu', None), []) \<and>
    ResolveDoubleIndirectString (new_CU\<lparr>cu_dwarf := sample_file\<rparr>) (ucast (0 :: u8)) = Ok (unit_name cu') \<and>
    unit_name cu' = [0x63, 0x64] \<and> ResolveDoubleIndirectString cu' 0 = Ok [0x61, 0x62]"
proof -
  let ?cu = "new_CU\<lparr>cu_dwarf := sample_file\<rparr>"
  let ?run = "ReadAttributes fst [(DW_AT_name, 0x25), (DW_AT_str_offsets_base, 0x17)] top_level_attr (?cu, None) [0, 8, 0, 0, 0]"
  have f: "DwarfForm_of 0x25 = Some DW_FORM_strx1" "DwarfForm_of 0x17 = Some DW_FORM_sec_offset" by code_simp+
  have "case ?run of Ok ((cu', sl), rest) \<Rightarrow> sl = None \<and> rest = [] \<and> unit_name cu' = [0x63, 0x64] \<and>
      ResolveDoubleIndirectString cu' 0 = Ok [0x61, 0x62] | _ \<Rightarrow> False"
    by code_simp
  then obtain cu' where r: "?run = Ok ((cu', None), [])" and n: "unit_name cu' = [0x63, 0x64]"
      "ResolveDoubleIndirectString cu' 0 = Ok [0x61, 0x62]"
    by (auto split: outcome.splits)
  with strx_name_uses_stale_base[OF f r] show ?thesis by auto
qed

end
