(* ===== verification/Line_Info.thy ===== *)
theory Line_Info
  imports Debug_Info
begin

text \<open>
  The interpreter of line number programs, \<^verbatim>\<open>src/qemu_plugin/dwarf/line_info.{h,cc}\<close>.
\<close>

section \<open>Model\<close>

record LineInfo =
  li_address :: u64
  li_file :: u32
  li_line :: u32
  li_column :: u32
  li_discriminator :: u32
  li_end_sequence :: bool
  li_basic_block :: bool
  li_prologue_end :: bool
  li_epilogue_begin :: bool
  li_is_stmt :: bool
  li_op_index :: u8
  li_isa :: u8

definition new_LineInfo :: "bool \<Rightarrow> LineInfo" where
  "new_LineInfo default_is_stmt =
     \<lparr>li_address = 0, li_file = 1, li_line = 1, li_column = 0, li_discriminator = 0,
      li_end_sequence = False, li_basic_block = False, li_prologue_end = False,
      li_epilogue_begin = False, li_is_stmt = default_is_stmt, li_op_index = 0, li_isa = 0\<rparr>"

record FileName =
  fn_name :: bytes
  fn_directory_index :: u32
  fn_modified_time :: u64
  fn_file_size :: u64

record Params =
  minimum_instruction_length :: u8
  maximum_operations_per_instruction :: u8
  default_is_stmt :: u8
  line_base :: u8
  line_range :: u8
  opcode_base :: u8

record LineInfoReader =
  lr_params :: Params
  lr_file :: File
  lr_sizes :: CompilationUnitSizes
  include_directories :: "bytes list"
  filenames :: "FileName list"
  standard_opcode_lengths :: "u8 list"
  expanded_filenames :: "bytes list"
  lr_remaining :: bytes
  shadow :: bool
  lr_info :: LineInfo

text \<open>A reader as it is constructed; the members that \<^verbatim>\<open>SeekToOffset\<close> fills hold placeholders.\<close>

definition new_LineInfoReader :: "File \<Rightarrow> LineInfoReader" where
  "new_LineInfoReader file =
     \<lparr>lr_params = \<lparr>minimum_instruction_length = 0, maximum_operations_per_instruction = 0, default_is_stmt = 0,
        line_base = 0, line_range = 0, opcode_base = 0\<rparr>,
      lr_file = file, lr_sizes = \<lparr>dwarf_version = 0, dwarf64 = False, addr8 = False\<rparr>,
      include_directories = [], filenames = [], standard_opcode_lengths = [], expanded_filenames = [],
      lr_remaining = [], shadow = False, lr_info = new_LineInfo False\<rparr>"

definition GetExpandedFilename :: "nat \<Rightarrow> LineInfoReader \<Rightarrow> (bytes \<times> LineInfoReader) outcome" where
  "GetExpandedFilename index r =
     (if length (filenames r) \<le> index then Exit
      else
        let names = (if length (expanded_filenames r) \<le> index
                     then expanded_filenames r @ replicate (length (filenames r) - length (expanded_filenames r)) []
                     else expanded_filenames r)
        in if names ! index \<noteq> [] then Ok (names ! index, r\<lparr>expanded_filenames := names\<rparr>)
           else
             let filename = filenames r ! index in
             if length (include_directories r) \<le> unat (fn_directory_index filename) then Undef
             else
               let directory = include_directories r ! unat (fn_directory_index filename);
                   ret = (if directory \<noteq> [] then directory @ [0x2f] else []) @ fn_name filename
               in Ok (ret, r\<lparr>expanded_filenames := names[index := ret]\<rparr>))"

subsection \<open>Advancing\<close>

definition DoAdvance :: "u64 \<Rightarrow> u8 \<Rightarrow> LineInfoReader \<Rightarrow> LineInfoReader outcome" where
  "DoAdvance advance max_per_instr r =
     (if max_per_instr = 0 then Undef
      else
        let info = lr_info r; n = ucast (li_op_index info) + advance; m = ucast max_per_instr
        in Ok (r\<lparr>lr_info := info\<lparr>
                 li_address := li_address info + ucast (minimum_instruction_length (lr_params r)) * (n div m),
                 li_op_index := ucast (n mod m)\<rparr>\<rparr>))"

definition Advance :: "u64 \<Rightarrow> LineInfoReader \<Rightarrow> LineInfoReader outcome" where
  "Advance amount r =
     (if maximum_operations_per_instruction (lr_params r) = 1 then DoAdvance amount 1 r
      else DoAdvance amount (maximum_operations_per_instruction (lr_params r)) r)"

definition AdjustedOpcode :: "u8 \<Rightarrow> LineInfoReader \<Rightarrow> u8" where
  "AdjustedOpcode op r = op - opcode_base (lr_params r)"

definition SpecialOpcodeAdvance :: "u8 \<Rightarrow> LineInfoReader \<Rightarrow> LineInfoReader outcome" where
  "SpecialOpcodeAdvance op r =
     (if line_range (lr_params r) = 0 then Undef
      else Advance (ucast (AdjustedOpcode op r div line_range (lr_params r))) r)"

subsection \<open>The header\<close>

fun read_opcode_lengths :: "nat \<Rightarrow> bytes \<Rightarrow> (u8 list \<times> bytes) outcome" where
  "read_opcode_lengths 0 data = Ok ([], data)"
| "read_opcode_lengths (Suc n) data =
     obind (ReadFixed 1 data) (\<lambda>(b, data). obind (read_opcode_lengths n data) (\<lambda>(bs, data). Ok (b # bs, data)))"

lemma ReadNullTerminated_shorter: "ReadNullTerminated data = Ok (s, rest) \<Longrightarrow> length rest < length data"
  by (auto simp: reads)

function read_directories :: "bytes \<Rightarrow> (bytes list \<times> bytes) outcome" where
  "read_directories data =
     obind (ReadNullTerminated data) (\<lambda>(dir, data).
       if dir = [] then Ok ([], data)
       else obind (read_directories data) (\<lambda>(dirs, data). Ok (dir # dirs, data)))"
  by pat_completeness auto
termination by (relation "measure length") (auto dest: ReadNullTerminated_shorter)

text \<open>The fields of a file behind its name, and the check of its directory.\<close>

definition read_file :: "nat \<Rightarrow> bytes \<Rightarrow> bytes \<Rightarrow> (FileName \<times> bytes) outcome" where
  "read_file ndirs name data =
     obind (ReadLEB128 data) (\<lambda>(dir, data).
     obind (ReadLEB128 data) (\<lambda>(time, data).
     obind (ReadLEB128 data) (\<lambda>(sz, data).
       if ndirs \<le> unat dir then Exit
       else Ok (\<lparr>fn_name = name, fn_directory_index = dir, fn_modified_time = time, fn_file_size = sz\<rparr>, data))))"

lemma read_file_suffix: "read_file n name data = Ok (f, rest) \<Longrightarrow> suffix rest data"
  by (auto simp: read_file_def obind_Ok_iff split: if_splits dest!: ReadLEB128_suffix intro: suffix_order.trans)

function read_files :: "nat \<Rightarrow> bytes \<Rightarrow> (FileName list \<times> bytes) outcome" where
  "read_files ndirs data =
     obind (ReadNullTerminated data) (\<lambda>(name, data1).
       if name = [] then Ok ([], data1)
       else obind (read_file ndirs name data1) (\<lambda>(f, data2).
            obind (read_files ndirs data2) (\<lambda>(fs, data). Ok (f # fs, data))))"
  by pat_completeness auto
termination
  by (relation "measure (\<lambda>(_, data). length data)")
    (auto dest!: ReadNullTerminated_shorter read_file_suffix suffix_length_le)

declare read_directories.simps [simp del] read_files.simps [simp del]

definition read_params :: "u16 \<Rightarrow> bytes \<Rightarrow> (Params \<times> bytes) outcome" where
  "read_params version data =
     obind (ReadFixed 1 data) (\<lambda>(min_len, data).
     obind (if version = 4
            then obind (ReadFixed 1 data) (\<lambda>(m, data). if m = 0 then Exit else Ok (m, data))
            else Ok (1, data)) (\<lambda>(max_ops, data).
     obind (ReadFixed 1 data) (\<lambda>(is_stmt, data).
     obind (ReadFixed 1 data) (\<lambda>(base, data).
     obind (ReadFixed 1 data) (\<lambda>(rng, data).
     obind (ReadFixed 1 data) (\<lambda>(opbase, data).
       if rng = 0 then Exit
       else Ok (\<lparr>minimum_instruction_length = min_len, maximum_operations_per_instruction = max_ops,
                 default_is_stmt = is_stmt, line_base = base, line_range = rng, opcode_base = opbase\<rparr>, data)))))))"

definition SeekToOffset :: "u64 \<Rightarrow> u8 \<Rightarrow> LineInfoReader \<Rightarrow> LineInfoReader outcome" where
  "SeekToOffset offset asize r =
     obind (SkipBytes offset (debug_line (lr_file r))) (\<lambda>data.
     obind (SetAddressSize asize (lr_sizes r)) (\<lambda>sz.
     obind (ReadInitialLength sz data) (\<lambda>(data, _, sz).
     obind (ReadDWARFVersion sz data) (\<lambda>(sz, data).
     obind (ReadDWARFOffset sz data) (\<lambda>(header_length, data).
     obind (SkipBytes header_length data) (\<lambda>program.
     obind (read_params (dwarf_version sz) data) (\<lambda>(params, data).
     obind (read_opcode_lengths (unat (opcode_base params) - 1) data) (\<lambda>(lens, data).
     obind (read_directories data) (\<lambda>(dirs, data).
     obind (read_files (Suc (length dirs)) data) (\<lambda>(files, data).
       Ok (r\<lparr>lr_sizes := sz, lr_params := params,
             standard_opcode_lengths := (if opcode_base params = 0 then [] else 0 # lens),
             include_directories := [] # dirs,
             filenames := \<lparr>fn_name = [], fn_directory_index = 0, fn_modified_time = 0, fn_file_size = 0\<rparr> # files,
             expanded_filenames := [], lr_info := new_LineInfo (default_is_stmt params \<noteq> 0),
             lr_remaining := program, shadow := False\<rparr>)))))))))))"

subsection \<open>The program\<close>

abbreviation "upd_info f r \<equiv> r\<lparr>lr_info := f (lr_info r)\<rparr>"

text \<open>An extended operation behind its \<^verbatim>\<open>DW_LNS_extended_op\<close>; \<open>True\<close> when \<^verbatim>\<open>ReadLineInfo\<close> returns.\<close>

definition extended_op :: "LineInfoReader \<Rightarrow> bytes \<Rightarrow> (bool \<times> LineInfoReader \<times> bytes) outcome" where
  "extended_op r data =
     obind (ReadLEB128 data :: (u16 \<times> bytes) outcome) (\<lambda>(len, data).
     obind (ReadFixed 1 data :: (u8 \<times> bytes) outcome) (\<lambda>(ext, data).
       if ext = 1 then
         let addr = li_address (lr_info r);
             r = r\<lparr>lr_info := (new_LineInfo (default_is_stmt (lr_params r) \<noteq> 0))
                     \<lparr>li_address := addr, li_end_sequence := True\<rparr>\<rparr>
         in Ok (\<not> shadow r, r, data)
       else if ext = 2 then
         obind (ReadAddress (lr_sizes r) data) (\<lambda>(addr, data).
           Ok (False, (upd_info (\<lambda>i. i\<lparr>li_address := addr, li_op_index := 0\<rparr>) r)\<lparr>shadow := (addr = 0)\<rparr>, data))
       else if ext = 3 then
         obind (ReadNullTerminated data) (\<lambda>(name, data).
         obind (read_file (length (include_directories r)) name data) (\<lambda>(f, data).
           Ok (False, r\<lparr>filenames := filenames r @ [f]\<rparr>, data)))
       else if ext = 4 then
         obind (ReadLEB128 data) (\<lambda>(d, data). Ok (False, upd_info (\<lambda>i. i\<lparr>li_discriminator := d\<rparr>) r, data))
       else obind (SkipBytes (ucast len) data) (\<lambda>data. Ok (False, r, data))))"

definition standard_op :: "u8 \<Rightarrow> LineInfoReader \<Rightarrow> bytes \<Rightarrow> (bool \<times> LineInfoReader \<times> bytes) outcome" where
  "standard_op op r data =
     (if op = 0 then extended_op r data
      else if op = 1 then Ok (\<not> shadow r, r, data)
      else if op = 2 then
        obind (ReadLEB128 data) (\<lambda>(n, data). obind (Advance n r) (\<lambda>r. Ok (False, r, data)))
      else if op = 3 then
        obind (ReadLEB128_signed data) (\<lambda>(n, data). Ok (False, upd_info (\<lambda>i. i\<lparr>li_line := li_line i + n\<rparr>) r, data))
      else if op = 4 then
        obind (ReadLEB128 data) (\<lambda>(n, data).
          if length (filenames r) \<le> unat n then Exit else Ok (False, upd_info (\<lambda>i. i\<lparr>li_file := n\<rparr>) r, data))
      else if op = 5 then
        obind (ReadLEB128 data) (\<lambda>(n, data). Ok (False, upd_info (\<lambda>i. i\<lparr>li_column := n\<rparr>) r, data))
      else if op = 6 then Ok (False, upd_info (\<lambda>i. i\<lparr>li_is_stmt := \<not> li_is_stmt i\<rparr>) r, data)
      else if op = 7 then Ok (False, upd_info (\<lambda>i. i\<lparr>li_basic_block := True\<rparr>) r, data)
      else if op = 8 then obind (SpecialOpcodeAdvance 255 r) (\<lambda>r. Ok (False, r, data))
      else if op = 9 then
        obind (ReadFixed 2 data :: (u16 \<times> bytes) outcome) (\<lambda>(n, data).
          Ok (False, upd_info (\<lambda>i. i\<lparr>li_address := li_address i + ucast n, li_op_index := 0\<rparr>) r, data))
      else if op = 10 then Ok (False, upd_info (\<lambda>i. i\<lparr>li_prologue_end := True\<rparr>) r, data)
      else if op = 11 then Ok (False, upd_info (\<lambda>i. i\<lparr>li_epilogue_begin := True\<rparr>) r, data)
      else if op = 12 then
        obind (ReadLEB128 data) (\<lambda>(n, data). Ok (False, upd_info (\<lambda>i. i\<lparr>li_isa := n\<rparr>) r, data))
      else if length (standard_opcode_lengths r) \<le> unat op then Undef
      else obind (SkipBytes (ucast (standard_opcode_lengths r ! unat op)) data) (\<lambda>data. Ok (False, r, data)))"

text \<open>One round of the loop of \<^verbatim>\<open>ReadLineInfo\<close>. The sum of the signed line base and the remainder is an
  \<^verbatim>\<open>int\<close>, converted to 32 bits.\<close>

definition line_op :: "LineInfoReader \<Rightarrow> bytes \<Rightarrow> (bool \<times> LineInfoReader \<times> bytes) outcome" where
  "line_op r data =
     obind (ReadFixed 1 data) (\<lambda>(op, data).
       if opcode_base (lr_params r) \<le> op then
         obind (SpecialOpcodeAdvance op r) (\<lambda>r.
           let p = lr_params r;
               r = upd_info (\<lambda>i. i\<lparr>li_line := li_line i +
                     word_of_int (sint (line_base p) + uint (AdjustedOpcode op r mod line_range p))\<rparr>) r
           in Ok (\<not> shadow r, r, data))
       else standard_op op r data)"

lemma extended_op_suffix: "extended_op r data = Ok (y, r', rest) \<Longrightarrow> suffix rest data"
  by (auto simp: extended_op_def Let_def obind_Ok_iff split: if_splits dest!: advances read_file_suffix
      intro: suffix_order.trans)

lemma standard_op_suffix: "standard_op op r data = Ok (y, r', rest) \<Longrightarrow> suffix rest data"
  by (auto simp: standard_op_def obind_Ok_iff split: if_splits dest!: advances dest: extended_op_suffix)

lemma line_op_shorter: "line_op r data = Ok (y, r', rest) \<Longrightarrow> length rest < length data"
  by (auto simp: line_op_def Let_def obind_Ok_iff split: if_splits
      dest!: ReadFixed_shorter standard_op_suffix suffix_length_le)

lemma line_op_suffix: "line_op r data = Ok (y, r', rest) \<Longrightarrow> suffix rest data"
  by (auto simp: line_op_def Let_def obind_Ok_iff split: if_splits
      dest!: ReadFixed_suffix dest: standard_op_suffix intro: suffix_order.trans)

function line_loop :: "LineInfoReader \<Rightarrow> bytes \<Rightarrow> (bool \<times> LineInfoReader) outcome" where
  "line_loop r data =
     (if data = [] then Ok (False, r\<lparr>lr_remaining := data\<rparr>)
      else obind (line_op r data) (\<lambda>(yield, r, data).
             if yield then Ok (True, r\<lparr>lr_remaining := data\<rparr>) else line_loop r data))"
  by pat_completeness auto
termination by (relation "measure (\<lambda>(r, data). length data)") (auto dest: line_op_shorter)

declare line_loop.simps [simp del]

definition ReadLineInfo :: "LineInfoReader \<Rightarrow> (bool \<times> LineInfoReader) outcome" where
  "ReadLineInfo r =
     line_loop (upd_info (\<lambda>i. i\<lparr>li_discriminator := 0, li_basic_block := False, li_prologue_end := False,
                                li_epilogue_begin := False, li_end_sequence := False\<rparr>) r) (lr_remaining r)"

section \<open>The invariant of the reader\<close>

definition line_inv :: "LineInfoReader \<Rightarrow> bool" where
  "line_inv r \<longleftrightarrow>
     line_range (lr_params r) \<noteq> 0 \<and> maximum_operations_per_instruction (lr_params r) \<noteq> 0 \<and>
     length (standard_opcode_lengths r) = unat (opcode_base (lr_params r)) \<and>
     (\<forall>f \<in> set (filenames r). unat (fn_directory_index f) < length (include_directories r)) \<and>
     filenames r \<noteq> [] \<and> li_op_index (lr_info r) < maximum_operations_per_instruction (lr_params r)"

lemma read_opcode_lengths_length: "read_opcode_lengths n data = Ok (bs, rest) \<Longrightarrow> length bs = n"
  by (induction n arbitrary: data bs rest) (auto simp: obind_Ok_iff)

lemma read_file_dir: "read_file n name data = Ok (f, rest) \<Longrightarrow> unat (fn_directory_index f) < n"
  by (auto simp: read_file_def obind_Ok_iff split: if_splits)

lemma read_files_dirs: "read_files n data = Ok (fs, rest) \<Longrightarrow> \<forall>f \<in> set fs. unat (fn_directory_index f) < n"
proof (induction n data arbitrary: fs rest rule: read_files.induct)
  case (1 n data)
  from "1.prems" obtain name d1 where nm: "ReadNullTerminated data = Ok (name, d1)"
    by (subst (asm) read_files.simps) (auto simp: obind_Ok_iff)
  show ?case
  proof (cases "name = []")
    case True
    with "1.prems" nm show ?thesis by (subst (asm) read_files.simps) simp
  next
    case False
    with "1.prems" nm obtain f d2 fs' where f: "read_file n name d1 = Ok (f, d2)"
        and fs: "read_files n d2 = Ok (fs', rest)" "fs = f # fs'"
      by (subst (asm) read_files.simps) (auto simp: obind_Ok_iff)
    from "1.IH"[OF nm refl False f refl fs(1)] read_file_dir[OF f] fs(2) show ?thesis by simp
  qed
qed

lemma header_defined [simp]:
  "read_opcode_lengths n data \<noteq> Undef" "read_file k name data \<noteq> Undef" "read_params v data \<noteq> Undef"
proof -
  show "read_opcode_lengths n data \<noteq> Undef"
    by (induction n arbitrary: data) (auto simp: obind_eq_Undef)
qed (auto simp: read_file_def read_params_def obind_eq_Undef split: if_splits prod.splits)

lemma read_directories_defined [simp]: "read_directories data \<noteq> Undef"
  by (induction data rule: read_directories.induct)
    (subst read_directories.simps, auto simp: obind_eq_Undef)

lemma read_files_defined [simp]: "read_files n data \<noteq> Undef"
  by (induction n data rule: read_files.induct) (subst read_files.simps, auto simp: obind_eq_Undef)

lemma SeekToOffset_defined [simp]: "SeekToOffset ofs a r \<noteq> Undef"
  by (simp add: SeekToOffset_def obind_eq_Undef split: prod.splits)

lemma SeekToOffset_inv: "SeekToOffset ofs a r = Ok r' \<Longrightarrow> line_inv r' \<and> \<not> shadow r'"
  by (auto simp: SeekToOffset_def obind_Ok_iff line_inv_def new_LineInfo_def read_params_def unat_gt_0
      word_gt_0 split: if_splits dest!: read_opcode_lengths_length read_files_dirs)

lemma Advance_inv:
  assumes "line_inv r"
  shows "Advance n r \<noteq> Undef" "Advance n r = Ok r' \<Longrightarrow> line_inv r'"
proof -
  let ?m = "maximum_operations_per_instruction (lr_params r)"
  have adv: "Advance n r = DoAdvance n ?m r" by (simp add: Advance_def)
  have m: "?m \<noteq> 0" using assms by (simp add: line_inv_def)
  then show "Advance n r \<noteq> Undef" by (simp add: adv DoAdvance_def Let_def)
  have mod: "ucast (x mod ucast ?m) < ?m" for x :: u64
  proof -
    have "0 < unat ?m" using m by (simp add: unat_gt_0)
    then have "unat (x mod ucast ?m) < unat ?m" by (simp add: unat_mod unat_ucast_up)
    then show ?thesis using unat_ucast_le[of "x mod ucast ?m", where 'b = 8] by (simp add: word_less_nat_alt)
  qed
  assume "Advance n r = Ok r'"
  with m have r': "r' = upd_info (\<lambda>i. i\<lparr>li_address := li_address i + ucast (minimum_instruction_length (lr_params r)) *
      ((ucast (li_op_index i) + n) div ucast ?m), li_op_index := ucast ((ucast (li_op_index i) + n) mod ucast ?m)\<rparr>) r"
    by (simp add: adv DoAdvance_def Let_def)
  show "line_inv r'" using assms mod by (simp add: r' line_inv_def)
qed

lemma SpecialOpcodeAdvance_inv:
  assumes "line_inv r"
  shows "SpecialOpcodeAdvance op r \<noteq> Undef" "SpecialOpcodeAdvance op r = Ok r' \<Longrightarrow> line_inv r'"
  using assms Advance_inv[OF assms] by (auto simp: SpecialOpcodeAdvance_def line_inv_def)

lemma extended_op_inv:
  assumes "line_inv r"
  shows "extended_op r data \<noteq> Undef" "extended_op r data = Ok (y, r', rest) \<Longrightarrow> line_inv r'"
proof -
  show "extended_op r data \<noteq> Undef"
    by (auto simp: extended_op_def Let_def obind_eq_Undef split: prod.splits if_splits)
  assume "extended_op r data = Ok (y, r', rest)"
  with assms show "line_inv r'"
    by (auto simp: extended_op_def Let_def obind_Ok_iff line_inv_def new_LineInfo_def word_gt_0 split: if_splits
        dest: read_file_dir)
qed

lemma standard_op_inv:
  assumes "line_inv r" "op < opcode_base (lr_params r)"
  shows "standard_op op r data \<noteq> Undef" "standard_op op r data = Ok (y, r', rest) \<Longrightarrow> line_inv r'"
proof -
  have "unat op < length (standard_opcode_lengths r)" using assms by (simp add: line_inv_def word_less_nat_alt)
  then show "standard_op op r data \<noteq> Undef"
    using extended_op_inv(1)[OF assms(1)] Advance_inv(1)[OF assms(1)] SpecialOpcodeAdvance_inv(1)[OF assms(1)]
    by (auto simp: standard_op_def obind_eq_Undef split: prod.splits if_splits)
  assume "standard_op op r data = Ok (y, r', rest)"
  with extended_op_inv(2)[OF assms(1)] Advance_inv(2)[OF assms(1)] SpecialOpcodeAdvance_inv(2)[OF assms(1)] assms(1)
  show "line_inv r'"
    by (auto simp: standard_op_def obind_Ok_iff split: if_splits) (auto simp: line_inv_def word_gt_0)
qed

lemma line_op_inv:
  assumes "line_inv r"
  shows "line_op r data \<noteq> Undef" "line_op r data = Ok (y, r', rest) \<Longrightarrow> line_inv r'"
proof -
  show "line_op r data \<noteq> Undef"
    using SpecialOpcodeAdvance_inv(1)[OF assms] standard_op_inv(1)[OF assms]
    by (auto simp: line_op_def Let_def obind_eq_Undef not_le split: prod.splits if_splits)
  have upd: "line_inv (q\<lparr>lr_info := (lr_info q)\<lparr>li_line := e\<rparr>\<rparr>) \<longleftrightarrow> line_inv q" for q e by (simp add: line_inv_def)
  assume "line_op r data = Ok (y, r', rest)"
  with SpecialOpcodeAdvance_inv(2)[OF assms] standard_op_inv(2)[OF assms] show "line_inv r'"
    by (auto simp: line_op_def Let_def obind_Ok_iff not_le upd split: if_splits)
qed

lemma line_loop_inv:
  "line_inv r \<Longrightarrow> line_loop r data \<noteq> Undef \<and> (\<forall>y r'. line_loop r data = Ok (y, r') \<longrightarrow>
     line_inv r' \<and> suffix (lr_remaining r') data \<and> (if y then length (lr_remaining r') < length data else lr_remaining r' = []))"
proof (induction r data rule: line_loop.induct)
  case (1 r data)
  have rem: "line_inv (q\<lparr>lr_remaining := d\<rparr>) \<longleftrightarrow> line_inv q" for q d by (simp add: line_inv_def)
  show ?case
  proof (cases "data = [] \<or> line_op r data = Exit")
    case True
    then have "line_loop r data = (if data = [] then Ok (False, r\<lparr>lr_remaining := data\<rparr>) else Exit)"
      by (subst line_loop.simps) auto
    with 1(2) show ?thesis by (simp add: rem)
  next
    case False
    with line_op_inv(1)[OF 1(2), of data] obtain y r1 d where op: "line_op r data = Ok (y, r1, d)"
      by (cases "line_op r data") auto
    note s = line_op_suffix[OF op] line_op_shorter[OF op] line_op_inv(2)[OF 1(2) op]
    show ?thesis
    proof (cases y)
      case True
      with False op have "line_loop r data = Ok (True, r1\<lparr>lr_remaining := d\<rparr>)" by (subst line_loop.simps) simp
      with s show ?thesis by (simp add: rem)
    next
      case no: False
      have eq: "line_loop r data = line_loop r1 d" using False op no by (subst line_loop.simps) simp
      have tr: "suffix x d \<Longrightarrow> suffix x data" for x using s(1) suffix_order.trans by blast
      have "data \<noteq> []" using False by simp
      from 1(1)[OF this op refl refl no s(3)] s(2) show ?thesis unfolding eq
        by (metis tr order_less_trans)
    qed
  qed
qed

lemma line_loop_shorter: "line_loop r data = Ok (True, r') \<Longrightarrow> length (lr_remaining r') < length data"
proof (induction r data rule: line_loop.induct)
  case (1 r data)
  then have ne: "data \<noteq> []" by (auto simp: line_loop.simps)
  with "1.prems" obtain y r1 d where op: "line_op r data = Ok (y, r1, d)"
    by (subst (asm) line_loop.simps) (auto simp: obind_Ok_iff)
  show ?case
  proof (cases y)
    case True
    with ne op "1.prems" show ?thesis using line_op_shorter[OF op] by (subst (asm) line_loop.simps) auto
  next
    case False
    with ne op "1.prems" have "line_loop r1 d = Ok (True, r')" by (subst (asm) line_loop.simps) simp
    from "1.IH"[OF ne op refl refl False this] line_op_shorter[OF op] show ?thesis by simp
  qed
qed

section \<open>Rows\<close>

text \<open>The loop \<^verbatim>\<open>while (reader->ReadLineInfo())\<close> that the class documents, collecting the rows.\<close>

function all_rows :: "LineInfoReader \<Rightarrow> LineInfo list outcome" where
  "all_rows r =
     obind (ReadLineInfo r) (\<lambda>(more, r).
       if more then obind (all_rows r) (\<lambda>rows. Ok (lr_info r # rows)) else Ok [])"
  by pat_completeness auto
termination
  by (relation "measure (\<lambda>r. length (lr_remaining r))") (auto simp: ReadLineInfo_def dest: line_loop_shorter)

declare all_rows.simps [simp del]

text \<open>A row as a producer writes it: the advance of the address, the change of the line, and a copy.\<close>

definition enc_row :: "u64 \<times> u32 \<Rightarrow> bytes" where
  "enc_row = (\<lambda>(a, l). [2] @ WriteVarInt a @ [3] @ sleb128 (sint l) @ [1])"

definition next_row :: "u8 \<Rightarrow> LineInfo \<Rightarrow> u64 \<times> u32 \<Rightarrow> LineInfo" where
  "next_row min_len i = (\<lambda>(a, l). i\<lparr>li_address := li_address i + ucast min_len * a, li_line := li_line i + l,
     li_discriminator := 0, li_basic_block := False, li_prologue_end := False, li_epilogue_begin := False,
     li_end_sequence := False\<rparr>)"

primrec rows_of :: "u8 \<Rightarrow> LineInfo \<Rightarrow> (u64 \<times> u32) list \<Rightarrow> LineInfo list" where
  "rows_of min_len i [] = []"
| "rows_of min_len i (x # xs) = next_row min_len i x # rows_of min_len (next_row min_len i x) xs"

definition plain_reader :: "LineInfoReader \<Rightarrow> bool" where
  "plain_reader r \<longleftrightarrow> line_inv r \<and> maximum_operations_per_instruction (lr_params r) = 1 \<and>
     3 < opcode_base (lr_params r) \<and> \<not> shadow r"

lemma line_loop_std:
  assumes "op < opcode_base (lr_params r)" "standard_op op r data = Ok (False, r', rest)"
  shows "line_loop r (op # data) = line_loop r' rest"
proof -
  have "\<not> opcode_base (lr_params r) \<le> op" using assms(1) by simp
  then show ?thesis using assms(2) by (subst line_loop.simps) (simp add: line_op_def)
qed

lemma line_loop_copy:
  assumes "1 < opcode_base (lr_params r)" "\<not> shadow r"
  shows "line_loop r (1 # rest) = Ok (True, r\<lparr>lr_remaining := rest\<rparr>)"
proof -
  have "\<not> opcode_base (lr_params r) \<le> 1" using assms(1) by simp
  then show ?thesis using assms(2) by (subst line_loop.simps) (simp add: line_op_def standard_op_def)
qed

lemma ReadLineInfo_row:
  assumes p: "plain_reader r" and rem: "lr_remaining r = enc_row x @ rest"
  shows "ReadLineInfo r = Ok (True, r\<lparr>lr_info := next_row (minimum_instruction_length (lr_params r)) (lr_info r) x,
    lr_remaining := rest\<rparr>)"
proof -
  obtain a l where x: "x = (a, l)" by fastforce
  let ?clear = "\<lambda>i. i\<lparr>li_discriminator := 0, li_basic_block := False, li_prologue_end := False,
    li_epilogue_begin := False, li_end_sequence := False\<rparr>"
  let ?r0 = "upd_info ?clear r"
  let ?r1 = "upd_info (\<lambda>i. i\<lparr>li_address := li_address i + ucast (minimum_instruction_length (lr_params r)) * a\<rparr>) ?r0"
  let ?r2 = "upd_info (\<lambda>i. i\<lparr>li_line := li_line i + l\<rparr>) ?r1"
  have ops: "1 < opcode_base (lr_params r)" "2 < opcode_base (lr_params r)" "3 < opcode_base (lr_params r)"
    using p by (auto simp: plain_reader_def intro: order_less_trans[where y = "3 :: u8"])
  have idx: "li_op_index (lr_info r) = 0" and m: "maximum_operations_per_instruction (lr_params r) = 1"
    using p by (auto simp: plain_reader_def line_inv_def)
  have s2: "standard_op 2 ?r0 (WriteVarInt a @ d) = Ok (False, ?r1, d)" for d
    by (simp add: standard_op_def Advance_def DoAdvance_def Let_def idx m)
  have s3: "standard_op 3 ?r1 (sleb128 (sint l) @ d) = Ok (False, ?r2, d)" for d
    by (simp add: standard_op_def)
  have "ReadLineInfo r = line_loop ?r0 (2 # WriteVarInt a @ 3 # sleb128 (sint l) @ 1 # rest)"
    by (simp add: ReadLineInfo_def rem x enc_row_def)
  also have "\<dots> = line_loop ?r1 (3 # sleb128 (sint l) @ 1 # rest)"
    using ops by (intro line_loop_std s2) simp
  also have "\<dots> = line_loop ?r2 (1 # rest)" using ops by (intro line_loop_std s3) simp
  also have "\<dots> = Ok (True, ?r2\<lparr>lr_remaining := rest\<rparr>)"
    using ops p by (intro line_loop_copy) (simp_all add: plain_reader_def)
  finally show ?thesis by (simp add: x next_row_def)
qed

lemma plain_reader_row:
  "plain_reader r \<Longrightarrow> plain_reader (r\<lparr>lr_info := next_row k (lr_info r) x, lr_remaining := rest\<rparr>)"
  by (auto simp: plain_reader_def line_inv_def next_row_def split: prod.splits)

section \<open>A small line table\<close>

definition sample_lines :: File where
  "sample_lines = empty_File\<lparr>debug_line :=
     [21, 0, 0, 0, 3, 0, 10, 0, 0, 0, 1, 1, 0xfb, 14, 4, 0, 1, 1, 0, 0] @ concat (map enc_row [(5, 3)])\<rparr>"

lemma sample_seek:
  "\<exists>r. SeekToOffset 0 8 (new_LineInfoReader sample_lines) = Ok r \<and> plain_reader r \<and>
     lr_remaining r = concat (map enc_row [(5, 3)]) \<and> lr_info r = new_LineInfo True \<and>
     minimum_instruction_length (lr_params r) = 1"
proof -
  have "case SeekToOffset 0 8 (new_LineInfoReader sample_lines) of
      Ok r \<Rightarrow> plain_reader r \<and> lr_remaining r = concat (map enc_row [(5, 3)]) \<and> lr_info r = new_LineInfo True \<and>
        minimum_instruction_length (lr_params r) = 1
    | _ \<Rightarrow> False"
    by code_simp
  then show ?thesis by (auto split: outcome.splits)
qed

section \<open>Properties\<close>

text \<open>C6. The state of a line number reader: every header that is accepted sets up a state in which no
  divisor is zero, every directory index is in range and the operation index is below its bound;
  expanding a file name is defined in it; every run of \<^verbatim>\<open>ReadLineInfo\<close>, on arbitrary programs, ends, is defined, keeps that invariant, and
  consumes part of the program, or reports its end.\<close>

theorem line_reader_invariant:
  "SeekToOffset ofs a r0 \<noteq> Undef \<and> (SeekToOffset ofs a r0 = Ok r \<longrightarrow> line_inv r) \<and>
   (line_inv r \<longrightarrow> ReadLineInfo r \<noteq> Undef \<and> GetExpandedFilename n r \<noteq> Undef \<and>
      (\<forall>more r'. ReadLineInfo r = Ok (more, r') \<longrightarrow>
         line_inv r' \<and> suffix (lr_remaining r') (lr_remaining r) \<and>
         (if more then length (lr_remaining r') < length (lr_remaining r) else lr_remaining r' = [])))"
proof (intro conjI impI)
  assume inv: "line_inv r"
  then have "n < length (filenames r) \<Longrightarrow>
      unat (fn_directory_index (filenames r ! n)) < length (include_directories r)"
    by (simp add: line_inv_def)
  then show "GetExpandedFilename n r \<noteq> Undef"
    by (cases "length (filenames r) \<le> n") (simp_all add: GetExpandedFilename_def Let_def not_le[symmetric])
  from inv have "line_inv (upd_info (\<lambda>i. i\<lparr>li_discriminator := 0, li_basic_block := False, li_prologue_end := False,
      li_epilogue_begin := False, li_end_sequence := False\<rparr>) r)"
    by (simp add: line_inv_def)
  from line_loop_inv[OF this, of "lr_remaining r"] show "ReadLineInfo r \<noteq> Undef"
      "\<forall>more r'. ReadLineInfo r = Ok (more, r') \<longrightarrow>
         line_inv r' \<and> suffix (lr_remaining r') (lr_remaining r) \<and>
         (if more then length (lr_remaining r') < length (lr_remaining r) else lr_remaining r' = [])"
    unfolding ReadLineInfo_def by blast+
qed (simp_all add: SeekToOffset_inv)

theorem line_reader_invariant_witness:
  "\<exists>r. SeekToOffset 0 8 (new_LineInfoReader sample_lines) = Ok r \<and> line_inv r \<and> ReadLineInfo r \<noteq> Undef"
proof -
  obtain r where r: "SeekToOffset 0 8 (new_LineInfoReader sample_lines) = Ok r" using sample_seek by blast
  with line_reader_invariant[of 0 8 "new_LineInfoReader sample_lines" r] show ?thesis by blast
qed



text \<open>C33. An extended operation the reader does not know: its length counts the opcode, which has been
  read by then, so skipping that many bytes also skips the first byte of the next operation.\<close>

theorem unknown_extended_op_skips_too_much:
  assumes "4 < ext" "Suc (length payload) < 2 ^ 16" "rest \<noteq> []"
  shows "extended_op r (WriteVarInt (of_nat (Suc (length payload)) :: u16) @ ext # payload @ rest) =
    Ok (False, r, tl rest)"
proof -
  have len: "unat (ucast (of_nat (Suc (length payload)) :: u16) :: u64) = Suc (length payload)"
    using unat_of_nat_less[of "Suc (length payload)", where 'a = 16] assms(2)
    by (subst unat_ucast_up) (simp_all del: of_nat_Suc)
  have "ext \<noteq> 1" "ext \<noteq> 2" "ext \<noteq> 3" "ext \<noteq> 4" using assms(1) by auto
  moreover have "SkipBytes (ucast (of_nat (Suc (length payload)) :: u16)) (payload @ rest) = Ok (tl rest)"
    unfolding SkipBytes_Ok_iff len using assms(3) by (cases rest) simp_all
  ultimately show ?thesis by (simp add: extended_op_def del: of_nat_Suc)
qed

theorem unknown_extended_op_skips_too_much_witness:
  "extended_op (new_LineInfoReader sample_lines) ([3, 0x80, 0, 0] @ [1, 2]) = Ok (False, new_LineInfoReader sample_lines, [2])"
proof -
  have w: "WriteVarInt (of_nat (Suc (length [0, 0 :: u8])) :: u16) = [3]" by code_simp
  have "(4 :: u8) < 0x80" "Suc (length [0, 0 :: u8]) < 2 ^ 16" "[1, 2 :: u8] \<noteq> []" by simp_all
  from unknown_extended_op_skips_too_much[OF this, of "new_LineInfoReader sample_lines"] show ?thesis
    unfolding w by simp
qed

end
