(* ===== verification/Elf_File.thy ===== *)
theory Elf_File
  imports Dwarf_Util
begin

text \<open>
  The ELF reader of the QEMU plugin, \<^verbatim>\<open>src/qemu_plugin/dwarf/elf.{h,cc}\<close>. A structure of
  \<^verbatim>\<open><elf.h>\<close> is a record of its 64-bit form; the mungers read it from the bytes of its 64-bit or
  32-bit form, at the offsets the ELF specification gives, in either byte order. A section's
  pointer to its file is the file, given to the operations that follow it.
\<close>

section \<open>Model\<close>

subsection \<open>Structures\<close>

record Elf64_Ehdr =
  e_ident :: bytes
  e_type :: u16
  e_machine :: u16
  e_version :: u32
  e_entry :: u64
  e_phoff :: u64
  e_shoff :: u64
  e_flags :: u32
  e_ehsize :: u16
  e_phentsize :: u16
  e_phnum :: u16
  e_shentsize :: u16
  e_shnum :: u16
  e_shstrndx :: u16

record Elf64_Shdr =
  sh_name :: u32
  sh_type :: u32
  sh_flags :: u64
  sh_addr :: u64
  sh_offset :: u64
  sh_size :: u64
  sh_link :: u32
  sh_info :: u32
  sh_addralign :: u64
  sh_entsize :: u64

record Elf64_Phdr =
  p_type :: u32
  p_flags :: u32
  p_offset :: u64
  p_vaddr :: u64
  p_paddr :: u64
  p_filesz :: u64
  p_memsz :: u64
  p_align :: u64

record Elf64_Sym =
  st_name :: u32
  st_info :: u8
  st_other :: u8
  st_shndx :: u16
  st_value :: u64
  st_size :: u64

record Elf64_Rel =
  r_offset :: u64
  r_info :: u64

record Elf64_Rela =
  ra_offset :: u64
  ra_info :: u64
  ra_addend :: u64

record Elf64_Nhdr =
  n_namesz :: u32
  n_descsz :: u32
  n_type :: u32

subsection \<open>Mungers\<close>

text \<open>\<^verbatim>\<open>ByteSwapFunc\<close> and \<^verbatim>\<open>NullFunc\<close>: the function a munger applies to each field.\<close>

definition munge_func :: "bool \<Rightarrow> 'a::len word \<Rightarrow> 'a word" where
  "munge_func swap val = (if swap then ByteSwap val else val)"

text \<open>A field of the structure copied by \<^verbatim>\<open>memcpy\<close>, after the munger's function.\<close>

definition fld :: "bool \<Rightarrow> bytes \<Rightarrow> nat \<Rightarrow> 'a::len word" where
  "fld swap from off = munge_func swap (le_word (take (LENGTH('a) div 8) (drop off from)))"

abbreviation fld8 :: "bool \<Rightarrow> bytes \<Rightarrow> nat \<Rightarrow> u8" where "fld8 \<equiv> fld"
abbreviation fld16 :: "bool \<Rightarrow> bytes \<Rightarrow> nat \<Rightarrow> u16" where "fld16 \<equiv> fld"
abbreviation fld32 :: "bool \<Rightarrow> bytes \<Rightarrow> nat \<Rightarrow> u32" where "fld32 \<equiv> fld"
abbreviation fld64 :: "bool \<Rightarrow> bytes \<Rightarrow> nat \<Rightarrow> u64" where "fld64 \<equiv> fld"

text \<open>The 32-bit fields of a 32-bit structure are widened by the assignment.\<close>

abbreviation wide32 :: "bool \<Rightarrow> bytes \<Rightarrow> nat \<Rightarrow> u64" where "wide32 swap from off \<equiv> ucast (fld32 swap from off)"

definition EhdrMunger :: "bool \<Rightarrow> bool \<Rightarrow> bytes \<Rightarrow> Elf64_Ehdr" where
  "EhdrMunger is_64bit f from =
     (if is_64bit then
        \<lparr>e_ident = take 16 from, e_type = fld16 f from 16, e_machine = fld16 f from 18,
         e_version = fld32 f from 20, e_entry = fld64 f from 24, e_phoff = fld64 f from 32,
         e_shoff = fld64 f from 40, e_flags = fld32 f from 48, e_ehsize = fld16 f from 52,
         e_phentsize = fld16 f from 54, e_phnum = fld16 f from 56, e_shentsize = fld16 f from 58,
         e_shnum = fld16 f from 60, e_shstrndx = fld16 f from 62\<rparr>
      else
        \<lparr>e_ident = take 16 from, e_type = fld16 f from 16, e_machine = fld16 f from 18,
         e_version = fld32 f from 20, e_entry = wide32 f from 24, e_phoff = wide32 f from 28,
         e_shoff = wide32 f from 32, e_flags = fld32 f from 36, e_ehsize = fld16 f from 40,
         e_phentsize = fld16 f from 42, e_phnum = fld16 f from 44, e_shentsize = fld16 f from 46,
         e_shnum = fld16 f from 48, e_shstrndx = fld16 f from 50\<rparr>)"

definition ShdrMunger :: "bool \<Rightarrow> bool \<Rightarrow> bytes \<Rightarrow> Elf64_Shdr" where
  "ShdrMunger is_64bit f from =
     (if is_64bit then
        \<lparr>sh_name = fld32 f from 0, sh_type = fld32 f from 4, sh_flags = fld64 f from 8,
         sh_addr = fld64 f from 16, sh_offset = fld64 f from 24, sh_size = fld64 f from 32,
         sh_link = fld32 f from 40, sh_info = fld32 f from 44, sh_addralign = fld64 f from 48,
         sh_entsize = fld64 f from 56\<rparr>
      else
        \<lparr>sh_name = fld32 f from 0, sh_type = fld32 f from 4, sh_flags = wide32 f from 8,
         sh_addr = wide32 f from 12, sh_offset = wide32 f from 16, sh_size = wide32 f from 20,
         sh_link = fld32 f from 24, sh_info = fld32 f from 28, sh_addralign = wide32 f from 32,
         sh_entsize = wide32 f from 36\<rparr>)"

definition PhdrMunger :: "bool \<Rightarrow> bool \<Rightarrow> bytes \<Rightarrow> Elf64_Phdr" where
  "PhdrMunger is_64bit f from =
     (if is_64bit then
        \<lparr>p_type = fld32 f from 0, p_flags = fld32 f from 4, p_offset = fld64 f from 8,
         p_vaddr = fld64 f from 16, p_paddr = fld64 f from 24, p_filesz = fld64 f from 32,
         p_memsz = fld64 f from 40, p_align = fld64 f from 48\<rparr>
      else
        \<lparr>p_type = fld32 f from 0, p_flags = fld32 f from 24, p_offset = wide32 f from 4,
         p_vaddr = wide32 f from 8, p_paddr = wide32 f from 12, p_filesz = wide32 f from 16,
         p_memsz = wide32 f from 20, p_align = wide32 f from 28\<rparr>)"

definition SymMunger :: "bool \<Rightarrow> bool \<Rightarrow> bytes \<Rightarrow> Elf64_Sym" where
  "SymMunger is_64bit f from =
     (if is_64bit then
        \<lparr>st_name = fld32 f from 0, st_info = fld8 f from 4, st_other = fld8 f from 5,
         st_shndx = fld16 f from 6, st_value = fld64 f from 8, st_size = fld64 f from 16\<rparr>
      else
        \<lparr>st_name = fld32 f from 0, st_info = fld8 f from 12, st_other = fld8 f from 13,
         st_shndx = fld16 f from 14, st_value = wide32 f from 4, st_size = wide32 f from 8\<rparr>)"

definition RelMunger :: "bool \<Rightarrow> bool \<Rightarrow> bytes \<Rightarrow> Elf64_Rel" where
  "RelMunger is_64bit f from =
     (if is_64bit then \<lparr>r_offset = fld64 f from 0, r_info = fld64 f from 8\<rparr>
      else \<lparr>r_offset = wide32 f from 0, r_info = wide32 f from 4\<rparr>)"

text \<open>The addend is signed: widening it extends its sign.\<close>

definition RelaMunger :: "bool \<Rightarrow> bool \<Rightarrow> bytes \<Rightarrow> Elf64_Rela" where
  "RelaMunger is_64bit f from =
     (if is_64bit then
        \<lparr>ra_offset = fld64 f from 0, ra_info = fld64 f from 8, ra_addend = fld64 f from 16\<rparr>
      else
        \<lparr>ra_offset = wide32 f from 0, ra_info = wide32 f from 4, ra_addend = scast (fld32 f from 8)\<rparr>)"

definition NoteMunger :: "bool \<Rightarrow> bool \<Rightarrow> bytes \<Rightarrow> Elf64_Nhdr" where
  "NoteMunger is_64bit f from =
     \<lparr>n_namesz = fld32 f from 0, n_descsz = fld32 f from 4, n_type = fld32 f from 8\<rparr>"

subsection \<open>Files and sections\<close>

record Section =
  sec_header :: Elf64_Shdr
  sec_contents :: bytes
  sec_range :: bytes

record Segment =
  seg_header :: Elf64_Phdr
  seg_contents :: "bytes option"
  seg_range :: bytes

record ElfFile =
  is_64bit :: bool
  is_native_endian :: bool
  elf_data :: bytes
  elf_header :: Elf64_Ehdr
  section_count :: u64
  section_string_index :: u64
  header_region :: bytes
  section_headers :: bytes
  segment_headers :: bytes
  section_name_table :: "Section option"

definition GetRegion :: "ElfFile \<Rightarrow> u64 \<Rightarrow> u64 \<Rightarrow> bytes outcome" where
  "GetRegion elf start n = StrictSubstr (elf_data elf) start n"

text \<open>\<^verbatim>\<open>StructReader::Memcpy\<close>: the copied bytes are those of the range.\<close>

definition Memcpy :: "bytes \<Rightarrow> u64 \<Rightarrow> nat \<Rightarrow> bytes outcome" where
  "Memcpy data offset sz = StrictSubstr data offset (of_nat sz)"

definition ReadFallback ::
    "ElfFile \<Rightarrow> (bool \<Rightarrow> bool \<Rightarrow> bytes \<Rightarrow> 'a) \<Rightarrow> nat \<Rightarrow> nat \<Rightarrow> bytes \<Rightarrow> u64 \<Rightarrow> ('a \<times> bytes) outcome" where
  "ReadFallback elf munger size32 size64 data offset =
     (if is_64bit elf
      then (if is_native_endian elf then Undef
            else obind (Memcpy data offset size64) (\<lambda>range. Ok (munger True True range, range)))
      else obind (Memcpy data offset size32) (\<lambda>range.
             if is_native_endian elf then Ok (munger False False range, range)
             else Ok (munger False True range, range)))"

definition ReadStruct ::
    "ElfFile \<Rightarrow> (bool \<Rightarrow> bool \<Rightarrow> bytes \<Rightarrow> 'a) \<Rightarrow> nat \<Rightarrow> nat \<Rightarrow> bytes \<Rightarrow> u64 \<Rightarrow> ('a \<times> bytes) outcome" where
  "ReadStruct elf munger size32 size64 data offset =
     (if is_64bit elf \<and> is_native_endian elf
      then obind (Memcpy data offset size64) (\<lambda>range. Ok (munger True False range, range))
      else ReadFallback elf munger size32 size64 data offset)"

abbreviation SHT_SYMTAB :: u32 where "SHT_SYMTAB \<equiv> 2"
abbreviation SHT_STRTAB :: u32 where "SHT_STRTAB \<equiv> 3"
abbreviation SHT_RELA :: u32 where "SHT_RELA \<equiv> 4"
abbreviation SHT_NOBITS :: u32 where "SHT_NOBITS \<equiv> 8"
abbreviation SHT_REL :: u32 where "SHT_REL \<equiv> 9"
abbreviation SHT_DYNSYM :: u32 where "SHT_DYNSYM \<equiv> 11"

definition ReadString :: "Section \<Rightarrow> u32 \<Rightarrow> bytes outcome" where
  "ReadString sec index =
     (if sh_type (sec_header sec) \<noteq> SHT_STRTAB then Undef
      else if index = 0 \<or> length (sec_contents sec) \<le> unat index then Exit
      else obind (StrictSubstr_from (sec_contents sec) (ucast index)) (\<lambda>ret.
             case memchr 0 ret of None \<Rightarrow> Exit | Some len \<Rightarrow> Ok (take len ret)))"

definition GetName :: "ElfFile \<Rightarrow> Section \<Rightarrow> bytes outcome" where
  "GetName elf sec =
     (if sh_name (sec_header sec) = 0 then Ok []
      else case section_name_table elf of
             None \<Rightarrow> Undef
           | Some names \<Rightarrow> ReadString names (sh_name (sec_header sec)))"

definition GetEntryCount :: "Section \<Rightarrow> u32 outcome" where
  "GetEntryCount sec =
     (if sh_entsize (sec_header sec) = 0 then Exit
      else Ok (ucast (of_nat (length (sec_contents sec)) div sh_entsize (sec_header sec))))"

definition ReadSymbol :: "ElfFile \<Rightarrow> Section \<Rightarrow> u32 \<Rightarrow> (Elf64_Sym \<times> bytes) outcome" where
  "ReadSymbol elf sec index =
     (if sh_type (sec_header sec) = SHT_SYMTAB \<or> sh_type (sec_header sec) = SHT_DYNSYM
      then ReadStruct elf SymMunger 16 24 (sec_contents sec) (sh_entsize (sec_header sec) * ucast index)
      else Undef)"

definition ReadRelocation :: "ElfFile \<Rightarrow> Section \<Rightarrow> u32 \<Rightarrow> (Elf64_Rel \<times> bytes) outcome" where
  "ReadRelocation elf sec index =
     (if sh_type (sec_header sec) = SHT_REL
      then ReadStruct elf RelMunger 8 16 (sec_contents sec) (sh_entsize (sec_header sec) * ucast index)
      else Undef)"

definition ReadRelocationWithAddend :: "ElfFile \<Rightarrow> Section \<Rightarrow> u32 \<Rightarrow> (Elf64_Rela \<times> bytes) outcome" where
  "ReadRelocationWithAddend elf sec index =
     (if sh_type (sec_header sec) = SHT_RELA
      then ReadStruct elf RelaMunger 12 24 (sec_contents sec) (sh_entsize (sec_header sec) * ucast index)
      else Undef)"

definition ReadSegment :: "ElfFile \<Rightarrow> u64 \<Rightarrow> Segment outcome" where
  "ReadSegment elf index =
     (let h = elf_header elf in
      if ucast (e_phnum h) \<le> index then Exit
      else obind (CheckedMul (ucast (e_phentsize h)) index) (\<lambda>rel.
           obind (CheckedAdd (e_phoff h) rel) (\<lambda>off.
           obind (ReadStruct elf PhdrMunger 32 56 (elf_data elf) off) (\<lambda>(header, range).
             if 0 < p_filesz header
             then obind (GetRegion elf (p_offset header) (p_filesz header)) (\<lambda>contents.
                    Ok \<lparr>seg_header = header, seg_contents = Some contents, seg_range = range\<rparr>)
             else Ok \<lparr>seg_header = header, seg_contents = None, seg_range = range\<rparr>))))"

definition ReadSection :: "ElfFile \<Rightarrow> u64 \<Rightarrow> Section outcome" where
  "ReadSection elf index =
     (let h = elf_header elf in
      if section_count elf \<le> index then Exit
      else obind (CheckedMul (ucast (e_shentsize h)) index) (\<lambda>rel.
           obind (CheckedAdd (e_shoff h) rel) (\<lambda>off.
           obind (ReadStruct elf ShdrMunger 40 64 (elf_data elf) off) (\<lambda>(header, range).
             if sh_type header = SHT_NOBITS
             then Ok \<lparr>sec_header = header, sec_contents = [], sec_range = range\<rparr>
             else obind (GetRegion elf (sh_offset header) (sh_size header)) (\<lambda>contents.
                    Ok \<lparr>sec_header = header, sec_contents = contents, sec_range = range\<rparr>)))))"

subsection \<open>Opening a file\<close>

text \<open>\<^verbatim>\<open>Initialize\<close> fills the members in turn. \<open>None\<close> is its result \<^verbatim>\<open>false\<close>: the data is not
  an ELF file at all. Members that are still to be filled hold zeros; each is assigned before it is
  read.\<close>

definition elf_ident :: "bytes \<Rightarrow> ElfFile option outcome" where
  "elf_ident data =
     (if length data < 16 \<or> take 4 data \<noteq> [0x7f, 0x45, 0x4c, 0x46] then Ok None
      else
        obind (if data ! 4 = 1 then Ok False else if data ! 4 = 2 then Ok True else Exit) (\<lambda>b64.
        obind (if data ! 5 = 1 then Ok (GetMachineEndian = kLittle)
               else if data ! 5 = 2 then Ok (GetMachineEndian = kBig) else Exit) (\<lambda>native.
          Ok (Some \<lparr>is_64bit = b64, is_native_endian = native, elf_data = data,
                   elf_header = EhdrMunger True False [], section_count = 0, section_string_index = 0,
                   header_region = [], section_headers = [], segment_headers = [],
                   section_name_table = None\<rparr>))))"

definition elf_counts :: "ElfFile \<Rightarrow> ElfFile outcome" where
  "elf_counts elf =
     (let h = elf_header elf in
      obind (if 0 < e_shoff h \<and> unat (e_shoff h + ucast (e_shentsize h)) < length (elf_data elf)
             then obind (ReadSection (elf\<lparr>section_count := 1\<rparr>) 0) (\<lambda>s. Ok (Some s)) else Ok None)
        (\<lambda>section0.
          let count = ucast (e_shnum h); str = ucast (e_shstrndx h)
          in Ok (elf\<lparr>section_count :=
                       (case section0 of Some s \<Rightarrow> if count = 0 then sh_size (sec_header s) else count
                        | None \<Rightarrow> count),
                     section_string_index :=
                       (case section0 of Some s \<Rightarrow> if str = 0xffff then ucast (sh_link (sec_header s)) else str
                        | None \<Rightarrow> str)\<rparr>)))"

definition elf_regions :: "ElfFile \<Rightarrow> ElfFile outcome" where
  "elf_regions elf =
     (let h = elf_header elf in
      obind (GetRegion elf 0 (ucast (e_ehsize h))) (\<lambda>hr.
      obind (CheckedMul (ucast (e_shentsize h)) (section_count elf)) (\<lambda>n.
      obind (GetRegion elf (e_shoff h) n) (\<lambda>sh.
      obind (CheckedMul (ucast (e_phentsize h)) (ucast (e_phnum h))) (\<lambda>m.
      obind (GetRegion elf (e_phoff h) m) (\<lambda>ph.
        Ok (elf\<lparr>header_region := hr, section_headers := sh, segment_headers := ph\<rparr>)))))))"

definition elf_names :: "ElfFile \<Rightarrow> ElfFile outcome" where
  "elf_names elf =
     (if 0 < section_count elf
      then obind (ReadSection elf (section_string_index elf)) (\<lambda>names.
             if sh_type (sec_header names) \<noteq> SHT_STRTAB then Exit
             else Ok (elf\<lparr>section_name_table := Some names\<rparr>))
      else Ok elf)"

definition Initialize_elf :: "bytes \<Rightarrow> ElfFile option outcome" where
  "Initialize_elf data =
     obind (elf_ident data) (\<lambda>ident.
       case ident of
         None \<Rightarrow> Ok None
       | Some elf \<Rightarrow>
           obind (ReadStruct elf EhdrMunger 52 64 (elf_data elf) 0) (\<lambda>(h, range).
           obind (elf_counts (elf\<lparr>elf_header := h\<rparr>)) (\<lambda>elf.
           obind (elf_regions elf) (\<lambda>elf.
           obind (elf_names elf) (\<lambda>elf. Ok (Some elf))))))"

text \<open>The loop of \<^verbatim>\<open>FindSectionByName\<close> counts in 32 bits up to a 64-bit bound: \<open>None\<close> is a loop
  that does not end.\<close>

partial_function (option) find_section :: "ElfFile \<Rightarrow> bytes \<Rightarrow> u32 \<Rightarrow> Section option outcome option" where
  "find_section elf name i =
     (if ucast i < section_count elf then
        (case ReadSection elf (ucast i) of
           Ok sec \<Rightarrow>
             (case GetName elf sec of
                Ok nm \<Rightarrow> if nm = name then Some (Ok (Some sec)) else find_section elf name (i + 1)
              | Exit \<Rightarrow> Some Exit | Undef \<Rightarrow> Some Undef)
         | Exit \<Rightarrow> Some Exit | Undef \<Rightarrow> Some Undef)
      else Some (Ok None))"

definition FindSectionByName :: "ElfFile \<Rightarrow> bytes \<Rightarrow> Section option outcome option" where
  "FindSectionByName elf name = find_section elf name 0"

subsection \<open>Notes\<close>

record NoteIter =
  note_name :: bytes
  note_descriptor :: bytes
  note_remaining :: bytes
  note_type :: "u32 option"
  note_done :: bool

definition Next_note :: "ElfFile \<Rightarrow> NoteIter \<Rightarrow> NoteIter outcome" where
  "Next_note elf it =
     (if note_remaining it = [] then Ok (it\<lparr>note_done := True\<rparr>)
      else
        obind (ReadStruct elf NoteMunger 12 12 (note_remaining it) 0) (\<lambda>(note, _).
        let remaining = drop 12 (note_remaining it) in
        obind (StrictSubstr remaining 0 (ucast (n_namesz note))) (\<lambda>name.
        obind (if name = [] then Undef
               else Ok (if name ! (length name - 1) = 0 then take (length name - 1) name else name)) (\<lambda>name.
        obind (obind (AlignUp_dwarf (ucast (n_namesz note)) 4) (StrictSubstr_from remaining)) (\<lambda>remaining.
        obind (StrictSubstr remaining 0 (ucast (n_descsz note))) (\<lambda>descriptor.
        obind (obind (AlignUp_dwarf (ucast (n_descsz note)) 4) (StrictSubstr_from remaining)) (\<lambda>remaining.
          Ok (it\<lparr>note_name := name, note_descriptor := descriptor, note_remaining := remaining,
                 note_type := Some (n_type note)\<rparr>))))))))"

definition new_NoteIter :: "ElfFile \<Rightarrow> Section \<Rightarrow> NoteIter outcome" where
  "new_NoteIter elf sec =
     Next_note elf \<lparr>note_name = [], note_descriptor = [], note_remaining = sec_contents sec,
                    note_type = None, note_done = False\<rparr>"

section \<open>Reading structures\<close>

subsection \<open>The layouts of the ELF specification\<close>

text \<open>A structure as a file of the given class and byte order stores it: its fields, in the order
  of the specification. \<open>w\<close> writes the fields whose width is that of the class.\<close>

definition class_bytes :: "bool \<Rightarrow> Endian \<Rightarrow> u64 \<Rightarrow> bytes" where
  "class_bytes b64 e v = (if b64 then endian_bytes e v else endian_bytes e (ucast v :: u32))"

definition fits :: "bool \<Rightarrow> u64 \<Rightarrow> bool" where
  "fits b64 v \<longleftrightarrow> b64 \<or> unat v < 2 ^ 32"

definition enc_Ehdr :: "bool \<Rightarrow> Endian \<Rightarrow> Elf64_Ehdr \<Rightarrow> bytes" where
  "enc_Ehdr b64 e h = (let w = class_bytes b64 e in
     e_ident h @ endian_bytes e (e_type h) @ endian_bytes e (e_machine h) @ endian_bytes e (e_version h) @
     w (e_entry h) @ w (e_phoff h) @ w (e_shoff h) @ endian_bytes e (e_flags h) @
     endian_bytes e (e_ehsize h) @ endian_bytes e (e_phentsize h) @ endian_bytes e (e_phnum h) @
     endian_bytes e (e_shentsize h) @ endian_bytes e (e_shnum h) @ endian_bytes e (e_shstrndx h))"

definition fits_Ehdr :: "bool \<Rightarrow> Elf64_Ehdr \<Rightarrow> bool" where
  "fits_Ehdr b64 h \<longleftrightarrow> length (e_ident h) = 16 \<and> fits b64 (e_entry h) \<and> fits b64 (e_phoff h) \<and> fits b64 (e_shoff h)"

definition enc_Shdr :: "bool \<Rightarrow> Endian \<Rightarrow> Elf64_Shdr \<Rightarrow> bytes" where
  "enc_Shdr b64 e h = (let w = class_bytes b64 e in
     endian_bytes e (sh_name h) @ endian_bytes e (sh_type h) @ w (sh_flags h) @ w (sh_addr h) @
     w (sh_offset h) @ w (sh_size h) @ endian_bytes e (sh_link h) @ endian_bytes e (sh_info h) @
     w (sh_addralign h) @ w (sh_entsize h))"

definition fits_Shdr :: "bool \<Rightarrow> Elf64_Shdr \<Rightarrow> bool" where
  "fits_Shdr b64 h \<longleftrightarrow> fits b64 (sh_flags h) \<and> fits b64 (sh_addr h) \<and> fits b64 (sh_offset h) \<and>
     fits b64 (sh_size h) \<and> fits b64 (sh_addralign h) \<and> fits b64 (sh_entsize h)"

text \<open>The program header and the symbol have their fields in different orders.\<close>

definition enc_Phdr :: "bool \<Rightarrow> Endian \<Rightarrow> Elf64_Phdr \<Rightarrow> bytes" where
  "enc_Phdr b64 e h = (let w = class_bytes b64 e in
     endian_bytes e (p_type h) @ (if b64 then endian_bytes e (p_flags h) else []) @
     w (p_offset h) @ w (p_vaddr h) @ w (p_paddr h) @ w (p_filesz h) @ w (p_memsz h) @
     (if b64 then [] else endian_bytes e (p_flags h)) @ w (p_align h))"

definition fits_Phdr :: "bool \<Rightarrow> Elf64_Phdr \<Rightarrow> bool" where
  "fits_Phdr b64 h \<longleftrightarrow> fits b64 (p_offset h) \<and> fits b64 (p_vaddr h) \<and> fits b64 (p_paddr h) \<and>
     fits b64 (p_filesz h) \<and> fits b64 (p_memsz h) \<and> fits b64 (p_align h)"

definition enc_Sym :: "bool \<Rightarrow> Endian \<Rightarrow> Elf64_Sym \<Rightarrow> bytes" where
  "enc_Sym b64 e h = (let w = class_bytes b64 e;
       rest = endian_bytes e (st_info h) @ endian_bytes e (st_other h) @ endian_bytes e (st_shndx h)
     in endian_bytes e (st_name h) @ (if b64 then rest else []) @ w (st_value h) @ w (st_size h) @
        (if b64 then [] else rest))"

definition fits_Sym :: "bool \<Rightarrow> Elf64_Sym \<Rightarrow> bool" where
  "fits_Sym b64 h \<longleftrightarrow> fits b64 (st_value h) \<and> fits b64 (st_size h)"

definition enc_Rela :: "bool \<Rightarrow> Endian \<Rightarrow> Elf64_Rela \<Rightarrow> bytes" where
  "enc_Rela b64 e h = (let w = class_bytes b64 e in w (ra_offset h) @ w (ra_info h) @ w (ra_addend h))"

definition fits_Rela :: "bool \<Rightarrow> Elf64_Rela \<Rightarrow> bool" where
  "fits_Rela b64 h \<longleftrightarrow> fits b64 (ra_offset h) \<and> fits b64 (ra_info h) \<and>
     (b64 \<or> - (2 ^ 31) \<le> sint (ra_addend h) \<and> sint (ra_addend h) < 2 ^ 31)"

definition enc_Rel :: "bool \<Rightarrow> Endian \<Rightarrow> Elf64_Rel \<Rightarrow> bytes" where
  "enc_Rel b64 e h = (let w = class_bytes b64 e in w (r_offset h) @ w (r_info h))"

definition fits_Rel :: "bool \<Rightarrow> Elf64_Rel \<Rightarrow> bool" where
  "fits_Rel b64 h \<longleftrightarrow> fits b64 (r_offset h) \<and> fits b64 (r_info h)"

definition enc_Nhdr :: "bool \<Rightarrow> Endian \<Rightarrow> Elf64_Nhdr \<Rightarrow> bytes" where
  "enc_Nhdr b64 e h = endian_bytes e (n_namesz h) @ endian_bytes e (n_descsz h) @ endian_bytes e (n_type h)"

lemma munge_endian_bytes [simp]:
  "munge_func (e \<noteq> kLittle) (le_word (endian_bytes e (a :: u8))) = a"
  "munge_func (e \<noteq> kLittle) (le_word (endian_bytes e (b :: u16))) = b"
  "munge_func (e \<noteq> kLittle) (le_word (endian_bytes e (c :: u32))) = c"
  "munge_func (e \<noteq> kLittle) (le_word (endian_bytes e (d :: u64))) = d"
  using endian_bytes_word[where 'a = 8, of 0 e a] endian_bytes_word[where 'a = 16, of 1 e b]
    endian_bytes_word[where 'a = 32, of 2 e c] endian_bytes_word[where 'a = 64, of 3 e d]
  by (auto simp: munge_func_def split: if_splits)

lemma ucast_fits: "unat (v :: u64) < 2 ^ 32 \<Longrightarrow> ucast (ucast v :: u32) = v"
  by (simp add: word_unat_eq_iff unat_ucast_up unat_ucast_trunc take_bit_nat_eq_self)

lemma scast_fits:
  fixes v :: u64
  assumes "- (2 ^ 31) \<le> sint v" "sint v < 2 ^ 31"
  shows "scast (ucast v :: u32) = v"
proof -
  have "sint (ucast v :: u32) = signed_take_bit 31 (sint v)"
    by (simp add: sint_uint unsigned_ucast_eq signed_take_bit_take_bit unsigned_take_bit_eq)
  also have "\<dots> = sint v" using assms by (simp add: signed_take_bit_int_eq_self)
  finally have "scast (ucast v :: u32) = (word_of_int (sint v) :: u64)" by (simp only: scast_eq)
  then show ?thesis by simp
qed

lemmas layout_simps = fld_def class_bytes_def Let_def ucast_fits scast_fits fits_def

subsection \<open>One reader for every structure\<close>

definition elf_endian :: "ElfFile \<Rightarrow> Endian" where
  "elf_endian elf = (if is_native_endian elf then kLittle else kBig)"

locale elf_struct =
  fixes munger :: "bool \<Rightarrow> bool \<Rightarrow> bytes \<Rightarrow> 'a" and size32 size64 :: nat
    and enc :: "bool \<Rightarrow> Endian \<Rightarrow> 'a \<Rightarrow> bytes" and fits_struct :: "bool \<Rightarrow> 'a \<Rightarrow> bool"
  assumes enc_size: "fits_struct b v \<Longrightarrow> length (enc b e v) = (if b then size64 else size32)"
    and munger_enc: "fits_struct b v \<Longrightarrow> munger b (e \<noteq> kLittle) (enc b e v) = v"
    and size_bound: "size32 < 2 ^ 64" "size64 < 2 ^ 64"
begin

lemma ReadStruct_eq:
  "ReadStruct elf munger size32 size64 data off =
     obind (StrictSubstr data off (of_nat (if is_64bit elf then size64 else size32)))
       (\<lambda>range. Ok (munger (is_64bit elf) (\<not> is_native_endian elf) range, range))"
  by (cases "is_native_endian elf") (simp_all add: ReadStruct_def ReadFallback_def Memcpy_def)

lemma ReadStruct_defined: "ReadStruct elf munger size32 size64 data off \<noteq> Undef"
  by (simp add: ReadStruct_eq obind_eq_Undef)

lemma ReadStruct_inside:
  assumes "ReadStruct elf munger size32 size64 data off = Ok (v, rng)"
  shows "unat off + length rng \<le> length data" "rng = take (length rng) (drop (unat off) data)"
    "length rng = (if is_64bit elf then size64 else size32)"
  using assms size_bound by (auto simp: ReadStruct_eq reads unat_of_nat_less)

lemma ReadStruct_enc:
  assumes "fits_struct (is_64bit elf) v" and off: "unat off = length pre"
    and len: "length (pre @ enc (is_64bit elf) (elf_endian elf) v) < 2 ^ 64"
  shows "ReadStruct elf munger size32 size64 (pre @ enc (is_64bit elf) (elf_endian elf) v @ post) off =
    Ok (v, enc (is_64bit elf) (elf_endian elf) v)"
proof -
  let ?n = "if is_64bit elf then size64 else size32"
  have n: "unat (of_nat ?n :: u64) = ?n" using size_bound by (simp add: unat_of_nat_less)
  have m: "munger (is_64bit elf) (\<not> is_native_endian elf) (enc (is_64bit elf) (elf_endian elf) v) = v"
    using munger_enc[OF assms(1), of "elf_endian elf"] by (auto simp: elf_endian_def split: if_splits)
  have "StrictSubstr (pre @ enc (is_64bit elf) (elf_endian elf) v @ post) off (of_nat ?n) =
      Ok (enc (is_64bit elf) (elf_endian elf) v)"
    unfolding StrictSubstr_Ok_iff n using off len enc_size[OF assms(1), of "elf_endian elf"] by simp
  then show ?thesis by (simp only: ReadStruct_eq obind.simps m)
qed

end

interpretation ehdr: elf_struct EhdrMunger 52 64 enc_Ehdr fits_Ehdr
  by unfold_locales (auto simp: enc_Ehdr_def fits_Ehdr_def EhdrMunger_def layout_simps)

interpretation shdr: elf_struct ShdrMunger 40 64 enc_Shdr fits_Shdr
  by unfold_locales (auto simp: enc_Shdr_def fits_Shdr_def ShdrMunger_def layout_simps)

interpretation phdr: elf_struct PhdrMunger 32 56 enc_Phdr fits_Phdr
  by unfold_locales (auto simp: enc_Phdr_def fits_Phdr_def PhdrMunger_def layout_simps)

interpretation sym: elf_struct SymMunger 16 24 enc_Sym fits_Sym
  by unfold_locales (auto simp: enc_Sym_def fits_Sym_def SymMunger_def layout_simps)

interpretation rel: elf_struct RelMunger 8 16 enc_Rel fits_Rel
  by unfold_locales (auto simp: enc_Rel_def fits_Rel_def RelMunger_def layout_simps)

interpretation rela: elf_struct RelaMunger 12 24 enc_Rela fits_Rela
  by unfold_locales (auto simp: enc_Rela_def fits_Rela_def RelaMunger_def layout_simps)

interpretation nhdr: elf_struct NoteMunger 12 12 enc_Nhdr "\<lambda>_ _. True"
  by unfold_locales (auto simp: enc_Nhdr_def NoteMunger_def layout_simps)

section \<open>Sections\<close>

lemmas read_struct_defined [defined, simp] =
  ehdr.ReadStruct_defined shdr.ReadStruct_defined phdr.ReadStruct_defined sym.ReadStruct_defined
  rel.ReadStruct_defined rela.ReadStruct_defined nhdr.ReadStruct_defined

lemma GetRegion_defined [defined, simp]: "GetRegion elf a n \<noteq> Undef"
  by (simp add: GetRegion_def)

lemma ReadSection_defined [defined, simp]: "ReadSection elf i \<noteq> Undef"
  by (auto simp: ReadSection_def Let_def obind_eq_Undef split: prod.splits)

lemma ReadSegment_defined [defined, simp]: "ReadSegment elf i \<noteq> Undef"
  by (auto simp: ReadSegment_def Let_def obind_eq_Undef split: prod.splits)

text \<open>Where the header of a section and its contents lie in the file.\<close>

definition section_inside :: "ElfFile \<Rightarrow> Section \<Rightarrow> bool" where
  "section_inside elf sec \<longleftrightarrow>
     (if sh_type (sec_header sec) = SHT_NOBITS then sec_contents sec = []
      else unat (sh_offset (sec_header sec)) + unat (sh_size (sec_header sec)) \<le> length (elf_data elf) \<and>
        sec_contents sec = take (unat (sh_size (sec_header sec)))
          (drop (unat (sh_offset (sec_header sec))) (elf_data elf)))"

lemma ReadSection_Ok:
  assumes "ReadSection elf i = Ok sec"
  shows "i < section_count elf" "section_inside elf sec"
    "ReadStruct elf ShdrMunger 40 64 (elf_data elf) (e_shoff (elf_header elf) + ucast (e_shentsize (elf_header elf)) * i)
       = Ok (sec_header sec, sec_range sec)"
  using assms by (auto simp: ReadSection_def Let_def reads GetRegion_def section_inside_def not_le split: if_splits)

lemma ReadSection_cong:
  assumes "is_64bit elf' = is_64bit elf" "is_native_endian elf' = is_native_endian elf"
    "elf_data elf' = elf_data elf" "elf_header elf' = elf_header elf" "section_count elf' = section_count elf"
  shows "ReadSection elf' i = ReadSection elf i"
proof -
  have "ReadStruct elf' ShdrMunger 40 64 = ReadStruct elf ShdrMunger 40 64" "GetRegion elf' = GetRegion elf"
    using assms by (auto simp: fun_eq_iff shdr.ReadStruct_eq GetRegion_def)
  with assms show ?thesis by (simp only: ReadSection_def)
qed

lemma ReadSymbol_defined:
  "sh_type (sec_header sec) = SHT_SYMTAB \<Longrightarrow> ReadSymbol elf sec i \<noteq> Undef"
  by (simp add: ReadSymbol_def)

lemma ReadString_defined: "sh_type (sec_header sec) = SHT_STRTAB \<Longrightarrow> ReadString sec i \<noteq> Undef"
  by (auto simp: ReadString_def obind_eq_Undef split: option.splits)

lemma ReadString_Ok:
  assumes "ReadString sec i = Ok s"
  shows "\<exists>rest. drop (unat i) (sec_contents sec) = s @ 0 # rest \<and> 0 \<notin> set s"
proof -
  have u: "unat (ucast i :: u64) = unat i" by (simp add: unat_ucast_up)
  from assms obtain len where len: "memchr 0 (drop (unat i) (sec_contents sec)) = Some len"
      and s: "s = take len (drop (unat i) (sec_contents sec))"
    by (auto simp: ReadString_def reads u split: if_splits option.splits)
  let ?d = "drop (unat i) (sec_contents sec)"
  have "?d = take len ?d @ 0 # drop (Suc len) ?d"
    using memchr_SomeD[OF len] id_take_nth_drop[of len ?d] by simp
  with s memchr_SomeD[OF len] show ?thesis by blast
qed

section \<open>Opening a file\<close>

text \<open>What a successfully opened file satisfies.\<close>

definition elf_ok :: "ElfFile \<Rightarrow> bool" where
  "elf_ok elf \<longleftrightarrow>
     unat (e_shoff (elf_header elf)) + unat (e_shentsize (elf_header elf)) * unat (section_count elf)
       \<le> length (elf_data elf) \<and>
     (0 < section_count elf \<longrightarrow> (\<exists>names. section_name_table elf = Some names \<and>
        ReadSection elf (section_string_index elf) = Ok names \<and> sh_type (sec_header names) = SHT_STRTAB))"

lemma elf_ident_defined [simp]: "elf_ident data \<noteq> Undef"
  by (auto simp: elf_ident_def obind_eq_Undef split: if_splits)

lemma elf_counts_defined [simp]: "elf_counts elf \<noteq> Undef"
  by (auto simp: elf_counts_def Let_def obind_eq_Undef split: if_splits)

lemma elf_regions_defined [simp]: "elf_regions elf \<noteq> Undef"
  by (auto simp: elf_regions_def Let_def obind_eq_Undef split: if_splits)

lemma elf_names_defined [simp]: "elf_names elf \<noteq> Undef"
  by (auto simp: elf_names_def obind_eq_Undef split: if_splits)

lemma Initialize_elf_defined [defined, simp]: "Initialize_elf data \<noteq> Undef"
  by (auto simp: Initialize_elf_def obind_eq_Undef split: option.splits prod.splits)

lemma elf_ident_data: "elf_ident data = Ok (Some elf) \<Longrightarrow> elf_data elf = data"
  by (auto simp: elf_ident_def reads split: if_splits)

lemma elf_counts_Ok:
  assumes "elf_counts elf = Ok elf'"
  obtains n i where "elf' = elf\<lparr>section_count := n, section_string_index := i\<rparr>"
    "unat n < 2 ^ 16 \<or> (\<exists>s0 :: Section. ReadSection (elf\<lparr>section_count := 1\<rparr>) 0 = Ok s0 \<and> n = sh_size (sec_header s0))"
proof -
  let ?h = "elf_header elf"
  let ?count = "ucast (e_shnum ?h) :: u64" and ?str = "ucast (e_shstrndx ?h) :: u64"
  have small: "unat ?count < 2 ^ 16"
    using unat_less_exp[of "e_shnum ?h"] by (simp add: unat_ucast_up)
  from assms obtain section0 where
    s0: "section0 = None \<or> (\<exists>s. section0 = Some s \<and> ReadSection (elf\<lparr>section_count := 1\<rparr>) 0 = Ok s)" and
    eq: "elf' = elf\<lparr>section_count := (case section0 of Some s \<Rightarrow> if ?count = 0 then sh_size (sec_header s) else ?count
           | None \<Rightarrow> ?count), section_string_index := (case section0 of Some s \<Rightarrow> if ?str = 0xffff
           then ucast (sh_link (sec_header s)) else ?str | None \<Rightarrow> ?str)\<rparr>"
    unfolding elf_counts_def Let_def obind_Ok_iff by (auto simp only: obind_Ok_iff outcome.inject split: if_splits)
  show thesis by (rule that[OF eq]) (use small s0 in \<open>auto split: option.splits\<close>)
qed

lemma elf_regions_Ok:
  assumes "elf_regions elf = Ok elf'"
  obtains a b c where "elf' = elf\<lparr>header_region := a, section_headers := b, segment_headers := c\<rparr>"
    "unat (e_shoff (elf_header elf)) + unat (e_shentsize (elf_header elf)) * unat (section_count elf) \<le> length (elf_data elf)"
proof -
  let ?h = "elf_header elf"
  from assms obtain a b c n where eq: "elf' = elf\<lparr>header_region := a, section_headers := b, segment_headers := c\<rparr>"
      and n: "CheckedMul (ucast (e_shentsize ?h)) (section_count elf) = Ok n"
      and b: "GetRegion elf (e_shoff ?h) n = Ok b"
    unfolding elf_regions_def Let_def by (auto simp only: obind_Ok_iff outcome.inject)
  have u: "unat (ucast (e_shentsize ?h) :: u64) = unat (e_shentsize ?h)" by (simp add: unat_ucast_up)
  from n have "unat n = unat (e_shentsize ?h) * unat (section_count elf)"
    by (simp add: CheckedMul_Ok_iff u unat_word_ariths)
  with b show thesis by (intro that[OF eq]) (simp add: GetRegion_def StrictSubstr_Ok_iff)
qed

lemma elf_names_Ok:
  assumes "elf_names elf = Ok elf'"
  obtains t where "elf' = elf\<lparr>section_name_table := t\<rparr>"
    "0 < section_count elf \<Longrightarrow> \<exists>names. t = Some names \<and> ReadSection elf (section_string_index elf) = Ok names \<and>
       sh_type (sec_header names) = SHT_STRTAB"
proof (cases "0 < section_count elf")
  case True
  with assms that show thesis by (auto simp: elf_names_def reads split: if_splits)
next
  case False
  with assms have "elf' = elf\<lparr>section_name_table := section_name_table elf\<rparr>" by (simp add: elf_names_def)
  with that False show thesis by blast
qed

lemma Initialize_elf_Ok:
  assumes "Initialize_elf data = Ok (Some elf)"
  shows "elf_data elf = data" "elf_ok elf"
    "unat (section_count elf) < 2 ^ 16 \<or>
     (\<exists>s0 :: Section. ReadStruct elf ShdrMunger 40 64 data (e_shoff (elf_header elf)) = Ok (sec_header s0, sec_range s0) \<and>
        section_count elf = sh_size (sec_header s0))"
proof -
  from assms obtain e0 h rng e1 e2 where e0: "elf_ident data = Ok (Some e0)"
      and e1: "elf_counts (e0\<lparr>elf_header := h\<rparr>) = Ok e1" and e2: "elf_regions e1 = Ok e2"
      and e3: "elf_names e2 = Ok elf"
    by (auto simp: Initialize_elf_def obind_Ok_iff split: option.splits)
  let ?e0 = "e0\<lparr>elf_header := h\<rparr>"
  from elf_counts_Ok[OF e1] obtain n i where r1: "e1 = ?e0\<lparr>section_count := n, section_string_index := i\<rparr>"
      and n: "unat n < 2 ^ 16 \<or> (\<exists>s0 :: Section. ReadSection (?e0\<lparr>section_count := 1\<rparr>) 0 = Ok s0 \<and> n = sh_size (sec_header s0))"
    by blast
  from elf_regions_Ok[OF e2] obtain a b c where
      r2: "e2 = e1\<lparr>header_region := a, section_headers := b, segment_headers := c\<rparr>" and
      bound: "unat (e_shoff (elf_header e1)) + unat (e_shentsize (elf_header e1)) * unat (section_count e1) \<le> length (elf_data e1)"
    by blast
  from elf_names_Ok[OF e3] obtain t where r3: "elf = e2\<lparr>section_name_table := t\<rparr>" and
      t: "0 < section_count e2 \<Longrightarrow> \<exists>names. t = Some names \<and> ReadSection e2 (section_string_index e2) = Ok names \<and>
        sh_type (sec_header names) = SHT_STRTAB"
    by blast
  from elf_ident_data[OF e0] have d0: "elf_data e0 = data" .
  show d: "elf_data elf = data" using d0 by (simp add: r1 r2 r3)
  have same: "ReadSection elf j = ReadSection e2 j" for j
    by (rule ReadSection_cong) (simp_all add: r3)
  show "elf_ok elf" using bound t unfolding elf_ok_def same by (auto simp: r3 r2)
  have st: "ReadStruct (?e0\<lparr>section_count := 1\<rparr>) ShdrMunger 40 64 = ReadStruct elf ShdrMunger 40 64"
    by (simp add: fun_eq_iff shdr.ReadStruct_eq r1 r2 r3)
  show "unat (section_count elf) < 2 ^ 16 \<or>
     (\<exists>s0 :: Section. ReadStruct elf ShdrMunger 40 64 data (e_shoff (elf_header elf)) = Ok (sec_header s0, sec_range s0) \<and>
        section_count elf = sh_size (sec_header s0))"
    using n ReadSection_Ok(3)[of "?e0\<lparr>section_count := 1\<rparr>" 0] unfolding st
    by (auto simp: r1 r2 r3 d0)
qed

lemma section_count_bound:
  assumes "Initialize_elf data = Ok (Some elf)"
  shows "unat (section_count elf) < 2 ^ 16 \<or> unat (section_count elf) \<le> length data"
proof (cases "e_shentsize (elf_header elf) = 0")
  case True
  show ?thesis
  proof (rule disjE[OF Initialize_elf_Ok(3)[OF assms]])
    assume "\<exists>s0 :: Section. ReadStruct elf ShdrMunger 40 64 data (e_shoff (elf_header elf)) = Ok (sec_header s0, sec_range s0) \<and>
        section_count elf = sh_size (sec_header s0)"
    then obtain s0 :: Section where s0: "ReadStruct elf ShdrMunger 40 64 data (e_shoff (elf_header elf)) = Ok (sec_header s0, sec_range s0)"
      "section_count elf = sh_size (sec_header s0)" by blast
    show ?thesis
    proof (cases "0 < section_count elf")
      case pos: True
      with Initialize_elf_Ok(2)[OF assms] obtain names where
          r: "ReadSection elf (section_string_index elf) = Ok names" and ty: "sh_type (sec_header names) = SHT_STRTAB"
        by (auto simp: elf_ok_def)
      from ReadSection_Ok(3)[OF r] s0 True Initialize_elf_Ok(1)[OF assms]
      have "sec_header names = sec_header s0" by simp
      with ReadSection_Ok(2)[OF r] ty s0(2) Initialize_elf_Ok(1)[OF assms] show ?thesis
        by (simp add: section_inside_def)
    qed (simp add: word_gt_0)
  qed simp
next
  case False
  then have "0 < unat (e_shentsize (elf_header elf))" by (simp add: unat_gt_0)
  then have "unat (section_count elf) \<le> unat (e_shentsize (elf_header elf)) * unat (section_count elf)" by simp
  moreover have "unat (e_shoff (elf_header elf)) + unat (e_shentsize (elf_header elf)) * unat (section_count elf) \<le> length data"
    using Initialize_elf_Ok(1,2)[OF assms] by (simp add: elf_ok_def)
  ultimately show ?thesis by linarith
qed

lemma GetName_defined:
  assumes "elf_ok elf" "ReadSection elf i = Ok sec"
  shows "GetName elf sec \<noteq> Undef"
proof -
  from ReadSection_Ok(1)[OF assms(2)] have "0 < section_count elf" by (rule le_less_trans[OF word_zero_le])
  with assms(1) show ?thesis by (auto simp: elf_ok_def GetName_def ReadString_defined split: option.splits)
qed

text \<open>The search of \<^verbatim>\<open>FindSectionByName\<close> without its counter: the first section with the name, in
  file order.\<close>

primrec find_spec :: "ElfFile \<Rightarrow> bytes \<Rightarrow> nat list \<Rightarrow> Section option outcome" where
  "find_spec elf name [] = Ok None"
| "find_spec elf name (i # is) =
     obind (ReadSection elf (of_nat i)) (\<lambda>sec. obind (GetName elf sec) (\<lambda>nm.
       if nm = name then Ok (Some sec) else find_spec elf name is))"

lemma find_section_eq:
  assumes "unat (section_count elf) < 2 ^ 32" "i \<le> unat (section_count elf)"
  shows "find_section elf name (of_nat i) = Some (find_spec elf name [i..<unat (section_count elf)])"
  using assms(2)
proof (induction "unat (section_count elf) - i" arbitrary: i)
  case 0
  then have i: "i = unat (section_count elf)" by simp
  with assms(1) have "unat (of_nat i :: u32) = unat (section_count elf)" by (subst unat_of_nat_less) simp_all
  then have "(ucast (of_nat i :: u32) :: u64) = section_count elf"
    by (simp only: word_unat_eq_iff) (simp add: unat_ucast_up)
  then show ?case using i by (subst find_section.simps) simp
next
  case (Suc n)
  then have i: "i < unat (section_count elf)" by simp
  with assms(1) have c: "ucast (of_nat i :: u32) = (of_nat i :: u64)" "of_nat i < section_count elf"
    by (simp_all add: word_unat_eq_iff word_less_nat_alt unat_ucast_up unat_of_nat_less)
  have IH: "find_section elf name (of_nat i + 1) = Some (find_spec elf name [Suc i..<unat (section_count elf)])"
    using Suc.hyps(1)[of "Suc i"] Suc.hyps(2) i by (simp add: add.commute)
  show ?case unfolding upt_conv_Cons[OF i]
    by (subst find_section.simps) (simp add: c IH split: outcome.splits)
qed

lemma find_spec_defined:
  "elf_ok elf \<Longrightarrow> find_spec elf name is \<noteq> Undef"
  by (induction "is") (auto simp: obind_eq_Undef GetName_defined)

section \<open>A small file\<close>

text \<open>A big-endian 32-bit file whose one section is its string table.\<close>

definition tiny_ehdr :: Elf64_Ehdr where
  "tiny_ehdr = \<lparr>e_ident = [0x7f, 0x45, 0x4c, 0x46, 1, 2, 1] @ replicate 9 0, e_type = 2, e_machine = 8,
     e_version = 1, e_entry = 0, e_phoff = 0, e_shoff = 52, e_flags = 0, e_ehsize = 52, e_phentsize = 0,
     e_phnum = 0, e_shentsize = 40, e_shnum = 1, e_shstrndx = 0\<rparr>"

definition tiny_shdr :: Elf64_Shdr where
  "tiny_shdr = \<lparr>sh_name = 1, sh_type = SHT_STRTAB, sh_flags = 0, sh_addr = 0, sh_offset = 92, sh_size = 3,
     sh_link = 0, sh_info = 0, sh_addralign = 1, sh_entsize = 0\<rparr>"

definition tiny_elf :: bytes where
  "tiny_elf = enc_Ehdr False kBig tiny_ehdr @ enc_Shdr False kBig tiny_shdr @ [0, 0x61, 0]"

definition tiny_section :: Section where
  "tiny_section = \<lparr>sec_header = tiny_shdr, sec_contents = [0, 0x61, 0], sec_range = enc_Shdr False kBig tiny_shdr\<rparr>"

definition tiny_file :: ElfFile where
  "tiny_file = \<lparr>is_64bit = False, is_native_endian = False, elf_data = tiny_elf, elf_header = tiny_ehdr,
     section_count = 1, section_string_index = 0, header_region = enc_Ehdr False kBig tiny_ehdr,
     section_headers = enc_Shdr False kBig tiny_shdr, segment_headers = [],
     section_name_table = Some tiny_section\<rparr>"

lemma tiny_fits: "fits_Ehdr False tiny_ehdr" "fits_Shdr False tiny_shdr"
  by (simp_all add: fits_Ehdr_def fits_Shdr_def fits_def tiny_ehdr_def tiny_shdr_def)

lemma tiny_opens: "Initialize_elf tiny_elf = Ok (Some tiny_file)"
  by code_simp

lemma tiny_reads: "ReadSection tiny_file 0 = Ok tiny_section"
  by code_simp

section \<open>Properties\<close>

text \<open>C25. Structures of every class and byte order: a header, section header, program header,
  symbol, relocation or note that fits the class of the file is read back from its encoding at any
  offset, whatever surrounds it.\<close>

theorem elf_structs_roundtrip:
  assumes "unat off = length pre" "length pre + 64 < 2 ^ 64"
  shows "(fits_Ehdr (is_64bit elf) eh \<longrightarrow>
      ReadStruct elf EhdrMunger 52 64 (pre @ enc_Ehdr (is_64bit elf) (elf_endian elf) eh @ post) off =
        Ok (eh, enc_Ehdr (is_64bit elf) (elf_endian elf) eh)) \<and>
    (fits_Shdr (is_64bit elf) sh \<longrightarrow>
      ReadStruct elf ShdrMunger 40 64 (pre @ enc_Shdr (is_64bit elf) (elf_endian elf) sh @ post) off =
        Ok (sh, enc_Shdr (is_64bit elf) (elf_endian elf) sh)) \<and>
    (fits_Phdr (is_64bit elf) ph \<longrightarrow>
      ReadStruct elf PhdrMunger 32 56 (pre @ enc_Phdr (is_64bit elf) (elf_endian elf) ph @ post) off =
        Ok (ph, enc_Phdr (is_64bit elf) (elf_endian elf) ph)) \<and>
    (fits_Sym (is_64bit elf) sy \<longrightarrow>
      ReadStruct elf SymMunger 16 24 (pre @ enc_Sym (is_64bit elf) (elf_endian elf) sy @ post) off =
        Ok (sy, enc_Sym (is_64bit elf) (elf_endian elf) sy)) \<and>
    (fits_Rel (is_64bit elf) re \<longrightarrow>
      ReadStruct elf RelMunger 8 16 (pre @ enc_Rel (is_64bit elf) (elf_endian elf) re @ post) off =
        Ok (re, enc_Rel (is_64bit elf) (elf_endian elf) re)) \<and>
    (fits_Rela (is_64bit elf) ra \<longrightarrow>
      ReadStruct elf RelaMunger 12 24 (pre @ enc_Rela (is_64bit elf) (elf_endian elf) ra @ post) off =
        Ok (ra, enc_Rela (is_64bit elf) (elf_endian elf) ra)) \<and>
    ReadStruct elf NoteMunger 12 12 (pre @ enc_Nhdr (is_64bit elf) (elf_endian elf) nh @ post) off =
      Ok (nh, enc_Nhdr (is_64bit elf) (elf_endian elf) nh)"
  by (intro conjI impI ehdr.ReadStruct_enc shdr.ReadStruct_enc phdr.ReadStruct_enc sym.ReadStruct_enc
      rel.ReadStruct_enc rela.ReadStruct_enc nhdr.ReadStruct_enc)
    (use assms in \<open>simp_all add: ehdr.enc_size shdr.enc_size phdr.enc_size sym.enc_size rel.enc_size
      rela.enc_size nhdr.enc_size\<close>)

theorem elf_structs_roundtrip_witness:
  "ReadStruct tiny_file EhdrMunger 52 64 (enc_Ehdr False kBig tiny_ehdr @ enc_Shdr False kBig tiny_shdr @ [0, 0x61, 0]) 0 =
     Ok (tiny_ehdr, enc_Ehdr False kBig tiny_ehdr) \<and>
   ReadStruct tiny_file ShdrMunger 40 64 ([] @ enc_Shdr False kBig tiny_shdr @ [0, 0x61, 0]) 0 =
     Ok (tiny_shdr, enc_Shdr False kBig tiny_shdr)"
proof -
  have tf: "is_64bit tiny_file = False" "elf_endian tiny_file = kBig"
    by (simp_all add: tiny_file_def elf_endian_def)
  have z: "unat (0 :: u64) = length []" "length [] + 64 < (2 :: nat) ^ 64" by simp_all
  show ?thesis
    using elf_structs_roundtrip[OF z, of tiny_file tiny_ehdr "[0, 0x61, 0]" tiny_shdr]
      elf_structs_roundtrip[OF z, of tiny_file tiny_ehdr "enc_Shdr False kBig tiny_shdr @ [0, 0x61, 0]" tiny_shdr]
    unfolding tf using tiny_fits by (simp only: append_Nil simp_thms)
qed



text \<open>C26. Finding a section by name ends on every file of less than 4 GiB although its counter is
  narrower than its bound, and the result is the first section with that name.\<close>

theorem find_section_terminates:
  assumes "length data < 2 ^ 32" "Initialize_elf data = Ok (Some elf)"
  shows "FindSectionByName elf name = Some (find_spec elf name [0..<unat (section_count elf)]) \<and>
    find_spec elf name [0..<unat (section_count elf)] \<noteq> Undef"
proof -
  have "unat (section_count elf) < 2 ^ 32" using section_count_bound[OF assms(2)] assms(1) by auto
  from find_section_eq[OF this, of 0] find_spec_defined[OF Initialize_elf_Ok(2)[OF assms(2)]]
  show ?thesis by (simp add: FindSectionByName_def)
qed

theorem find_section_terminates_witness:
  "FindSectionByName tiny_file [0x61] = Some (find_spec tiny_file [0x61] [0..<unat (section_count tiny_file)]) \<and>
   find_spec tiny_file [0x61] [0..<unat (section_count tiny_file)] \<noteq> Undef"
proof -
  have "length tiny_elf < 2 ^ 32" using tiny_fits by (simp add: tiny_elf_def ehdr.enc_size shdr.enc_size)
  from find_section_terminates[OF this tiny_opens] show ?thesis .
qed

text \<open>Note sections: the reader looks at the last byte of the name of a note without asking
  whether it has one, so a note with an empty name is an access out of bounds.\<close>

theorem empty_note_name_undefined:
  assumes "length (enc_Nhdr (is_64bit elf) (elf_endian elf) nh @ rest) < 2 ^ 64" "n_namesz nh = 0"
    "sec_contents sec = enc_Nhdr (is_64bit elf) (elf_endian elf) nh @ rest"
  shows "new_NoteIter elf sec = Undef"
proof -
  let ?e = "enc_Nhdr (is_64bit elf) (elf_endian elf) nh"
  have len: "length ?e = 12" by (simp add: nhdr.enc_size)
  then have ne: "?e \<noteq> []" by auto
  have r: "ReadStruct elf NoteMunger 12 12 (?e @ rest) 0 = Ok (nh, ?e)"
    using nhdr.ReadStruct_enc[where elf = elf and v = nh and off = 0 and pre = "[]" and post = rest] len by simp
  have s: "StrictSubstr rest 0 0 = Ok []" by (simp add: StrictSubstr_Ok_iff)
  show ?thesis using ne len
    by (simp add: new_NoteIter_def Next_note_def assms r s Let_def)
qed

theorem empty_note_name_undefined_witness:
  "new_NoteIter tiny_file (tiny_section\<lparr>sec_contents := enc_Nhdr False kBig \<lparr>n_namesz = 0, n_descsz = 0, n_type = 1\<rparr>\<rparr>) = Undef"
proof -
  have tf: "is_64bit tiny_file = False" "elf_endian tiny_file = kBig"
    by (simp_all add: tiny_file_def elf_endian_def)
  show ?thesis
    using empty_note_name_undefined[where elf = tiny_file and nh = "\<lparr>n_namesz = 0, n_descsz = 0, n_type = 1\<rparr>"
        and rest = "[]" and sec = "tiny_section\<lparr>sec_contents := enc_Nhdr False kBig \<lparr>n_namesz = 0, n_descsz = 0, n_type = 1\<rparr>\<rparr>"]
    unfolding tf by (simp add: nhdr.enc_size)
qed

end
