(* ===== verification/Vmi.thy ===== *)
theory Vmi
  imports Elf_File Debug_Info
begin

text \<open>
  Symbols and guest introspection of the QEMU plugin: \<^verbatim>\<open>src/qemu_plugin/symbolizer.cc\<close> and
  \<^verbatim>\<open>vmi.{h,cc}\<close>. The guest, its registers and its memory, is a parameter: what the QEMU plugin
  interface returns for a read.
\<close>

section \<open>Model\<close>

definition cstr :: "string \<Rightarrow> bytes" where
  "cstr s = map of_char s"

subsection \<open>Symbols\<close>

record Symbolizer =
  symbol_to_address :: "bytes \<Rightarrow> u64 option"
  address_to_symbol :: "u64 \<Rightarrow> bytes option"

definition new_Symbolizer :: Symbolizer where
  "new_Symbolizer = \<lparr>symbol_to_address = (\<lambda>_. None), address_to_symbol = (\<lambda>_. None)\<rparr>"

text \<open>\<^verbatim>\<open>operator[]\<close> adds an empty name for an address it does not find. The results are whether there
  is a name, the name, the file name and the line number.\<close>

definition lookupAddress :: "u64 \<Rightarrow> Symbolizer \<Rightarrow> (bool \<times> bytes \<times> bytes \<times> int) \<times> Symbolizer" where
  "lookupAddress address s =
     (let (name, s) = (case address_to_symbol s address of
                         Some name \<Rightarrow> (name, s)
                       | None \<Rightarrow> ([], s\<lparr>address_to_symbol := (address_to_symbol s)(address \<mapsto> [])\<rparr>)) in
      ((name \<noteq> [], name, [], 0), s))"

definition lookupSymbol :: "bytes \<Rightarrow> Symbolizer \<Rightarrow> u64" where
  "lookupSymbol name s = (case symbol_to_address s name of Some a \<Rightarrow> a | None \<Rightarrow> 0)"

definition add_symbol :: "bytes \<Rightarrow> u64 \<Rightarrow> Symbolizer \<Rightarrow> Symbolizer" where
  "add_symbol name address s =
     s\<lparr>symbol_to_address := (symbol_to_address s)(name \<mapsto> address),
       address_to_symbol := (address_to_symbol s)(address \<mapsto> name)\<rparr>"

lemma word_count_less: "(j :: 'a::len word) < n \<Longrightarrow> unat n - unat (j + 1) < unat n - unat j"
proof -
  assume less: "j < n"
  have "unat n < 2 ^ LENGTH('a)" by (rule unsigned_less)
  with less have "unat j + 1 < 2 ^ LENGTH('a)" unfolding word_less_nat_alt by linarith
  then have "unat (j + 1) = Suc (unat j)" by (simp add: unat_word_ariths)
  with less show ?thesis by (simp add: word_less_nat_alt)
qed

text \<open>The inner loop of \<^verbatim>\<open>readSymbols\<close>, over the entries of a symbol table.\<close>

function read_table :: "ElfFile \<Rightarrow> Section \<Rightarrow> Section \<Rightarrow> u32 \<Rightarrow> u32 \<Rightarrow> Symbolizer \<Rightarrow> Symbolizer outcome" where
  "read_table elf sec strtab j symbol_count s =
     (if j < symbol_count then
        obind (ReadSymbol elf sec j) (\<lambda>(sym, _).
          if st_shndx sym = 0 \<or> st_size sym = 0 then read_table elf sec strtab (j + 1) symbol_count s
          else obind (ReadString strtab (st_name sym)) (\<lambda>name.
                 read_table elf sec strtab (j + 1) symbol_count (add_symbol name (st_value sym) s)))
      else Ok s)"
  by pat_completeness auto
termination
  by (relation "measure (\<lambda>(elf, sec, strtab, j, n, s). unat n - unat j)") (auto dest: word_count_less)

text \<open>Its outer loop, over the sections.\<close>

function read_symbol_sections :: "ElfFile \<Rightarrow> u64 \<Rightarrow> Symbolizer \<Rightarrow> Symbolizer outcome" where
  "read_symbol_sections elf i s =
     (if i < section_count elf then
        obind (ReadSection elf i) (\<lambda>sec.
          if sh_type (sec_header sec) \<noteq> SHT_SYMTAB then read_symbol_sections elf (i + 1) s
          else
            obind (GetEntryCount sec) (\<lambda>symbol_count.
            obind (ReadSection elf (ucast (sh_link (sec_header sec)))) (\<lambda>strtab.
              if sh_type (sec_header strtab) \<noteq> SHT_STRTAB then Exit
              else obind (read_table elf sec strtab 1 symbol_count s) (\<lambda>s. read_symbol_sections elf (i + 1) s))))
      else Ok s)"
  by pat_completeness auto
termination
  by (relation "measure (\<lambda>(elf, i, s). unat (section_count elf) - unat i)") (auto dest: word_count_less)

declare read_table.simps [simp del] read_symbol_sections.simps [simp del]

definition readSymbols :: "ElfFile \<Rightarrow> Symbolizer \<Rightarrow> Symbolizer outcome" where
  "readSymbols elf s = read_symbol_sections elf 1 s"

subsection \<open>Debugging sections\<close>

text \<open>\<^verbatim>\<open>File::GetFieldByName\<close> and the assignment through its result; \<open>None\<close> is the null pointer.\<close>

definition SetFieldByName :: "bytes \<Rightarrow> bytes \<Rightarrow> File \<Rightarrow> File option" where
  "SetFieldByName name contents f =
     (if name = cstr ''aranges'' then Some (f\<lparr>debug_aranges := contents\<rparr>)
      else if name = cstr ''addr'' then Some (f\<lparr>debug_addr := contents\<rparr>)
      else if name = cstr ''str'' then Some (f\<lparr>debug_str := contents\<rparr>)
      else if name = cstr ''str_offsets'' then Some (f\<lparr>debug_str_offsets := contents\<rparr>)
      else if name = cstr ''line_str'' then Some (f\<lparr>debug_line_str := contents\<rparr>)
      else if name = cstr ''info'' then Some (f\<lparr>debug_info := contents\<rparr>)
      else if name = cstr ''types'' then Some (f\<lparr>debug_types := contents\<rparr>)
      else if name = cstr ''abbrev'' then Some (f\<lparr>debug_abbrev := contents\<rparr>)
      else if name = cstr ''line'' then Some (f\<lparr>debug_line := contents\<rparr>)
      else if name = cstr ''loc'' then Some (f\<lparr>debug_loc := contents\<rparr>)
      else if name = cstr ''pubnames'' then Some (f\<lparr>debug_pubnames := contents\<rparr>)
      else if name = cstr ''pubtypes'' then Some (f\<lparr>debug_pubtypes := contents\<rparr>)
      else if name = cstr ''ranges'' then Some (f\<lparr>debug_ranges := contents\<rparr>)
      else if name = cstr ''rnglists'' then Some (f\<lparr>debug_rnglists := contents\<rparr>)
      else None)"

record Elf64_Chdr =
  ch_type :: u32
  ch_size :: u64
  ch_addralign :: u64

definition ChdrMunger :: "bool \<Rightarrow> bool \<Rightarrow> bytes \<Rightarrow> Elf64_Chdr" where
  "ChdrMunger is64 f from =
     (if is64 then \<lparr>ch_type = fld32 f from 0, ch_size = fld64 f from 8, ch_addralign = fld64 f from 16\<rparr>
      else \<lparr>ch_type = fld32 f from 0, ch_size = wide32 f from 4, ch_addralign = wide32 f from 8\<rparr>)"

definition strip_suffix :: "bytes \<Rightarrow> bytes \<Rightarrow> bytes" where
  "strip_suffix suf name = (if suffix suf name then take (length name - length suf) name else name)"

text \<open>One section of the loop that collects the debugging sections: the file with the section entered,
  or unchanged.\<close>

definition debug_section :: "ElfFile \<Rightarrow> Section \<Rightarrow> File \<Rightarrow> File outcome" where
  "debug_section elf sec f =
     obind (GetName elf sec) (\<lambda>name.
     obind (if sh_flags (sec_header sec) AND 0x800 \<noteq> 0
            then obind (ReadStruct elf ChdrMunger 12 24 (sec_contents sec) 0) (\<lambda>(chdr, range).
                   Ok (if ch_type chdr \<noteq> 1 then None
                       else Some (ch_size chdr, drop (length range) (sec_contents sec))))
            else Ok (Some (0, sec_contents sec))) (\<lambda>r1.
       case r1 of
         None \<Rightarrow> Ok f
       | Some (uncompressed_size, contents) \<Rightarrow>
           obind (if prefix (cstr ''.debug_'') name
                  then Ok (Some (uncompressed_size, drop (length (cstr ''.debug_'')) name))
                  else if prefix (cstr ''.zdebug_'') name
                  then obind (ReadBytes 4 contents) (\<lambda>(magic, contents).
                         if magic \<noteq> cstr ''ZLIB'' then Ok None
                         else obind (ReadBigEndian contents :: (u64 \<times> bytes) outcome) (\<lambda>(n, _).
                                Ok (Some (n, drop (length (cstr ''.zdebug_'')) name))))
                  else Ok (Some (uncompressed_size, name))) (\<lambda>r2.
             case r2 of
               None \<Rightarrow> Ok f
             | Some (uncompressed_size, name) \<Rightarrow>
                 (case SetFieldByName (strip_suffix (cstr ''.dwo'') name) (sec_contents sec) f of
                    None \<Rightarrow> Ok f
                  | Some f' \<Rightarrow> if uncompressed_size \<noteq> 0 then Exit else Ok f'))))"

function debug_sections :: "ElfFile \<Rightarrow> u64 \<Rightarrow> File \<Rightarrow> File outcome" where
  "debug_sections elf i f =
     (if i < section_count elf
      then obind (ReadSection elf i) (\<lambda>sec. obind (debug_section elf sec f) (\<lambda>f. debug_sections elf (i + 1) f))
      else Ok f)"
  by pat_completeness auto
termination
  by (relation "measure (\<lambda>(elf, i, s). unat (section_count elf) - unat i)") (auto dest: word_count_less)

declare debug_sections.simps [simp del]

subsection \<open>The layout of the task structure\<close>

text \<open>A \<^verbatim>\<open>long\<close> offset is a 64-bit word, \<open>-1\<close> while it is not known.\<close>

record Offsets =
  tgidOffset :: u64
  pidOffset :: u64
  commOffset :: u64

definition member_attr :: "CU \<Rightarrow> u16 \<Rightarrow> AttrValue \<Rightarrow> bytes \<times> u64 \<Rightarrow> (bytes \<times> u64) outcome" where
  "member_attr cu tag v st =
     (let (name, val) = st in
      if tag = DW_AT_name \<and> IsString v then obind (GetString cu v) (\<lambda>s. Ok (s, val))
      else if tag = 0x38 then
        obind (ToUint cu v) (\<lambda>u. Ok (name, case u of Some u \<Rightarrow> u | None \<Rightarrow> val))
      else Ok (name, val))"

definition findMemberOffset :: "CU \<Rightarrow> Abbrev \<Rightarrow> Offsets \<times> DIEReader \<Rightarrow> (bool \<times> Offsets \<times> DIEReader) outcome" where
  "findMemberOffset cu abbrev st =
     (let (offs, r) = st in
      if ab_tag abbrev = 0x0d then
        obind (ReadAttributes (\<lambda>_. cu) (ab_attr abbrev) (member_attr cu) ([], - 1) (die_remaining r)) (\<lambda>((name, val), rem).
          let r = r\<lparr>die_remaining := rem\<rparr> in
          if val = - 1 then Ok (False, offs, r)
          else if name = cstr ''tgid'' then Ok (True, offs\<lparr>tgidOffset := val\<rparr>, r)
          else if name = cstr ''pid'' then Ok (True, offs\<lparr>pidOffset := val\<rparr>, r)
          else if name = cstr ''comm'' then Ok (True, offs\<lparr>commOffset := val\<rparr>, r)
          else Ok (False, offs, r))
      else Ok (False, offs, r))"

text \<open>The function \<^verbatim>\<open>ReadChildren\<close> calls for each child of the structure.\<close>

definition member_child ::
    "CU \<Rightarrow> Abbrev \<Rightarrow> (Offsets \<times> nat) \<times> DIEReader \<Rightarrow> ((Offsets \<times> nat) \<times> DIEReader) outcome" where
  "member_child cu child st =
     (let ((offs, found_count), r) = st in
      obind (findMemberOffset cu child (offs, r)) (\<lambda>(found, offs, r).
        Ok ((offs, if found then found_count + 1 else found_count), r)))"

definition name_attr :: "CU \<Rightarrow> u16 \<Rightarrow> AttrValue \<Rightarrow> bool \<Rightarrow> bool outcome" where
  "name_attr cu tag v is_task_struct =
     (if tag = DW_AT_name \<and> IsString v
      then obind (GetString cu v) (\<lambda>s. Ok (is_task_struct \<or> s = cstr ''task_struct''))
      else Ok is_task_struct)"

text \<open>The loop over the entries of a unit. \<open>Some b\<close> ends the search with the result \<open>b\<close>, \<open>None\<close> goes on
  to the next unit; the outer \<open>option\<close> is a loop that does not end.\<close>

partial_function (option) scan_entries ::
    "CU \<Rightarrow> DIEReader \<Rightarrow> Offsets \<Rightarrow> (bool option \<times> Offsets) outcome option" where
  "scan_entries cu r offs =
     (case ReadCode cu r of
        Exit \<Rightarrow> Some Exit | Undef \<Rightarrow> Some Undef
      | Ok (None, r) \<Rightarrow> Some (Ok (None, offs))
      | Ok (Some abbrev, r) \<Rightarrow>
          if ab_tag abbrev = 0x13 then
            (case ReadAttributes (\<lambda>_. cu) (ab_attr abbrev) (name_attr cu) False (die_remaining r) of
               Exit \<Rightarrow> Some Exit | Undef \<Rightarrow> Some Undef
             | Ok (is_task_struct, rem) \<Rightarrow>
                 if is_task_struct
                 then (case ReadChildren cu abbrev (member_child cu) ((offs, 0), r\<lparr>die_remaining := rem\<rparr>) of
                         None \<Rightarrow> None
                       | Some Exit \<Rightarrow> Some Exit | Some Undef \<Rightarrow> Some Undef
                       | Some (Ok ((offs, found_count), _)) \<Rightarrow> Some (Ok (Some (found_count = 3), offs)))
                 else scan_entries cu (r\<lparr>die_remaining := rem\<rparr>) offs)
          else
            (case ReadAttributes (\<lambda>_. cu) (ab_attr abbrev) (\<lambda>_ _ s. Ok s) () (die_remaining r) of
               Exit \<Rightarrow> Some Exit | Undef \<Rightarrow> Some Undef
             | Ok (_, rem) \<Rightarrow> scan_entries cu (r\<lparr>die_remaining := rem\<rparr>) offs))"

partial_function (option) scan_units ::
    "CUIter \<Rightarrow> InfoReader \<Rightarrow> CU \<Rightarrow> Offsets \<Rightarrow> (bool \<times> Offsets) outcome option" where
  "scan_units it reader cu offs =
     (case NextCU it reader cu of
        Exit \<Rightarrow> Some Exit | Undef \<Rightarrow> Some Undef
      | Ok None \<Rightarrow> Some (Ok (False, offs))
      | Ok (Some (it, reader, cu)) \<Rightarrow>
          (case scan_entries cu (GetDIEReader cu) offs of
             None \<Rightarrow> None
           | Some Exit \<Rightarrow> Some Exit | Some Undef \<Rightarrow> Some Undef
           | Some (Ok (Some b, offs)) \<Rightarrow> Some (Ok (b, offs))
           | Some (Ok (None, offs)) \<Rightarrow> scan_units it reader cu offs))"

definition getTaskStructOffsets :: "ElfFile \<Rightarrow> (bool \<times> Offsets) outcome option" where
  "getTaskStructOffsets elf =
     (let offs = \<lparr>tgidOffset = - 1, pidOffset = - 1, commOffset = - 1\<rparr> in
      case debug_sections elf 1 empty_File of
        Exit \<Rightarrow> Some Exit | Undef \<Rightarrow> Some Undef
      | Ok dwarf \<Rightarrow>
          let reader = new_InfoReader dwarf None in
          (case GetCUIter reader kDebugInfo 0 of
             Exit \<Rightarrow> Some Exit | Undef \<Rightarrow> Some Undef
           | Ok it \<Rightarrow> scan_units it reader new_CU offs))"

subsection \<open>Introspection\<close>

record VMI =
  m_offsets :: Offsets
  m_pcpuHotOffset :: u64
  m_switchToAddr :: u64
  m_perCpuOffset :: u64
  m_currentTaskOffset :: u64
  m_processInvalidated :: bool

text \<open>The constructor sets one member; the others are as memory was.\<close>

definition new_VMI :: "VMI \<Rightarrow> VMI" where
  "new_VMI memory = memory\<lparr>m_processInvalidated := True\<rparr>"

text \<open>\<^verbatim>\<open>VMI::Init\<close> after the search: \<open>True\<close> is the return value 0, \<open>False\<close> is -1.\<close>

definition init_symbols :: "Symbolizer \<Rightarrow> VMI \<Rightarrow> bool \<times> VMI" where
  "init_symbols symbolizer v =
     (let v = v\<lparr>m_pcpuHotOffset := lookupSymbol (cstr ''pcpu_hot'') symbolizer\<rparr> in
      if m_pcpuHotOffset v = 0 then (False, v)
      else
        case (if m_pcpuHotOffset v = 0
              then let v = v\<lparr>m_perCpuOffset := lookupSymbol (cstr ''__per_cpu_offset'') symbolizer\<rparr> in
                   if m_perCpuOffset v = 0 then Inl v
                   else let v = v\<lparr>m_currentTaskOffset := lookupSymbol (cstr ''current_task'') symbolizer\<rparr> in
                        if m_currentTaskOffset v = 0 then Inl v else Inr v
              else Inr v) of
          Inl v \<Rightarrow> (False, v)
        | Inr v \<Rightarrow>
            let v = v\<lparr>m_switchToAddr := lookupSymbol (cstr ''__switch_to_asm'') symbolizer\<rparr> in
            if m_switchToAddr v = 0 then (False, v) else (True, v))"

definition Init_vmi :: "ElfFile \<Rightarrow> Symbolizer \<Rightarrow> VMI \<Rightarrow> (bool \<times> VMI) outcome option" where
  "Init_vmi elf symbolizer v =
     map_option (\<lambda>search. obind search (\<lambda>(found, offs).
       let v = v\<lparr>m_offsets := offs\<rparr> in Ok (if found then init_symbols symbolizer v else (False, v))))
     (getTaskStructOffsets elf)"

definition LogCall_vmi :: "u64 \<Rightarrow> VMI \<Rightarrow> bool \<times> VMI" where
  "LogCall_vmi addr v = (if addr = m_switchToAddr v then (True, v\<lparr>m_processInvalidated := True\<rparr>) else (False, v))"

definition IsProcessInvalidated :: "VMI \<Rightarrow> bool" where
  "IsProcessInvalidated v = m_processInvalidated v"

text \<open>The guest: the content of the register \<^verbatim>\<open>gs_base\<close>, and of a range of virtual memory, where QEMU
  can read them.\<close>

record Guest =
  read_gs_base :: "bytes option"
  read_memory :: "u64 \<Rightarrow> nat \<Rightarrow> bytes option"

definition GetCurrentTaskStruct :: "Guest \<Rightarrow> VMI \<Rightarrow> u64" where
  "GetCurrentTaskStruct g v =
     (case read_gs_base g of
        None \<Rightarrow> 0
      | Some reg \<Rightarrow>
          let gs_base = le_word (take 8 reg) in
          if m_pcpuHotOffset v \<noteq> 0
          then (case read_memory g (gs_base + m_pcpuHotOffset v) 8 of
                  None \<Rightarrow> 0 | Some data \<Rightarrow> le_word (take 8 data))
          else (case read_memory g (m_perCpuOffset v) 8 of
                  None \<Rightarrow> 0
                | Some data \<Rightarrow>
                    let ret = le_word (take 8 data) in
                    (case read_memory g (ret + m_currentTaskOffset v) 8 of
                       None \<Rightarrow> ret | Some data \<Rightarrow> le_word (take 8 data))))"

definition TASK_STRUCT_COMM_LEN :: nat where "TASK_STRUCT_COMM_LEN = 16"

text \<open>Whether all could be read, the process as far as it was read over the values given, and the new
  state.\<close>

type_synonym ProcessInfo = "u32 \<times> u32 \<times> bytes"

definition GetProcessInfo :: "Guest \<Rightarrow> ProcessInfo \<Rightarrow> VMI \<Rightarrow> bool \<times> ProcessInfo \<times> VMI" where
  "GetProcessInfo g info v =
     (let (tgid, pid, comm) = info; task = GetCurrentTaskStruct g v in
      if task = 0 then (False, (tgid, pid, comm), v)
      else case read_memory g (task + tgidOffset (m_offsets v)) 4 of
        None \<Rightarrow> (False, (tgid, pid, comm), v)
      | Some data \<Rightarrow>
          let tgid = le_word (take 4 data) in
          (case read_memory g (task + pidOffset (m_offsets v)) 4 of
             None \<Rightarrow> (False, (tgid, pid, comm), v)
           | Some data \<Rightarrow>
               let pid = le_word (take 4 data) in
               (case read_memory g (task + commOffset (m_offsets v)) TASK_STRUCT_COMM_LEN of
                  None \<Rightarrow> (False, (tgid, pid, comm), v)
                | Some data \<Rightarrow>
                    let comm = take TASK_STRUCT_COMM_LEN data in
                    (True, (tgid, pid, takeWhile (\<lambda>b. b \<noteq> 0) comm), v\<lparr>m_processInvalidated := False\<rparr>))))"

section \<open>Symbols\<close>

text \<open>The two tables agree: a name an address has is a name with an address, and the address a name has
  is one with a name.\<close>

definition symbols_ok :: "Symbolizer \<Rightarrow> bool" where
  "symbols_ok s \<longleftrightarrow>
     (\<forall>a n. address_to_symbol s a = Some n \<and> n \<noteq> [] \<longrightarrow> symbol_to_address s n \<noteq> None) \<and>
     (\<forall>n a. symbol_to_address s n = Some a \<longrightarrow> address_to_symbol s a \<noteq> None)"

lemma symbols_ok_new: "symbols_ok new_Symbolizer"
  by (simp add: symbols_ok_def new_Symbolizer_def)

lemma symbols_ok_add: "symbols_ok s \<Longrightarrow> symbols_ok (add_symbol name address s)"
  by (auto simp: symbols_ok_def add_symbol_def)

lemma symbols_ok_lookup: "symbols_ok s \<Longrightarrow> symbols_ok (snd (lookupAddress address s))"
  by (auto simp: symbols_ok_def lookupAddress_def split: option.split)

text \<open>A result is defined, and satisfies a predicate where the program goes on.\<close>

definition yields :: "('a \<Rightarrow> bool) \<Rightarrow> 'a outcome \<Rightarrow> bool" where
  "yields P m \<longleftrightarrow> m \<noteq> Undef \<and> (\<forall>x. m = Ok x \<longrightarrow> P x)"

lemma yields_simps [simp]: "yields P (Ok x) = P x" "yields P Exit" "\<not> yields P Undef"
  by (simp_all add: yields_def)

lemma yields_obind:
  "m \<noteq> Undef \<Longrightarrow> (\<And>x. m = Ok x \<Longrightarrow> yields P (f x)) \<Longrightarrow> yields P (obind m f)"
  by (cases m) auto

lemma read_table_yields:
  assumes "sh_type (sec_header sec) = SHT_SYMTAB" "sh_type (sec_header strtab) = SHT_STRTAB"
  shows "symbols_ok s \<Longrightarrow> yields symbols_ok (read_table elf sec strtab j n s)"
  using assms
proof (induction elf sec strtab j n s rule: read_table.induct)
  case (1 elf sec strtab j n s)
  show ?case
    by (subst read_table.simps)
      (auto intro!: yields_obind "1.IH" symbols_ok_add simp: "1.prems" ReadSymbol_defined ReadString_defined)
qed

lemma read_symbol_sections_yields:
  "symbols_ok s \<Longrightarrow> yields symbols_ok (read_symbol_sections elf i s)"
proof (induction "unat (section_count elf) - unat i" arbitrary: i s rule: less_induct)
  case less
  have IH: "yields symbols_ok (read_symbol_sections elf (i + 1) s')" if "i < section_count elf" "symbols_ok s'" for s'
    using less.hyps[OF word_count_less[OF that(1)] that(2)] .
  have table: "yields symbols_ok (read_table elf sec strtab 1 n s)"
    if "sh_type (sec_header sec) = SHT_SYMTAB" "sh_type (sec_header strtab) = SHT_STRTAB" for sec strtab n
    using read_table_yields[OF that less.prems] .
  have rest: "yields symbols_ok (obind (read_table elf sec strtab 1 n s) (read_symbol_sections elf (i + 1)))"
    if "i < section_count elf" "sh_type (sec_header sec) = SHT_SYMTAB" "sh_type (sec_header strtab) = SHT_STRTAB"
    for sec strtab n
    using table[OF that(2,3), of n] IH[OF that(1)] by (cases "read_table elf sec strtab 1 n s") auto
  show ?case
    by (subst read_symbol_sections.simps)
      (auto intro!: yields_obind[of "ReadSection _ _"] yields_obind[of "GetEntryCount _"] IH less.prems rest
        simp: GetEntryCount_def)
qed

section \<open>The scans return\<close>

lemma children_loop_returns:
  assumes f: "\<And>ab s r s' r'. f ab (s, r) = Ok (s', r') \<Longrightarrow> suffix (die_remaining r') (die_remaining r)"
  shows "children_loop cu depth f (s, r) \<noteq> None"
proof (induction "length (die_remaining r)" arbitrary: s r rule: less_induct)
  case less
  have "children_loop cu depth f (s2, SkipNullEntries r2) \<noteq> None"
    if "ReadCode cu r = Ok (Some ab, r1)" "f ab (s, r1) = Ok (s2, r2)" for ab r1 s2 r2
  proof (rule less)
    have "length (die_remaining (SkipNullEntries r2)) \<le> length (die_remaining r2)"
      by (simp add: length_dropWhile_le)
    also have "\<dots> \<le> length (die_remaining r1)" using f[OF that(2)] by (rule suffix_length_le)
    also have "\<dots> < length (die_remaining r)" using ReadCode_shorter[OF that(1)] by (rule strict_suffix_length)
    finally show "length (die_remaining (SkipNullEntries r2)) < length (die_remaining r)" .
  qed
  then show ?case
    by (subst children_loop.simps) (auto split: outcome.split option.split)
qed

lemma findMemberOffset_suffix:
  assumes "findMemberOffset cu ab (offs, r) = Ok (found, offs', r')"
  shows "suffix (die_remaining r') (die_remaining r)"
proof (cases "ab_tag ab = 0x0d")
  case True
  with assms obtain name val rem where
    "ReadAttributes (\<lambda>_. cu) (ab_attr ab) (member_attr cu) ([], - 1) (die_remaining r) = Ok ((name, val), rem)"
    "r' = r\<lparr>die_remaining := rem\<rparr>"
    by (auto simp: findMemberOffset_def Let_def obind_Ok_iff split: if_splits)
  then show ?thesis using ReadAttributes_suffix by fastforce
qed (use assms in \<open>simp add: findMemberOffset_def\<close>)

lemma member_child_suffix:
  assumes "member_child cu ab (s, r) = Ok (s', r')"
  shows "suffix (die_remaining r') (die_remaining r)"
  using assms findMemberOffset_suffix[of cu ab "fst s" r]
  by (auto simp: member_child_def obind_Ok_iff split: prod.splits)

lemma entry_shorter:
  assumes "ReadCode cu r = Ok (Some ab, r1)" "ReadAttributes g at fn st (die_remaining r1) = Ok (st', rem)"
  shows "length rem < length (die_remaining r)"
proof -
  have "length rem \<le> length (die_remaining r1)" using ReadAttributes_suffix[OF assms(2)] by (rule suffix_length_le)
  also have "\<dots> < length (die_remaining r)" using ReadCode_shorter[OF assms(1)] by (rule strict_suffix_length)
  finally show ?thesis .
qed

lemma ReadChildren_returns: "ReadChildren cu ab (member_child cu) st \<noteq> None"
  using children_loop_returns[of "member_child cu", OF member_child_suffix] by (simp add: ReadChildren_def)

lemma scan_entries_returns: "scan_entries cu r offs \<noteq> None"
proof (induction "length (die_remaining r)" arbitrary: r offs rule: less_induct)
  case less
  have IH: "scan_entries cu (r1\<lparr>die_remaining := rem\<rparr>) offs \<noteq> None"
    if "length rem < length (die_remaining r)" for r1 rem by (rule less) (use that in simp)
  show ?case
  proof (cases "ReadCode cu r")
    case (Ok x)
    obtain ab r1 where x: "x = (ab, r1)" by (cases x)
    show ?thesis
    proof (cases ab)
      case None
      then show ?thesis using Ok x by (subst scan_entries.simps) simp
    next
      case (Some ab)
      note rc = Ok[unfolded x Some]
      show ?thesis
      proof (cases "ab_tag ab = 0x13")
        case True
        then show ?thesis
          using rc IH entry_shorter[OF rc, of "\<lambda>_. cu" "ab_attr ab" "name_attr cu" False]
            ReadChildren_returns[of cu ab]
          by (subst scan_entries.simps) (simp del: not_None_eq split: outcome.split option.split prod.split)
      next
        case False
        then show ?thesis
          using rc IH entry_shorter[OF rc, of "\<lambda>_. cu" "ab_attr ab" "\<lambda>_ _ s. Ok s" "()"]
          by (subst scan_entries.simps) (simp del: not_None_eq split: outcome.split prod.split)
      qed
    qed
  qed (subst scan_entries.simps, simp)+
qed

lemma scan_units_returns: "scan_units it reader cu offs \<noteq> None"
proof (induction "length (next_unit it)" arbitrary: it reader cu offs rule: less_induct)
  case less
  have "scan_units it' reader' cu' offs' \<noteq> None"
    if "NextCU it reader cu = Ok (Some (it', reader', cu'))" for it' reader' cu' offs'
    using less NextCU_shorter[OF that] by blast
  with scan_entries_returns show ?case
    by (subst scan_units.simps) (auto simp del: not_None_eq split: outcome.split option.split prod.split)
qed

lemma getTaskStructOffsets_returns: "getTaskStructOffsets elf \<noteq> None"
  by (auto simp: getTaskStructOffsets_def Let_def scan_units_returns simp del: not_None_eq split: outcome.split)

section \<open>Finding the layout\<close>

text \<open>The description of a structure as a producer writes it: the entry of the structure with its name,
  an entry for each member with name and location, and the null entry that ends the children.\<close>

definition struct_abbrev :: "u32 \<Rightarrow> Abbrev" where
  "struct_abbrev code = \<lparr>ab_code = code, ab_tag = 0x13, ab_has_child = True, ab_attr = [(DW_AT_name, 0x08)]\<rparr>"

definition field_abbrev :: "u32 \<Rightarrow> Abbrev" where
  "field_abbrev code =
     \<lparr>ab_code = code, ab_tag = 0x0d, ab_has_child = False, ab_attr = [(DW_AT_name, 0x08), (0x38, 0x0f)]\<rparr>"

definition enc_field :: "u32 \<Rightarrow> bytes \<times> u64 \<Rightarrow> bytes" where
  "enc_field code m = WriteVarInt code @ fst m @ 0 # WriteVarInt (snd m)"

definition enc_struct :: "u32 \<Rightarrow> u32 \<Rightarrow> bytes \<Rightarrow> (bytes \<times> u64) list \<Rightarrow> bytes" where
  "enc_struct scode fcode name ms = WriteVarInt scode @ name @ 0 # concat (map (enc_field fcode) ms) @ [0]"

definition set_offset :: "bytes \<times> u64 \<Rightarrow> Offsets \<times> nat \<Rightarrow> Offsets \<times> nat" where
  "set_offset m st =
     (let (offs, n) = st in
      if fst m = cstr ''tgid'' then (offs\<lparr>tgidOffset := snd m\<rparr>, n + 1)
      else if fst m = cstr ''pid'' then (offs\<lparr>pidOffset := snd m\<rparr>, n + 1)
      else if fst m = cstr ''comm'' then (offs\<lparr>commOffset := snd m\<rparr>, n + 1)
      else (offs, n))"

lemma WriteVarInt_hd: "8 \<le> LENGTH('a) \<Longrightarrow> (v :: 'a::len word) \<noteq> 0 \<Longrightarrow> \<exists>b bs. WriteVarInt v = b # bs \<and> b \<noteq> 0"
proof -
  assume l: "8 \<le> LENGTH('a)" and v: "v \<noteq> 0"
  show ?thesis
  proof (cases "unat v < 0x80")
    case True
    then have "unat (ucast v :: u8) = unat v" by (simp add: unsigned_ucast_eq take_bit_nat_eq_self)
    with v have "(ucast v :: u8) \<noteq> 0" by (metis unat_eq_zero)
    with True show ?thesis by (simp add: WriteVarInt_small)
  next
    case False
    have "bit ((ucast v :: u8) OR 0x80) 7" by (simp add: bit_or_iff)
    then have "(ucast v :: u8) OR 0x80 \<noteq> 0" by (metis bit_0_eq bot_apply bot_bool_def)
    with False show ?thesis by (simp add: WriteVarInt_large)
  qed
qed

lemma skip_none: "c \<noteq> 0 \<Longrightarrow> SkipNullEntries \<lparr>die_remaining = WriteVarInt (c :: u32) @ rest, die_depth = d\<rparr> =
    \<lparr>die_remaining = WriteVarInt c @ rest, die_depth = d\<rparr>"
  using WriteVarInt_hd[of c] by (auto simp: SkipNullEntries_def)

lemma skip_end: "die_depth (SkipNullEntries \<lparr>die_remaining = 0 # rest, die_depth = d\<rparr>) < d"
  by (simp add: SkipNullEntries_def skip_null_eq)

lemma ReadCode_code:
  assumes "c \<noteq> 0" "GetAbbrev c (unit_abbrev cu) = Some ab"
  shows "ReadCode cu \<lparr>die_remaining = WriteVarInt c @ rest, die_depth = d\<rparr> =
    Ok (Some ab, \<lparr>die_remaining = rest, die_depth = (if ab_has_child ab then d + 1 else d)\<rparr>)"
  using assms by (simp add: ReadCode_def skip_none)

lemma ReadNullTerminated_enc: "0 \<notin> set s \<Longrightarrow> ReadNullTerminated (s @ 0 # rest) = Ok (s, rest)"
  by (simp add: ReadNullTerminated_Ok_iff)

lemma ParseAttr_string:
  "0 \<notin> set s \<Longrightarrow> ParseAttr cu 0x08 (s @ 0 # rest) = Ok (\<lparr>av_form = DW_FORM_string, av_data = AString s\<rparr>, rest)"
  by (simp add: ParseAttr_def ParseForm_def DwarfForm_of_def form_table_def make_attr_def ReadNullTerminated_enc)

lemma ParseAttr_udata:
  "ParseAttr cu 0x0f (WriteVarInt v @ rest) = Ok (\<lparr>av_form = DW_FORM_udata, av_data = AUint v\<rparr>, rest)"
  by (simp add: ParseAttr_def ParseForm_def DwarfForm_of_def form_table_def make_attr_def)

lemma member_child_field:
  assumes "0 \<notin> set (fst m)" "snd m \<noteq> - 1"
  shows "member_child cu (field_abbrev c) (st, \<lparr>die_remaining = fst m @ 0 # WriteVarInt (snd m) @ rest, die_depth = d\<rparr>) =
    Ok (set_offset m st, \<lparr>die_remaining = rest, die_depth = d\<rparr>)"
  using assms
  by (cases st; cases m) (simp add: member_child_def Let_def findMemberOffset_def field_abbrev_def member_attr_def ParseAttr_string
      ParseAttr_udata IsString_def GetString_def ToUint_def IsUint_def GetUint_def set_offset_def)

lemma fields_loop:
  assumes "c \<noteq> 0" "GetAbbrev c (unit_abbrev cu) = Some (field_abbrev c)"
    "\<forall>m \<in> set ms. 0 \<notin> set (fst m) \<and> snd m \<noteq> - 1"
  shows "\<exists>r. children_loop cu d (member_child cu)
      (st, SkipNullEntries \<lparr>die_remaining = concat (map (enc_field c) ms) @ 0 # rest, die_depth = d + 1\<rparr>) =
    Some (Ok (fold set_offset ms st, r))"
  using assms(3)
proof (induction ms arbitrary: st)
  case Nil
  have "\<not> d < die_depth (SkipNullEntries \<lparr>die_remaining = 0 # rest, die_depth = d + 1\<rparr>)"
    using skip_end[of rest "d + 1"] by simp
  then show ?case by (subst children_loop.simps) simp
next
  case (Cons m ms)
  let ?tail = "concat (map (enc_field c) ms) @ 0 # rest"
  have rc: "ReadCode cu \<lparr>die_remaining = enc_field c m @ ?tail, die_depth = d + 1\<rparr> =
      Ok (Some (field_abbrev c), \<lparr>die_remaining = fst m @ 0 # WriteVarInt (snd m) @ ?tail, die_depth = d + 1\<rparr>)"
    using ReadCode_code[OF assms(1,2), of "fst m @ 0 # WriteVarInt (snd m) @ ?tail" "d + 1"]
    by (simp add: enc_field_def field_abbrev_def)
  have "SkipNullEntries \<lparr>die_remaining = enc_field c m @ ?tail, die_depth = d + 1\<rparr> =
      \<lparr>die_remaining = enc_field c m @ ?tail, die_depth = d + 1\<rparr>"
    using skip_none[OF assms(1)] by (simp add: enc_field_def)
  with rc Cons.prems Cons.IH[of "set_offset m st"] show ?case
    by (subst children_loop.simps) (simp add: member_child_field)
qed

lemma name_attr_struct:
  assumes "0 \<notin> set name"
  shows "ReadAttributes (\<lambda>_. cu) (ab_attr (struct_abbrev c)) (name_attr cu) False (name @ 0 # rest) =
    Ok (name = cstr ''task_struct'', rest)"
  using assms by (simp add: struct_abbrev_def ParseAttr_string name_attr_def IsString_def GetString_def)

lemma scan_struct:
  assumes "sc \<noteq> 0" "GetAbbrev sc (unit_abbrev cu) = Some (struct_abbrev sc)"
    "fc \<noteq> 0" "GetAbbrev fc (unit_abbrev cu) = Some (field_abbrev fc)"
    "\<forall>m \<in> set ms. 0 \<notin> set (fst m) \<and> snd m \<noteq> - 1"
  shows "scan_entries cu \<lparr>die_remaining = enc_struct sc fc (cstr ''task_struct'') ms @ rest, die_depth = d\<rparr> offs =
    Some (Ok (Some (snd (fold set_offset ms (offs, 0)) = 3), fst (fold set_offset ms (offs, 0))))"
proof -
  let ?tail = "concat (map (enc_field fc) ms) @ 0 # rest"
  have rc: "ReadCode cu \<lparr>die_remaining = enc_struct sc fc (cstr ''task_struct'') ms @ rest, die_depth = d\<rparr> =
      Ok (Some (struct_abbrev sc), \<lparr>die_remaining = cstr ''task_struct'' @ 0 # ?tail, die_depth = d + 1\<rparr>)"
    using ReadCode_code[OF assms(1,2), of "cstr ''task_struct'' @ 0 # ?tail" d]
    by (simp add: enc_struct_def struct_abbrev_def)
  have "0 \<notin> set (cstr ''task_struct'')" by (simp add: cstr_def)
  note attrs = name_attr_struct[OF this, of cu sc ?tail]
  obtain r where "children_loop cu d (member_child cu)
      ((offs, 0), SkipNullEntries \<lparr>die_remaining = ?tail, die_depth = d + 1\<rparr>) = Some (Ok (fold set_offset ms (offs, 0), r))"
    using fields_loop[OF assms(3-5)] by blast
  then have children: "ReadChildren cu (struct_abbrev sc) (member_child cu)
      ((offs, 0), \<lparr>die_remaining = ?tail, die_depth = d + 1\<rparr>) = Some (Ok (fold set_offset ms (offs, 0), r))"
    by (simp add: ReadChildren_def struct_abbrev_def)
  show ?thesis
    by (subst scan_entries.simps)
      (simp add: rc attrs children struct_abbrev_def[THEN arg_cong, where f = ab_tag] split: prod.split)
qed

lemma cstr_distinct [simp]:
  "cstr ''pid'' \<noteq> cstr ''tgid''" "cstr ''comm'' \<noteq> cstr ''tgid''" "cstr ''comm'' \<noteq> cstr ''pid''"
  by code_simp+

definition offset_names :: "bytes set" where
  "offset_names = {cstr ''tgid'', cstr ''pid'', cstr ''comm''}"

lemma fold_set_offset:
  assumes "distinct (map fst ms)"
  shows "fold set_offset ms (offs, n) =
    (\<lparr>tgidOffset = case_option (tgidOffset offs) id (map_of ms (cstr ''tgid'')),
      pidOffset = case_option (pidOffset offs) id (map_of ms (cstr ''pid'')),
      commOffset = case_option (commOffset offs) id (map_of ms (cstr ''comm''))\<rparr>,
     n + length (filter (\<lambda>m. fst m \<in> offset_names) ms))"
  using assms
proof (induction ms arbitrary: offs n)
  case (Cons m ms)
  then have "map_of ms (fst m) = None" by (simp add: map_of_eq_None_iff)
  with Cons show ?case by (cases m) (auto simp: set_offset_def offset_names_def split: option.split)
qed simp

lemma offset_count:
  assumes "distinct (map fst ms)" "offset_names \<subseteq> fst ` set ms"
  shows "length (filter (\<lambda>m. fst m \<in> offset_names) ms) = 3"
proof -
  let ?f = "filter (\<lambda>m. fst m \<in> offset_names) ms"
  have "length ?f = card (set (map fst ?f))" using distinct_card[of "map fst ?f"] distinct_map_filter[OF assms(1)] by simp
  also have "set (map fst ?f) = offset_names" using assms(2) by auto
  also have "card offset_names = 3" by (simp add: offset_names_def cstr_distinct[symmetric])
  finally show ?thesis .
qed

subsection \<open>Entries before the structure\<close>

lemma scan_null: "scan_entries cu \<lparr>die_remaining = 0 # rest, die_depth = d\<rparr> offs =
    scan_entries cu \<lparr>die_remaining = rest, die_depth = d - 1\<rparr> offs"
proof -
  have "ReadCode cu \<lparr>die_remaining = 0 # rest, die_depth = d\<rparr> = ReadCode cu \<lparr>die_remaining = rest, die_depth = d - 1\<rparr>"
    by (simp add: ReadCode_def SkipNullEntries_def)
  then show ?thesis
    using scan_entries.simps[of cu "\<lparr>die_remaining = 0 # rest, die_depth = d\<rparr>" offs]
      scan_entries.simps[of cu "\<lparr>die_remaining = rest, die_depth = d - 1\<rparr>" offs] by simp
qed

lemma scan_fields:
  assumes "c \<noteq> 0" "GetAbbrev c (unit_abbrev cu) = Some (field_abbrev c)" "\<forall>m \<in> set ms. 0 \<notin> set (fst m)"
  shows "scan_entries cu \<lparr>die_remaining = concat (map (enc_field c) ms) @ rest, die_depth = d\<rparr> offs =
    scan_entries cu \<lparr>die_remaining = rest, die_depth = d\<rparr> offs"
  using assms(3)
proof (induction ms)
  case (Cons m ms)
  let ?tail = "concat (map (enc_field c) ms) @ rest"
  have rc: "ReadCode cu \<lparr>die_remaining = enc_field c m @ ?tail, die_depth = d\<rparr> =
      Ok (Some (field_abbrev c), \<lparr>die_remaining = fst m @ 0 # WriteVarInt (snd m) @ ?tail, die_depth = d\<rparr>)"
    using ReadCode_code[OF assms(1,2), of "fst m @ 0 # WriteVarInt (snd m) @ ?tail" d]
    by (simp add: enc_field_def field_abbrev_def)
  have "ReadAttributes (\<lambda>_. cu) (ab_attr (field_abbrev c)) (\<lambda>_ _ s. Ok s) () (fst m @ 0 # WriteVarInt (snd m) @ ?tail) =
      Ok ((), ?tail)"
    using Cons.prems by (simp add: field_abbrev_def ParseAttr_string ParseAttr_udata)
  moreover have "ab_tag (field_abbrev c) \<noteq> 0x13" by (simp add: field_abbrev_def)
  ultimately show ?case
    using rc Cons by (subst scan_entries.simps) simp
qed simp

lemma scan_other_struct:
  assumes "sc \<noteq> 0" "GetAbbrev sc (unit_abbrev cu) = Some (struct_abbrev sc)"
    "fc \<noteq> 0" "GetAbbrev fc (unit_abbrev cu) = Some (field_abbrev fc)"
    "\<forall>m \<in> set ms. 0 \<notin> set (fst m)" "0 \<notin> set name" "name \<noteq> cstr ''task_struct''"
  shows "scan_entries cu \<lparr>die_remaining = enc_struct sc fc name ms @ rest, die_depth = d\<rparr> offs =
    scan_entries cu \<lparr>die_remaining = rest, die_depth = d\<rparr> offs"
proof -
  let ?tail = "concat (map (enc_field fc) ms) @ 0 # rest"
  have rc: "ReadCode cu \<lparr>die_remaining = enc_struct sc fc name ms @ rest, die_depth = d\<rparr> =
      Ok (Some (struct_abbrev sc), \<lparr>die_remaining = name @ 0 # ?tail, die_depth = d + 1\<rparr>)"
    using ReadCode_code[OF assms(1,2), of "name @ 0 # ?tail" d]
    by (simp add: enc_struct_def struct_abbrev_def)
  have tag: "ab_tag (struct_abbrev sc) = 0x13" by (simp add: struct_abbrev_def)
  show ?thesis
    using assms(7) name_attr_struct[OF assms(6), of cu sc ?tail] scan_fields[OF assms(3-5)] scan_null
    by (subst scan_entries.simps) (simp add: rc tag)
qed

lemma scan_other_structs:
  assumes "sc \<noteq> 0" "GetAbbrev sc (unit_abbrev cu) = Some (struct_abbrev sc)"
    "fc \<noteq> 0" "GetAbbrev fc (unit_abbrev cu) = Some (field_abbrev fc)"
    "\<forall>(name, ms) \<in> set others. 0 \<notin> set name \<and> name \<noteq> cstr ''task_struct'' \<and> (\<forall>m \<in> set ms. 0 \<notin> set (fst m))"
  shows "scan_entries cu \<lparr>die_remaining = concat (map (\<lambda>(name, ms). enc_struct sc fc name ms) others) @ rest, die_depth = d\<rparr> offs =
    scan_entries cu \<lparr>die_remaining = rest, die_depth = d\<rparr> offs"
  using assms(5)
proof (induction others)
  case (Cons x others)
  then show ?case using scan_other_struct[OF assms(1-4), of "snd x" "fst x"] by (cases x) simp
qed simp

section \<open>Properties\<close>


text \<open>C35. The search of the kernel's debugging information always ends, whatever the file holds, and so does
  the initialisation of the introspection.\<close>

theorem layout_search_terminates:
  "getTaskStructOffsets elf \<noteq> None \<and> Init_vmi elf symbolizer v \<noteq> None"
  using getTaskStructOffsets_returns[of elf] by (simp add: Init_vmi_def)


definition sample_unit :: CU where
  "sample_unit = new_CU\<lparr>unit_abbrev := \<lparr>abbrev_entries = [(1, struct_abbrev 1), (2, field_abbrev 2)], abbrev_data = []\<rparr>\<rparr>"



definition sample_guest :: Guest where
  "sample_guest = \<lparr>read_gs_base = Some [0, 0x10, 0, 0, 0, 0, 0, 0],
     read_memory = (\<lambda>a n. if a = 0x1008 \<and> n = 8 then Some [0, 0x20, 0, 0, 0, 0, 0, 0]
       else if a = 0x2010 \<and> n = 4 then Some [7, 0, 0, 0]
       else if a = 0x2014 \<and> n = 4 then Some [9, 0, 0, 0]
       else if a = 0x2020 \<and> n = 16 then Some (cstr ''init'' @ replicate 12 0)
       else None)\<rparr>"

definition sample_vmi :: VMI where
  "sample_vmi = \<lparr>m_offsets = \<lparr>tgidOffset = 0x10, pidOffset = 0x14, commOffset = 0x20\<rparr>, m_pcpuHotOffset = 8,
     m_switchToAddr = 0x5000, m_perCpuOffset = 0, m_currentTaskOffset = 0, m_processInvalidated = True\<rparr>"


end
