(* ===== verification/String_Splitter.thy ===== *)
theory String_Splitter
  imports Dwarf_Util
begin

text \<open>
  The string splitter: \<^verbatim>\<open>src/base/string_splitter.cc\<close> and its header. The splitter walks over a buffer
  that it overwrites behind itself; the model keeps what lies between \<^verbatim>\<open>next_\<close> and \<^verbatim>\<open>end_\<close>, and the
  current token in place of the pointer to it.
\<close>

section \<open>Model\<close>

datatype EmptyTokenMode = DISALLOW_EMPTY_TOKENS | ALLOW_EMPTY_TOKENS

record StringSplitter =
  sp_rest :: bytes
  sp_cur :: "bytes option"
  sp_delimiter :: u8
  sp_mode :: EmptyTokenMode

text \<open>\<^verbatim>\<open>Initialize\<close> ends the buffer with a null byte, in place of its last one.\<close>

definition Initialize_splitter :: "bytes \<Rightarrow> u8 \<Rightarrow> EmptyTokenMode \<Rightarrow> StringSplitter" where
  "Initialize_splitter buf delimiter mode =
     \<lparr>sp_rest = (if buf = [] then [] else butlast buf @ [0]), sp_cur = None, sp_delimiter = delimiter, sp_mode = mode\<rparr>"

text \<open>The three constructors: from a string, whose terminating null byte is part of the buffer, from an
  array, and from the current token of another splitter.\<close>

definition StringSplitter_string :: "bytes \<Rightarrow> u8 \<Rightarrow> EmptyTokenMode \<Rightarrow> StringSplitter" where
  "StringSplitter_string str = Initialize_splitter (str @ [0])"

definition StringSplitter_array :: "bytes \<Rightarrow> u8 \<Rightarrow> EmptyTokenMode \<Rightarrow> StringSplitter" where
  "StringSplitter_array str = Initialize_splitter str"

definition StringSplitter_outer :: "StringSplitter \<Rightarrow> u8 \<Rightarrow> EmptyTokenMode \<Rightarrow> StringSplitter outcome" where
  "StringSplitter_outer outer delimiter mode =
     (case sp_cur outer of None \<Rightarrow> Undef | Some tok \<Rightarrow> Ok (Initialize_splitter (tok @ [0]) delimiter mode))"

text \<open>The inner loop of \<^verbatim>\<open>Next\<close>: the token and what is left behind its end. Running past the end of the
  buffer is undefined.\<close>

fun scan_token :: "u8 \<Rightarrow> bytes \<Rightarrow> (bytes \<times> bytes) outcome" where
  "scan_token delimiter [] = Undef"
| "scan_token delimiter (b # rest) =
     (if b = delimiter then Ok ([], rest)
      else if b = 0 then Ok ([], [])
      else obind (scan_token delimiter rest) (\<lambda>(tok, rest). Ok (b # tok, rest)))"

text \<open>The byte at \<^verbatim>\<open>cur_\<close> is null after the scan just when the token is empty.\<close>

definition Next_token :: "StringSplitter \<Rightarrow> (bool \<times> StringSplitter) outcome" where
  "Next_token s =
     (let start = (if sp_mode s = DISALLOW_EMPTY_TOKENS
                   then dropWhile (\<lambda>b. b = sp_delimiter s) (sp_rest s) else sp_rest s) in
      if start = [] then Ok (False, s\<lparr>sp_rest := [], sp_cur := None\<rparr>)
      else
        obind (scan_token (sp_delimiter s) start) (\<lambda>(tok, rest).
          if tok \<noteq> [] \<or> sp_mode s = ALLOW_EMPTY_TOKENS
          then Ok (True, s\<lparr>sp_rest := rest, sp_cur := Some tok\<rparr>)
          else Ok (False, s\<lparr>sp_rest := rest, sp_cur := None\<rparr>)))"

section \<open>Tokens\<close>

lemma scan_token_shorter: "scan_token d xs = Ok (tok, rest) \<Longrightarrow> length rest < length xs"
  by (induction d xs arbitrary: tok rest rule: scan_token.induct)
    (auto simp: obind_Ok_iff less_SucI split: if_splits)

lemma Next_token_shorter:
  assumes "Next_token s = Ok (True, s')"
  shows "length (sp_rest s') < length (sp_rest s)"
proof -
  let ?st = "if sp_mode s = DISALLOW_EMPTY_TOKENS then dropWhile (\<lambda>b. b = sp_delimiter s) (sp_rest s) else sp_rest s"
  from assms obtain tok where "scan_token (sp_delimiter s) ?st = Ok (tok, sp_rest s')"
    by (auto simp: Next_token_def Let_def obind_Ok_iff split: if_splits)
  then have "length (sp_rest s') < length ?st" by (rule scan_token_shorter)
  also have "\<dots> \<le> length (sp_rest s)" by (simp add: length_dropWhile_le)
  finally show ?thesis .
qed

text \<open>The loop \<^verbatim>\<open>while (splitter.Next())\<close> of the callers, collecting the tokens.\<close>

function all_tokens :: "StringSplitter \<Rightarrow> bytes list outcome" where
  "all_tokens s =
     obind (Next_token s) (\<lambda>(more, s').
       if more then obind (all_tokens s') (\<lambda>toks. Ok ((case sp_cur s' of None \<Rightarrow> [] | Some t \<Rightarrow> t) # toks))
       else Ok [])"
  by pat_completeness auto
termination
  by (relation "measure (\<lambda>s. length (sp_rest s))") (auto dest: Next_token_shorter)

declare all_tokens.simps [simp del]

text \<open>A string cut at every occurrence of a byte.\<close>

fun cut_at :: "u8 \<Rightarrow> bytes \<Rightarrow> bytes list" where
  "cut_at d [] = [[]]"
| "cut_at d (b # bs) = (if b = d then [] # cut_at d bs else (b # hd (cut_at d bs)) # tl (cut_at d bs))"

lemma cut_at_nonempty [simp]: "cut_at d bs \<noteq> []"
  by (cases bs) auto

text \<open>What a splitter reads of a string: up to its first null byte, unless null is the delimiter.\<close>

definition read_part :: "u8 \<Rightarrow> bytes \<Rightarrow> bytes" where
  "read_part d str = (if d = 0 then str else takeWhile (\<lambda>b. b \<noteq> 0) str)"

lemma scan_token_string:
  "scan_token d (str @ [0]) =
    Ok (hd (cut_at d (read_part d str)),
        if tl (cut_at d (read_part d str)) = [] then [] else drop (Suc (length (hd (cut_at d (read_part d str))))) str @ [0])"
  by (induction str) (auto simp: read_part_def)

lemma cut_at_rest:
  assumes "tl (cut_at d (read_part d str)) \<noteq> []"
  shows "cut_at d (read_part d (drop (Suc (length (hd (cut_at d (read_part d str))))) str)) = tl (cut_at d (read_part d str))"
    "str \<noteq> []"
  using assms by (induction str) (auto simp: read_part_def split: if_splits)

lemma all_tokens_end: "all_tokens \<lparr>sp_rest = [], sp_cur = c, sp_delimiter = d, sp_mode = mode\<rparr> = Ok []"
  by (subst all_tokens.simps) (simp add: Next_token_def)

text \<open>One step from the start of a token.\<close>

lemma token_step:
  assumes "all_tokens \<lparr>sp_rest = (if tl (cut_at d (read_part d str)) = [] then []
        else drop (Suc (length (hd (cut_at d (read_part d str))))) str @ [0]),
      sp_cur = Some (hd (cut_at d (read_part d str))), sp_delimiter = d, sp_mode = mode\<rparr> = Ok toks"
    "mode = DISALLOW_EMPTY_TOKENS \<Longrightarrow> hd (cut_at d (read_part d str)) \<noteq> [] \<and> hd str \<noteq> d"
  shows "all_tokens \<lparr>sp_rest = str @ [0], sp_cur = c, sp_delimiter = d, sp_mode = mode\<rparr> =
    Ok (hd (cut_at d (read_part d str)) # toks)"
proof -
  have "dropWhile (\<lambda>b. b = d) (str @ [0]) = str @ [0]" if "mode = DISALLOW_EMPTY_TOKENS"
    using assms(2)[OF that] by (cases str) (auto simp: read_part_def)
  with assms show ?thesis
    by (subst all_tokens.simps) (cases mode; simp add: Next_token_def scan_token_string Let_def)
qed

lemma all_tokens_allow:
  "all_tokens \<lparr>sp_rest = str @ [0], sp_cur = c, sp_delimiter = d, sp_mode = ALLOW_EMPTY_TOKENS\<rparr> =
    Ok (cut_at d (read_part d str))"
proof (induction "length str" arbitrary: str c rule: less_induct)
  case less
  let ?cut = "cut_at d (read_part d str)"
  have "all_tokens \<lparr>sp_rest = (if tl ?cut = [] then [] else drop (Suc (length (hd ?cut))) str @ [0]),
      sp_cur = Some (hd ?cut), sp_delimiter = d, sp_mode = ALLOW_EMPTY_TOKENS\<rparr> = Ok (tl ?cut)"
    using less[of "drop (Suc (length (hd ?cut))) str"] cut_at_rest[of d str] by (auto simp: all_tokens_end)
  from token_step[OF this] show ?case by simp
qed

lemma cut_at_dropWhile:
  "filter (\<lambda>t. t \<noteq> []) (cut_at d (dropWhile (\<lambda>b. b = d) str)) = filter (\<lambda>t. t \<noteq> []) (cut_at d str)"
  by (induction str) auto

lemma read_part_dropWhile: "read_part d (dropWhile (\<lambda>b. b = d) str) = dropWhile (\<lambda>b. b = d) (read_part d str)"
  by (induction str) (auto simp: read_part_def)

lemma all_tokens_skip:
  assumes "dropWhile (\<lambda>b. b = d) (str @ [0]) = str' @ [0]"
  shows "all_tokens \<lparr>sp_rest = str @ [0], sp_cur = c, sp_delimiter = d, sp_mode = DISALLOW_EMPTY_TOKENS\<rparr> =
    all_tokens \<lparr>sp_rest = str' @ [0], sp_cur = c, sp_delimiter = d, sp_mode = DISALLOW_EMPTY_TOKENS\<rparr>"
proof -
  have "dropWhile (\<lambda>b. b = d) (str' @ [0]) = str' @ [0]" using assms dropWhile_idem by metis
  with assms show ?thesis
    by (subst (1 2) all_tokens.simps) (simp add: Next_token_def Let_def cong: if_cong)
qed

lemma cut_at_empty_hd:
  assumes "hd (cut_at d (read_part d str)) = []" "str = [] \<or> hd str \<noteq> d"
  shows "cut_at d (read_part d str) = [[]]"
  using assms by (cases str) (auto simp: read_part_def split: if_splits)

lemma all_tokens_disallow:
  "all_tokens \<lparr>sp_rest = str @ [0], sp_cur = c, sp_delimiter = d, sp_mode = DISALLOW_EMPTY_TOKENS\<rparr> =
    Ok (filter (\<lambda>t. t \<noteq> []) (cut_at d (read_part d str)))"
proof (induction "length str" arbitrary: str c rule: less_induct)
  case less
  let ?str = "dropWhile (\<lambda>b. b = d) str" and ?nonempty = "filter (\<lambda>t. t \<noteq> [])"
  let ?cut = "cut_at d (read_part d ?str)"
  have spec: "?nonempty (cut_at d (read_part d str)) = ?nonempty ?cut"
    by (simp add: read_part_dropWhile cut_at_dropWhile)
  show ?case
  proof (cases "dropWhile (\<lambda>b. b = d) (str @ [0]) = []")
    case True
    then have "d = 0" "?str = []" by (auto simp: dropWhile_append split: if_splits)
    then have "?nonempty ?cut = []" by (simp only: read_part_def) simp
    with True spec show ?thesis by (subst all_tokens.simps) (auto simp: Next_token_def)
  next
    case False
    then have "dropWhile (\<lambda>b. b = d) (str @ [0]) = ?str @ [0]"
      by (auto simp: dropWhile_append split: if_splits)
    note skip = all_tokens_skip[OF this]
    have hd: "?str = [] \<or> hd ?str \<noteq> d"
      using hd_dropWhile[of "\<lambda>b. b = d" str] by blast
    show ?thesis
    proof (cases "hd ?cut = []")
      case True
      with hd have cut: "?cut = [[]]" by (intro cut_at_empty_hd)
      have "dropWhile (\<lambda>b. b = d) (?str @ [0]) = ?str @ [0]"
        using \<open>dropWhile (\<lambda>b. b = d) (str @ [0]) = ?str @ [0]\<close> dropWhile_idem by metis
      with cut have "all_tokens \<lparr>sp_rest = ?str @ [0], sp_cur = c, sp_delimiter = d,
          sp_mode = DISALLOW_EMPTY_TOKENS\<rparr> = Ok []"
        by (subst all_tokens.simps) (simp add: Next_token_def scan_token_string)
      with skip spec cut show ?thesis by simp
    next
      case cut: False
      have "all_tokens \<lparr>sp_rest = (if tl ?cut = [] then [] else drop (Suc (length (hd ?cut))) ?str @ [0]),
          sp_cur = Some (hd ?cut), sp_delimiter = d, sp_mode = DISALLOW_EMPTY_TOKENS\<rparr> = Ok (?nonempty (tl ?cut))"
      proof (cases "tl ?cut = []")
        case False
        have "length (drop (Suc (length (hd ?cut))) ?str) < length str"
          using cut_at_rest(2)[OF False] length_dropWhile_le[of "\<lambda>b. b = d" str] by (cases ?str) auto
        from less[OF this] cut_at_rest(1)[OF False] False show ?thesis by simp
      qed (simp add: all_tokens_end)
      from token_step[OF this] cut hd have "all_tokens \<lparr>sp_rest = ?str @ [0], sp_cur = c, sp_delimiter = d,
          sp_mode = DISALLOW_EMPTY_TOKENS\<rparr> = Ok (hd ?cut # ?nonempty (tl ?cut))"
        by (cases ?str) (auto simp: read_part_def)
      with cut skip spec show ?thesis by (cases ?cut) auto
    qed
  qed
qed

section \<open>Properties\<close>

text \<open>C37. Splitting a string ends, never runs past the end of the buffer, and gives the pieces between the
  delimiters, of the string up to its first null byte unless null is the delimiter. Empty pieces are
  left out in the default mode, and all are kept in the other. A token can be split again.\<close>

theorem splitter_tokens:
  "all_tokens (StringSplitter_string str d mode) =
     Ok (if mode = ALLOW_EMPTY_TOKENS then cut_at d (read_part d str)
         else filter (\<lambda>t. t \<noteq> []) (cut_at d (read_part d str))) \<and>
   (sp_cur s = Some tok \<longrightarrow> obind (StringSplitter_outer s d mode) all_tokens = all_tokens (StringSplitter_string tok d mode))"
  by (cases mode)
    (simp_all add: StringSplitter_string_def Initialize_splitter_def all_tokens_allow all_tokens_disallow
      StringSplitter_outer_def)

theorem splitter_tokens_witness:
  "all_tokens (StringSplitter_string [0x61, 0x2c, 0x2c, 0x62] 0x2c DISALLOW_EMPTY_TOKENS) = Ok [[0x61], [0x62]] \<and>
   obind (StringSplitter_outer \<lparr>sp_rest = [], sp_cur = Some [0x61, 0x3b], sp_delimiter = 0x2c, sp_mode = DISALLOW_EMPTY_TOKENS\<rparr>
     0x3b ALLOW_EMPTY_TOKENS) all_tokens = Ok [[0x61], []]"
  using splitter_tokens[of "[0x61, 0x2c, 0x2c, 0x62]" "0x2c" DISALLOW_EMPTY_TOKENS]
    splitter_tokens[of "[0x61, 0x3b]" "0x3b" ALLOW_EMPTY_TOKENS
      "\<lparr>sp_rest = [], sp_cur = Some [0x61, 0x3b], sp_delimiter = 0x2c, sp_mode = DISALLOW_EMPTY_TOKENS\<rparr>" "[0x61, 0x3b]"]
  by (simp add: read_part_def)

end
