(* ===== verification/Spec2Isabelle.thy ===== *)
theory Spec2Isabelle
  imports Proto_Ring_Buffer Filter_Roundtrip Filter_Safety Blob_Reader Flat_Hash_Map Line_Info Vmi String_Splitter
begin

text \<open>
  A verification library for DejaView.
\<close>

end
